(* ===== verification/Prelude.thy ===== *)
theory Prelude
  imports Main "HOL-Library.Word" "HOL-Library.Finite_Map" "HOL-Library.List_Lexorder"
    "HOL-Library.Char_ord" "HOL-Library.Multiset" "HOL-Library.Monad_Syntax"
    "HOL-Library.Code_Target_Nat" "HOL-Library.Signed_Division" "HOL-Library.Product_Lexorder"
begin

text \<open>
  What every component of the Xenium model shares: Go's integer types as 64-bit words, Go errors as
  values, Go maps as finite maps with the lookups and \<open>range\<close> loops the source writes over them, and
  Go's counting loops.

  \<^item> An \<open>int\<close> and an \<open>uint64\<close> are both a \<open>64 word\<close> (\<open>i64\<close>, \<open>u64\<close>): the arithmetic is the same
    wrap-around arithmetic, signed comparison is \<open><s\<close> and \<open>\<le>s\<close>, unsigned comparison is \<open><\<close> and \<open>\<le>\<close>.
  \<^item> An \<open>error\<close> result is \<open>failure\<close> (\<open>None\<close> is \<open>nil\<close>), a \<open>(T, error)\<close> pair is \<open>'a result\<close>.
  \<^item> A computation whose loop may not end is an \<open>option\<close>: \<open>None\<close> means that it does not return.
\<close>

section \<open>Integers, errors, results\<close>

type_synonym u64 = "64 word"
type_synonym i64 = "64 word"
type_synonym byte = "8 word"
type_synonym bytes = "byte list"

datatype error =
    ErrNew string
  | ErrHexLength
  | ErrHexByte char
  | ErrEquivocation
  | ErrEntropy
  | ErrIO string
  | ErrPanic string

type_synonym 'a result = "error + 'a"
type_synonym failure = "error option"

named_theorems go_simps "unfolding rules of the small Go-level helpers"
named_theorems frame_simps "what an operation leaves unchanged"

definition byte_of :: "char \<Rightarrow> byte" where
  "byte_of c = word_of_nat (of_char c)"

definition str_bytes :: "string \<Rightarrow> bytes" where
  \<comment> \<open>Go's conversion \<open>[]byte(s)\<close>\<close>
  "str_bytes s = map byte_of s"

lemma unat_byte_of: "unat (byte_of c) = of_char c"
  using nat_of_char_less_256 [of c] by (simp add: byte_of_def unat_of_nat)

lemma byte_of_inject [simp]: "byte_of c = byte_of d \<longleftrightarrow> c = d"
  by (metis unat_byte_of of_char_eq_iff)

lemma str_bytes_append [simp]: "str_bytes (s @ t) = str_bytes s @ str_bytes t"
  by (simp add: str_bytes_def)

lemma str_bytes_inject [simp]: "str_bytes s = str_bytes t \<longleftrightarrow> s = t"
  by (auto simp: str_bytes_def inj_map_eq_map inj_def)

text \<open>
  Signed arithmetic: \<open>go_div\<close> is Go's truncated division of \<open>int\<close>s; sums and products that stay in
  range are the sums and products of the integers.
\<close>

definition go_div :: "i64 \<Rightarrow> i64 \<Rightarrow> i64" where
  "go_div a b = word_of_int (sint a sdiv sint b)"

definition in_range :: "int \<Rightarrow> bool" where
  "in_range i \<longleftrightarrow> - (2 ^ 63) \<le> i \<and> i < 2 ^ 63"

lemma in_range_sint [simp]: "in_range (sint (a::i64))"
  using sint_ge [of a] sint_lt [of a] by (simp add: in_range_def)

lemma sint_word_of_int: "in_range i \<Longrightarrow> sint (word_of_int i :: i64) = i"
  by (simp add: in_range_def int_word_sint)

lemma sint_add64: "in_range (sint a + sint b) \<Longrightarrow> sint ((a::i64) + b) = sint a + sint b"
  using sint_word_of_int [of "sint a + sint b"] by simp

lemma sint_sub64: "in_range (sint a - sint b) \<Longrightarrow> sint ((a::i64) - b) = sint a - sint b"
  using sint_word_of_int [of "sint a - sint b"] by simp

lemma sint_mult64: "in_range (sint a * sint b) \<Longrightarrow> sint ((a::i64) * b) = sint a * sint b"
  using sint_word_of_int [of "sint a * sint b"] by simp

lemma sint_unat: "0 \<le> sint (a::i64) \<Longrightarrow> int (unat a) = sint a"
  using sint_lt [of a] by (simp add: uint_sint take_bit_int_eq_self flip: uint_nat)

lemma sdiv_nonneg: "0 \<le> (a::int) \<Longrightarrow> 0 \<le> b \<Longrightarrow> a sdiv b = a div b"
  by (simp add: signed_divide_int_def sgn_if)

section \<open>Go maps\<close>

text \<open>
  A Go map is an \<open>fmap\<close>. Reading a missing key gives the zero value (\<open>get_or\<close>). A \<open>range\<close> loop
  visits the keys in an unspecified order; \<open>range_loop\<close> visits them in increasing order, and
  \<open>range_loop_any_order\<close> shows that for the loops of this program every other order gives the same
  result.
\<close>

definition get_or :: "'v \<Rightarrow> ('k, 'v) fmap \<Rightarrow> 'k \<Rightarrow> 'v" where
  "get_or d m k = (case fmlookup m k of None \<Rightarrow> d | Some v \<Rightarrow> v)"

definition keys_of :: "('k::linorder, 'v) fmap \<Rightarrow> 'k list" where
  "keys_of m = sorted_list_of_fset (fmdom m)"

definition range_loop :: "('k::linorder \<Rightarrow> 'v \<Rightarrow> 's \<Rightarrow> 's) \<Rightarrow> ('k, 'v) fmap \<Rightarrow> 's \<Rightarrow> 's" where
  "range_loop f m s = fold (\<lambda>k. f k (the (fmlookup m k))) (keys_of m) s"

lemma get_or_upd [simp]: "get_or d (fmupd k v m) k' = (if k = k' then v else get_or d m k')"
  by (simp add: get_or_def)

lemma get_or_empty [simp]: "get_or d fmempty k = d"
  by (simp add: get_or_def)

lemma set_keys_of [simp]: "set (keys_of m) = fset (fmdom m)"
  by (simp add: keys_of_def)

lemma distinct_keys_of [simp]: "distinct (keys_of m)"
  by (simp add: keys_of_def sorted_list_of_fset.rep_eq)

lemma sorted_keys_of [simp]: "sorted (keys_of m)"
  by (simp add: keys_of_def sorted_list_of_fset.rep_eq)

lemma keys_of_empty [simp]: "keys_of fmempty = []"
  by (simp add: keys_of_def sorted_list_of_fset.rep_eq)

lemma keys_of_upd [simp]: "keys_of (fmupd k v m) =
    (if k \<in> fset (fmdom m) then keys_of m else insort k (keys_of m))"
  by (cases "k \<in> fset (fmdom m)")
    (simp_all add: keys_of_def sorted_list_of_fset.rep_eq insert_absorb)

lemma keys_of_unique:
  "distinct ks \<Longrightarrow> set ks = fset (fmdom m) \<Longrightarrow> sorted ks \<Longrightarrow> ks = keys_of m"
  by (rule sorted_distinct_set_unique) auto

lemma mset_keys_of:
  assumes "distinct ks" "set ks = fset (fmdom m)"
  shows "mset ks = mset (keys_of m)"
  using assms by (intro set_eq_iff_mset_eq_distinct [THEN iffD1]) simp_all

lemma fold_mset_eq:
  assumes "\<And>x y. x \<in> set xs \<Longrightarrow> y \<in> set xs \<Longrightarrow> f x \<circ> f y = f y \<circ> f x" "mset xs = mset ys"
  shows "fold f xs = fold f ys"
  by (rule fold_multiset_equiv) (use assms in auto)

lemma range_loop_any_order:
  assumes "distinct ks" "set ks = fset (fmdom m)"
    and "\<And>x y. x \<in> set ks \<Longrightarrow> y \<in> set ks \<Longrightarrow>
      f x (the (fmlookup m x)) \<circ> f y (the (fmlookup m y)) =
      f y (the (fmlookup m y)) \<circ> f x (the (fmlookup m x))"
  shows "fold (\<lambda>k. f k (the (fmlookup m k))) ks s = range_loop f m s"
  unfolding range_loop_def
  by (subst fold_mset_eq [of ks _ "keys_of m"]) (use assms mset_keys_of in auto)

text \<open>The sum of a number attached to every entry.\<close>

definition map_total :: "('v \<Rightarrow> 'a::ab_group_add) \<Rightarrow> ('k, 'v) fmap \<Rightarrow> 'a" where
  "map_total f m = (\<Sum>k\<in>fset (fmdom m). f (the (fmlookup m k)))"

lemma map_total_empty [simp]: "map_total f fmempty = 0"
  by (simp add: map_total_def)

lemma map_total_upd:
  "map_total f (fmupd k v m) =
    map_total f m - (case fmlookup m k of None \<Rightarrow> 0 | Some w \<Rightarrow> f w) + f v"
proof -
  let ?D = "fset (fmdom m) - {k}"
  have fin: "finite ?D" by simp
  have rest: "(\<Sum>x\<in>?D. f (the (fmlookup (fmupd k v m) x))) = (\<Sum>x\<in>?D. f (the (fmlookup m x)))"
    by (rule sum.cong) auto
  have new: "map_total f (fmupd k v m) = f v + (\<Sum>x\<in>?D. f (the (fmlookup m x)))"
    using sum.insert_remove [of "fset (fmdom m)" "\<lambda>x. f (the (fmlookup (fmupd k v m) x))" k] rest
    by (simp add: map_total_def)
  show ?thesis
  proof (cases "fmlookup m k")
    case None
    then have "?D = fset (fmdom m)"
      by (metis Diff_empty Diff_insert0 fmdom_notI)
    with new None show ?thesis by (simp add: map_total_def)
  next
    case (Some w)
    then have "map_total f m = f w + (\<Sum>x\<in>?D. f (the (fmlookup m x)))"
      using sum.remove [of "fset (fmdom m)" k "\<lambda>x. f (the (fmlookup m x))"] fmdomI [OF Some]
      by (simp add: map_total_def)
    with new Some show ?thesis by simp
  qed
qed

lemma map_total_keys: "map_total f m = sum_list (map (\<lambda>k. f (the (fmlookup m k))) (keys_of m))"
  by (simp add: map_total_def sum.distinct_set_conv_list flip: set_keys_of)

lemma fold_plus_sum_list:
  fixes f :: "'a \<Rightarrow> 'b::comm_monoid_add"
  shows "fold (\<lambda>k t. t + f k) ks s = s + sum_list (map f ks)"
  by (induction ks arbitrary: s) (simp_all add: ac_simps)

lemma range_loop_plus: "range_loop (\<lambda>k v t. t + f v) m 0 = map_total f m"
  by (simp add: range_loop_def fold_plus_sum_list map_total_keys)

lemma map_total_any_order:
  assumes "distinct ks" "set ks = fset (fmdom m)"
  shows "fold (\<lambda>k t. t + f (the (fmlookup m k))) ks 0 = map_total f m"
  using assms by (simp add: fold_plus_sum_list map_total_def sum.distinct_set_conv_list
      flip: assms(2))

section \<open>Orders\<close>

text \<open>
  The program's two comparison functions (of transactions, of fork scores) compare a key
  lexicographically.  Such a comparison is a strict weak order, what \<open>sort.Slice\<close> asks for.
\<close>

definition weak_order :: "('a \<Rightarrow> 'a \<Rightarrow> bool) \<Rightarrow> bool" where
  "weak_order lt \<longleftrightarrow> (\<forall>x. \<not> lt x x) \<and> (\<forall>x y z. lt x y \<longrightarrow> lt y z \<longrightarrow> lt x z) \<and>
     (\<forall>x y z. \<not> lt x y \<longrightarrow> \<not> lt y z \<longrightarrow> \<not> lt x z)"

locale keyed_order =
  fixes before :: "'a \<Rightarrow> 'a \<Rightarrow> bool" and key :: "'a \<Rightarrow> 'k::linorder"
  assumes before_key: "before x y \<longleftrightarrow> key x < key y"
begin

lemma weak: "weak_order before"
  by (auto simp: weak_order_def before_key)

lemma irrefl: "\<not> before x x"
  by (simp add: before_key)

lemma trans: "before x y \<Longrightarrow> before y z \<Longrightarrow> before x z"
  by (simp add: before_key)

lemma asym: "before x y \<Longrightarrow> \<not> before y x"
  by (simp add: before_key)

lemma trichotomy: "before x y \<or> before y x \<or> key x = key y"
  by (auto simp: before_key)

lemma not_before_trans: "\<not> before y x \<Longrightarrow> \<not> before z y \<Longrightarrow> \<not> before z x"
  by (simp add: before_key)

lemma sorted_key: "sorted_wrt (\<lambda>x y. \<not> before y x) xs \<longleftrightarrow> sorted (map key xs)"
  by (simp add: sorted_wrt_map before_key not_less)

lemma sorted_unique:
  assumes "sorted_wrt (\<lambda>x y. \<not> before y x) xs" "sorted_wrt (\<lambda>x y. \<not> before y x) ys"
    and "mset xs = mset ys" "inj_on key (set xs)"
  shows "xs = ys"
proof -
  from assms(3) have set_eq: "set xs = set ys" by (rule mset_eq_setD)
  from assms(3) have "mset (map key xs) = mset (map key ys)" by simp
  with assms(1,2) have "map key xs = map key ys"
    unfolding sorted_key by (metis properties_for_sort)
  then show ?thesis
    by (rule map_inj_on) (use assms(4) set_eq in simp)
qed

lemma head_best: "sorted_wrt (\<lambda>x y. \<not> before y x) (x # xs) \<Longrightarrow> y \<in> set xs \<Longrightarrow> \<not> before y x"
  by simp

end

section \<open>Counting loops\<close>

text \<open>
  \<open>for i := lo; i <= hi; i++ { s = f i s }\<close> over \<open>uint64\<close>. When \<open>hi\<close> is the largest \<open>uint64\<close> the
  condition never fails, and the loop does not end.
\<close>

partial_function (option) for_incl :: "u64 \<Rightarrow> u64 \<Rightarrow> (u64 \<Rightarrow> 's \<Rightarrow> 's) \<Rightarrow> 's \<Rightarrow> 's option" where
  "for_incl i hi f s = (if i \<le> hi then for_incl (i + 1) hi f (f i s) else Some s)"

definition slots_between :: "u64 \<Rightarrow> u64 \<Rightarrow> u64 list" where
  "slots_between lo hi = map word_of_nat [unat lo ..< Suc (unat hi)]"

lemma unat_bound64: "unat (w::u64) < 2 ^ 64"
  using unsigned_less [of w] by simp

lemma word_of_unat: "word_of_nat (unat (w::u64)) = w"
  by (simp add: ucast_id)

lemma slots_between_empty [simp]: "hi < lo \<Longrightarrow> slots_between lo hi = []"
  by (simp add: slots_between_def word_less_nat_alt)

lemma unat_Suc_64: "(i::u64) < hi \<Longrightarrow> unat (i + 1) = Suc (unat i)"
  using unat_bound64 [of hi] by (simp add: unat_word_ariths word_less_nat_alt)

lemma slots_between_Cons: "lo \<le> hi \<Longrightarrow> slots_between lo hi =
    lo # (if lo = hi then [] else slots_between (lo + 1) hi)"
  using unat_Suc_64 [of lo hi]
  by (auto simp: slots_between_def upt_conv_Cons word_le_nat_alt word_less_nat_alt
      order_less_le word_unat_eq_iff simp del: upt_Suc)

lemma set_slots_between [simp]: "set (slots_between lo hi) = {lo .. hi}"
proof (intro set_eqI iffI)
  fix x assume "x \<in> {lo .. hi}"
  then have "unat x \<in> {unat lo ..< Suc (unat hi)}" by (simp add: word_le_nat_alt)
  then have "(word_of_nat (unat x) :: u64) \<in> word_of_nat ` {unat lo ..< Suc (unat hi)}" by (rule imageI)
  then show "x \<in> set (slots_between lo hi)"
    unfolding slots_between_def set_map set_upt word_of_unat .
next
  fix x assume "x \<in> set (slots_between lo hi)"
  then obtain n where "x = word_of_nat n" "unat lo \<le> n" "n \<le> unat hi"
    by (auto simp: slots_between_def simp del: upt_Suc)
  then show "x \<in> {lo .. hi}"
    using unat_bound64 [of hi] by (simp add: word_le_nat_alt unat_of_nat)
qed

lemma less_plus_one_64: "(i::u64) \<noteq> - 1 \<Longrightarrow> i < i + 1"
  by (metis inc_less_eq_triv_imp linorder_less_linear word_le_less_eq)

lemma for_incl_done: "hi < i \<Longrightarrow> for_incl i hi f s = Some s"
  by (subst for_incl.simps) auto

lemma for_incl_fold:
  assumes "hi \<noteq> - 1"
  shows "for_incl lo hi f s = Some (fold f (slots_between lo hi) s)"
proof (induction "unat hi - unat lo" arbitrary: lo s)
  case 0
  show ?case
  proof (cases "lo \<le> hi")
    case True
    with 0 have "lo = hi" by (simp add: word_le_nat_alt word_unat_eq_iff)
    moreover from assms have "hi < hi + 1" by (rule less_plus_one_64)
    ultimately show ?thesis
      by (subst for_incl.simps) (simp add: slots_between_Cons for_incl_done)
  next
    case False
    then show ?thesis by (simp add: for_incl_done)
  qed
next
  case (Suc n)
  then have "lo < hi" by (simp add: word_less_nat_alt)
  moreover from this Suc.hyps(2) have "n = unat hi - unat (lo + 1)" by (simp add: unat_Suc_64)
  ultimately show ?case
    using Suc.hyps(1) by (subst for_incl.simps) (auto simp: slots_between_Cons)
qed

lemma for_incl_returns: "for_incl lo hi f s = Some r \<Longrightarrow> hi \<noteq> - 1"
proof (rule for_incl.raw_induct [where P = "\<lambda>lo hi f s r. hi \<noteq> - 1"])
  fix g :: "u64 \<Rightarrow> u64 \<Rightarrow> (u64 \<Rightarrow> 'b \<Rightarrow> 'b) \<Rightarrow> 'b \<Rightarrow> 'b option"
    and lo hi :: u64 and f :: "u64 \<Rightarrow> 'b \<Rightarrow> 'b" and s r
  assume IH: "\<And>lo hi f s r. g lo hi f s = Some r \<Longrightarrow> hi \<noteq> - 1"
    and ret: "(if lo \<le> hi then g (lo + 1) hi f (f lo s) else Some s) = Some r"
  show "hi \<noteq> - 1"
  proof (cases "lo \<le> hi")
    case True
    with ret IH show ?thesis by simp
  next
    case False
    then show ?thesis by (auto simp: not_le)
  qed
qed

lemma for_incl_diverges: "for_incl lo (- 1) f s = None"
  using for_incl_returns [of lo "- 1" f s] by (cases "for_incl lo (- 1) f s") auto

text \<open>
  \<open>for i := lo; i < hi; i++ { s = f i s }\<close> over \<open>uint64\<close>.  Here \<open>i\<close> cannot overflow, and the loop ends.
\<close>

function for_less :: "u64 \<Rightarrow> u64 \<Rightarrow> (u64 \<Rightarrow> 's \<Rightarrow> 's) \<Rightarrow> 's \<Rightarrow> 's" where
  "for_less i hi f s = (if i < hi then for_less (i + 1) hi f (f i s) else s)"
  by pat_completeness auto
termination
  by (relation "measure (\<lambda>(i, hi, f, s). unat hi - unat i)") (auto simp: unat_Suc_64 word_less_nat_alt)

declare for_less.simps [simp del]

lemma for_less_fold: "for_less lo hi f s = fold (\<lambda>n. f (word_of_nat n)) [unat lo ..< unat hi] s"
proof (induction lo hi f s rule: for_less.induct)
  case (1 i hi f s)
  show ?case
  proof (cases "i < hi")
    case True
    with 1 show ?thesis
      by (subst for_less.simps)
        (simp add: unat_Suc_64 upt_conv_Cons [of "unat i"] word_less_nat_alt [THEN iffD1] word_of_unat)
  next
    case False
    then show ?thesis by (subst for_less.simps) (simp add: word_less_nat_alt)
  qed
qed

end
