(* ===== verification/GoLib.thy ===== *)
theory GoLib
  imports Prelude
begin

text \<open>
  What the program uses of Go's standard library, by the library's documented behaviour:
  \<open>encoding/hex\<close>, \<open>strconv\<close>, \<open>encoding/binary\<close> (little endian), \<open>crypto/elliptic\<close> on P-256, and the
  32-byte arrays that \<open>crypto/sha256\<close> returns.  At the end stands the program's own integer printer
  \<open>itoa\<close> (\<open>consensus/pov.go\<close>, and the same text again in \<open>core/blockchain.go\<close>), with its 20-byte
  buffer written out.
\<close>

section \<open>encoding/hex\<close>

definition hex_digits :: string where
  "hex_digits = ''0123456789abcdef''"

definition hex_byte :: "byte \<Rightarrow> string" where
  "hex_byte b = [hex_digits ! (unat b div 16), hex_digits ! (unat b mod 16)]"

definition hexEncode :: "bytes \<Rightarrow> string" where
  "hexEncode bs = concat (map hex_byte bs)"

definition hex_val :: "char \<Rightarrow> nat option" where
  "hex_val c = (let n = of_char c :: nat in
     if 48 \<le> n \<and> n \<le> 57 then Some (n - 48)
     else if 97 \<le> n \<and> n \<le> 102 then Some (n - 87)
     else if 65 \<le> n \<and> n \<le> 70 then Some (n - 55)
     else None)"

fun hexDecode :: "string \<Rightarrow> bytes result" where
  "hexDecode [] = Inr []"
| "hexDecode [p] = Inl (case hex_val p of None \<Rightarrow> ErrHexByte p | Some _ \<Rightarrow> ErrHexLength)"
| "hexDecode (p # q # r) =
    (case hex_val p of
      None \<Rightarrow> Inl (ErrHexByte p)
    | Some a \<Rightarrow>
      (case hex_val q of
        None \<Rightarrow> Inl (ErrHexByte q)
      | Some b \<Rightarrow>
        (case hexDecode r of
          Inl e \<Rightarrow> Inl e
        | Inr bs \<Rightarrow> Inr (word_of_nat (16 * a + b) # bs))))"

lemma less_16_cases: "(n::nat) < 16 \<Longrightarrow> n \<in> {0, 1, 2, 3, 4, 5, 6, 7, 8, 9, 10, 11, 12, 13, 14, 15}"
  by (simp add: numeral_eq_Suc less_Suc_eq)

lemma hex_val_digit: "n < 16 \<Longrightarrow> hex_val (hex_digits ! n) = Some n"
  by (drule less_16_cases) (auto simp: hex_val_def hex_digits_def)

lemma hex_digit_no_bar: "n < 16 \<Longrightarrow> hex_digits ! n \<noteq> CHR ''|''"
  by (drule less_16_cases) (auto simp: hex_digits_def)

lemma unat_byte_less: "unat (b::byte) < 256"
  using unsigned_less [of b] by simp

lemma hexEncode_Nil [simp]: "hexEncode [] = []"
  by (simp add: hexEncode_def)

lemma hexEncode_Cons: "hexEncode (b # bs) = hex_byte b @ hexEncode bs"
  by (simp add: hexEncode_def)

lemma hexEncode_append [simp]: "hexEncode (as @ bs) = hexEncode as @ hexEncode bs"
  by (simp add: hexEncode_def)

lemma length_hexEncode [simp]: "length (hexEncode bs) = 2 * length bs"
  by (induction bs) (simp_all add: hexEncode_Cons hex_byte_def)

lemma word_of_unat_byte: "word_of_nat (unat (b::byte)) = b"
  by (simp add: ucast_id)

lemma hexDecode_hexEncode [simp]: "hexDecode (hexEncode bs) = Inr bs"
proof (induction bs)
  case Nil
  show ?case by simp
next
  case (Cons b bs)
  have "unat b div 16 < 16" using unat_byte_less [of b] by simp
  moreover have "(word_of_nat (16 * (unat b div 16) + unat b mod 16) :: byte) = b"
    by (simp only: mult_div_mod_eq word_of_unat_byte)
  ultimately show ?case
    using Cons.IH by (simp add: hexEncode_Cons hex_byte_def hex_val_digit)
qed

lemma hexEncode_inject [simp]: "hexEncode as = hexEncode bs \<longleftrightarrow> as = bs"
  by (metis hexDecode_hexEncode sum.inject(2))

lemma hexEncode_no_bar: "CHR ''|'' \<notin> set (hexEncode bs)"
proof (induction bs)
  case Nil
  show ?case by simp
next
  case (Cons b bs)
  have "unat b div 16 < 16" using unat_byte_less [of b] by simp
  with Cons show ?case
    using hex_digit_no_bar [of "unat b div 16"] hex_digit_no_bar [of "unat b mod 16"]
    by (simp add: hexEncode_Cons hex_byte_def)
qed

lemma hexDecode_chars: "hexDecode s = Inr bs \<Longrightarrow> c \<in> set s \<Longrightarrow> hex_val c \<noteq> None"
  by (induction s arbitrary: bs rule: hexDecode.induct) (auto split: option.splits sum.splits)

lemma hexDecode_no_bar: "hexDecode s = Inr bs \<Longrightarrow> CHR ''|'' \<notin> set s"
  using hexDecode_chars [of s bs "CHR ''|''"] by (auto simp: hex_val_def)

lemma hexDecode_length: "hexDecode s = Inr bs \<Longrightarrow> length s = 2 * length bs"
  by (induction s arbitrary: bs rule: hexDecode.induct) (auto split: option.splits sum.splits)

section \<open>strconv\<close>

fun dec :: "nat \<Rightarrow> string" where
  "dec n = (if n < 10 then [char_of (48 + n)] else dec (n div 10) @ [char_of (48 + n mod 10)])"

declare dec.simps [simp del]

definition FormatUint :: "u64 \<Rightarrow> string" where
  "FormatUint w = dec (unat w)"

definition Itoa :: "i64 \<Rightarrow> string" where
  \<comment> \<open>also \<open>FormatInt(n, 10)\<close>\<close>
  "Itoa w = (if w <s 0 then ''-'' @ dec (nat (- sint w)) else dec (nat (sint w)))"

definition digit_val :: "char \<Rightarrow> nat" where
  "digit_val c = of_char c - 48"

definition undec :: "string \<Rightarrow> nat" where
  "undec s = foldl (\<lambda>n c. 10 * n + digit_val c) 0 s"

lemma digit_val_char: "n < 10 \<Longrightarrow> digit_val (char_of (48 + n)) = n"
  by (simp add: digit_val_def)

lemma undec_dec [simp]: "undec (dec n) = n"
proof (induction n rule: dec.induct)
  case (1 n)
  then show ?case
    by (cases "n < 10") (simp_all add: dec.simps [of n] undec_def digit_val_char)
qed

lemma dec_inject [simp]: "dec m = dec n \<longleftrightarrow> m = n"
  by (metis undec_dec)

lemma dec_nonempty [simp]: "dec n \<noteq> []"
  by (subst dec.simps) simp

lemma dec_digits: "c \<in> set (dec n) \<Longrightarrow> 48 \<le> (of_char c :: nat) \<and> of_char c \<le> (57 :: nat)"
proof (induction n arbitrary: c rule: dec.induct)
  case (1 n)
  then show ?case
    by (cases "n < 10") (auto simp: dec.simps [of n])
qed

lemma dec_no_sep: "of_char c < (48 :: nat) \<or> (57 :: nat) < of_char c \<Longrightarrow> c \<notin> set (dec n)"
  using dec_digits [of c n] by auto

lemma FormatUint_inject [simp]: "FormatUint v = FormatUint w \<longleftrightarrow> v = w"
  by (simp add: FormatUint_def word_unat_eq_iff)

lemma FormatUint_no_bar [simp]: "CHR ''|'' \<notin> set (FormatUint w)"
  by (simp add: FormatUint_def dec_no_sep)

lemma hd_dec_digit: "hd (dec n) \<noteq> CHR ''-''"
  using dec_digits [of "hd (dec n)" n] by auto

lemma Itoa_inject [simp]: "Itoa v = Itoa w \<longleftrightarrow> v = w"
proof
  assume eq: "Itoa v = Itoa w"
  have "sint v = sint w"
    using eq hd_dec_digit [of "nat (sint v)"] hd_dec_digit [of "nat (sint w)"]
    by (auto simp: Itoa_def word_sless_alt split: if_splits
        dest: arg_cong [where f = hd])
  then show "v = w" by (rule signed_word_eqI)
qed simp

lemma Itoa_no_bar [simp]: "CHR ''|'' \<notin> set (Itoa w)"
  by (auto simp: Itoa_def dec_no_sep)

section \<open>encoding/binary, little endian\<close>

definition putUint64LE :: "u64 \<Rightarrow> bytes" where
  "putUint64LE w = map (\<lambda>i. word_of_nat (unat w div 256 ^ i mod 256)) [0..<8]"

fun le_nat :: "bytes \<Rightarrow> nat" where
  "le_nat [] = 0"
| "le_nat (b # bs) = unat b + 256 * le_nat bs"

definition uint64LE :: "bytes \<Rightarrow> u64" where
  "uint64LE bs = word_of_nat (le_nat (take 8 bs))"

lemma length_putUint64LE [simp]: "length (putUint64LE w) = 8"
  by (simp add: putUint64LE_def)

lemma le_nat_digits:
  "le_nat (map (\<lambda>i. word_of_nat (n div 256 ^ i mod 256)) [0..<k]) = n mod 256 ^ k"
proof (induction k arbitrary: n)
  case 0
  show ?case by simp
next
  case (Suc k)
  have shift: "map (\<lambda>i. word_of_nat (n div 256 ^ i mod 256)) [0..<Suc k] =
      word_of_nat (n mod 256) #
      map (\<lambda>i. word_of_nat ((n div 256) div 256 ^ i mod 256) :: byte) [0..<k]"
    by (simp add: map_upt_Suc div_mult2_eq del: upt_Suc)
  show ?case
    unfolding shift le_nat.simps Suc.IH
    by (simp add: unat_of_nat mod_mult2_eq)
qed

lemma uint64LE_putUint64LE [simp]: "uint64LE (putUint64LE w) = w"
proof -
  have "take 8 (putUint64LE w) = putUint64LE w" by simp
  then have "uint64LE (putUint64LE w) = word_of_nat (unat w mod 256 ^ 8)"
    unfolding uint64LE_def putUint64LE_def by (simp only: le_nat_digits)
  moreover have "unat w mod 256 ^ 8 = unat w"
    using unat_bound64 [of w] by simp
  ultimately show ?thesis by (simp only: word_of_unat)
qed

section \<open>Digests: Go's [32]byte\<close>

typedef digest = "{bs :: bytes. length bs = 32}" morphisms digest_bytes Digest
  by (rule exI [of _ "replicate 32 0"]) simp

setup_lifting type_definition_digest

instantiation digest :: equal
begin

lift_definition equal_digest :: "digest \<Rightarrow> digest \<Rightarrow> bool" is "(=)" .

instance
  by standard (transfer, simp)

end

lemma length_digest_bytes [simp]: "length (digest_bytes d) = 32"
  using digest_bytes [of d] by simp

lemma digest_bytes_Digest [simp]: "length bs = 32 \<Longrightarrow> digest_bytes (Digest bs) = bs"
  by (simp add: Digest_inverse)

lemma Digest_digest_bytes [simp]: "Digest (digest_bytes d) = d"
  by (rule digest_bytes_inverse)

lemma digest_bytes_eq_iff [simp]: "digest_bytes d = digest_bytes e \<longleftrightarrow> d = e"
  by (rule digest_bytes_inject)

section \<open>crypto/elliptic: uncompressed points of P-256\<close>

type_synonym point = "nat \<times> nat"

definition p256_p :: nat where
  "p256_p = 0xffffffff00000001000000000000000000000000ffffffffffffffffffffffff"

definition p256_b :: nat where
  "p256_b = 0x5ac635d8aa3a93e7b3ebbd55769886bc651d06b0cc53b0f63bce3c3e27d2604b"

definition p256_G :: point where
  "p256_G = (0x6b17d1f2e12c4247f8bce6e563a440f277037d812deb33a0f4a13945d898c296,
             0x4fe342e2fe1a7f9b8ee7eb4a7c0f9e162bce33576b315ececbb6406837bf51f5)"

definition on_curve :: "point \<Rightarrow> bool" where
  "on_curve P = (case P of (x, y) \<Rightarrow> x < p256_p \<and> y < p256_p \<and>
     (y * y) mod p256_p = (x * x * x + (p256_p - 3) * x + p256_b) mod p256_p)"

fun be_bytes :: "nat \<Rightarrow> nat \<Rightarrow> bytes" where
  "be_bytes 0 n = []"
| "be_bytes (Suc k) n = be_bytes k (n div 256) @ [word_of_nat (n mod 256)]"

definition be_nat :: "bytes \<Rightarrow> nat" where
  "be_nat bs = foldl (\<lambda>n b. 256 * n + unat b) 0 bs"

definition ecMarshal :: "point \<Rightarrow> bytes result" where
  \<comment> \<open>\<open>elliptic.Marshal\<close> panics on a point that is not on the curve\<close>
  "ecMarshal P = (if on_curve P then Inr (4 # be_bytes 32 (fst P) @ be_bytes 32 (snd P))
     else Inl (ErrPanic ''crypto/elliptic: attempted operation on invalid point''))"

definition ecUnmarshal :: "bytes \<Rightarrow> point option" where
  "ecUnmarshal bs =
    (if length bs \<noteq> 65 \<or> hd bs \<noteq> 4 then None
     else (let P = (be_nat (take 32 (tl bs)), be_nat (drop 32 (tl bs)))
           in if on_curve P then Some P else None))"

lemma length_be_bytes [simp]: "length (be_bytes k n) = k"
  by (induction k arbitrary: n) simp_all

lemma be_nat_be_bytes: "n < 256 ^ k \<Longrightarrow> be_nat (be_bytes k n) = n"
proof (induction k arbitrary: n)
  case 0
  then show ?case by (simp add: be_nat_def)
next
  case (Suc k)
  then have "n div 256 < 256 ^ k" by (simp add: less_mult_imp_div_less mult.commute)
  with Suc.IH have "be_nat (be_bytes k (n div 256)) = n div 256" by blast
  then show ?case by (simp add: be_nat_def unat_of_nat)
qed

lemma ecUnmarshal_ecMarshal:
  assumes "ecMarshal P = Inr bs"
  shows "ecUnmarshal bs = Some P"
proof -
  from assms have on: "on_curve P" and bs: "bs = 4 # be_bytes 32 (fst P) @ be_bytes 32 (snd P)"
    by (auto simp: ecMarshal_def split: if_splits)
  have "p256_p < 256 ^ 32" by (simp add: p256_p_def)
  with on have "fst P < 256 ^ 32" "snd P < 256 ^ 32"
    by (auto simp: on_curve_def split: prod.splits)
  then show ?thesis
    using on by (simp add: bs ecUnmarshal_def be_nat_be_bytes Let_def)
qed

lemma on_curve_quotient:
  "\<lbrakk>x < p256_p; y < p256_p; x * x * x + (p256_p - 3) * x + p256_b = y * y + k * p256_p\<rbrakk> \<Longrightarrow> on_curve (x, y)"
  by (simp add: on_curve_def)

lemma on_curve_G: "on_curve p256_G"
  unfolding p256_G_def
  by (rule on_curve_quotient [where k = "0x12bdd1ad23dfc833dccf5f6141d6bb4a1f365dc1430b0e600b52dd851938d2d6fe48d89a1028327df66c2a7b9edc3e46cdec89e6af942f1b022b7fe93b37c6ee"])
    (simp_all add: p256_p_def p256_b_def)

section \<open>The program's integer printer\<close>

text \<open>
  \<open>itoa\<close> fills a 20-byte buffer from the right.  \<open>itoa_loop v i buf\<close> is the loop from the state where
  \<open>v\<close> is left to print and \<open>buf[i:]\<close> is filled; \<open>None\<close> is the index-out-of-range panic of
  \<open>buf[i]\<close> with a negative \<open>i\<close>.  \<open>itoa_returns\<close> shows that it cannot happen, and that a negative
  number is printed as the empty string.
\<close>

function itoa_loop :: "int \<Rightarrow> nat \<Rightarrow> string \<Rightarrow> string option" where
  "itoa_loop v i buf =
    (if v > 0 then
       (if i = 0 then None
        else itoa_loop (v div 10) (i - 1) (buf[i - 1 := ''0123456789'' ! nat (v mod 10)]))
     else Some (drop i buf))"
  by pat_completeness auto
termination
  by (relation "measure (\<lambda>(v, i, buf). nat v)") auto

declare itoa_loop.simps [simp del]

definition itoa_run :: "i64 \<Rightarrow> string option" where
  "itoa_run v = (if v = 0 then Some ''0'' else itoa_loop (sint v) 20 (replicate 20 (CHR 0x00)))"

definition itoa :: "i64 \<Rightarrow> string" where
  "itoa v = (case itoa_run v of Some s \<Rightarrow> s | None \<Rightarrow> ''panic'')"

lemma decimal_char: "n < 10 \<Longrightarrow> ''0123456789'' ! n = char_of (48 + n)"
proof -
  assume "n < 10"
  then have "n \<in> {0, 1, 2, 3, 4, 5, 6, 7, 8, 9}"
    by (simp add: numeral_eq_Suc less_Suc_eq)
  then show ?thesis by (auto simp: char_of_def bit_iff_odd)
qed

lemma drop_update_last: "0 < i \<Longrightarrow> i \<le> length xs \<Longrightarrow> drop (i - 1) (xs[i - 1 := x]) = x # drop i xs"
  by (cases i) (simp_all add: Cons_nth_drop_Suc [symmetric] drop_update_cancel)

lemma itoa_loop_dec:
  "\<lbrakk>0 \<le> v; v < 10 ^ i; i \<le> length buf\<rbrakk> \<Longrightarrow>
    itoa_loop v i buf = Some ((if v = 0 then [] else dec (nat v)) @ drop i buf)"
proof (induction v i buf rule: itoa_loop.induct)
  case (1 v i buf)
  show ?case
  proof (cases "v = 0")
    case True
    then show ?thesis by (simp add: itoa_loop.simps)
  next
    case False
    with "1.prems" have v: "v > 0" and i: "i \<noteq> 0" by (cases i, auto)+
    then obtain j where j: "i = Suc j" by (cases i) auto
    let ?c = "''0123456789'' ! nat (v mod 10)"
    have small: "v div 10 < 10 ^ j" using "1.prems"(2) j by auto
    have IH: "itoa_loop (v div 10) j (buf[j := ?c]) =
        Some ((if v div 10 = 0 then [] else dec (nat (v div 10))) @ drop j (buf[j := ?c]))"
      using "1.IH" [OF v i] "1.prems" small v j by simp
    have digits: "dec (nat v) = (if v div 10 = 0 then [] else dec (nat (v div 10))) @ [?c]"
      using v dec.simps [of "nat v"] decimal_char [of "nat (v mod 10)"]
      by (auto simp: nat_div_distrib nat_mod_distrib nat_less_iff)
    have "drop j (buf[j := ?c]) = ?c # drop i buf"
      using drop_update_last [of i buf ?c] "1.prems"(3) j by simp
    moreover have "itoa_loop v i buf = itoa_loop (v div 10) j (buf[j := ?c])"
      using v i j by (subst itoa_loop.simps) simp
    ultimately show ?thesis using False by (simp only: IH digits if_False append_assoc append.simps)
  qed
qed

lemma itoa_returns: "itoa_run v = Some (if v <s 0 then [] else Itoa v)"
proof (cases "v <s 0")
  case True
  then have "sint v < 0" by (simp add: word_sless_alt)
  moreover from this have "v \<noteq> 0" by auto
  ultimately show ?thesis using True by (simp add: itoa_run_def itoa_loop.simps)
next
  case False
  then have nonneg: "0 \<le> sint v" by (simp add: word_sless_alt)
  have "sint v < 10 ^ 20" using sint_lt [of v] by simp
  with nonneg have "itoa_loop (sint v) 20 (replicate 20 (CHR 0x00)) =
      Some (if sint v = 0 then [] else dec (nat (sint v)))"
    by (subst itoa_loop_dec) auto
  moreover have "sint v = 0 \<longleftrightarrow> v = 0" by (metis signed_0 signed_word_eqI)
  moreover have "dec 0 = ''0''" by (simp add: dec.simps char_of_def bit_iff_odd)
  ultimately show ?thesis using False by (auto simp: itoa_run_def Itoa_def)
qed

lemma itoa_eq: "itoa v = (if v <s 0 then [] else Itoa v)"
  by (simp add: itoa_def itoa_returns)

text \<open>
  \<open>itoa\<close> never leaves its 20-byte buffer (the index stays in range for every \<open>int\<close>), prints a
  non-negative number as \<open>strconv.Itoa\<close> does, and prints every negative number as the empty string.
\<close>

theorem itoa_prints:
  "itoa_run v \<noteq> None \<and> itoa v = (if v <s 0 then [] else Itoa v)"
  by (simp add: itoa_returns itoa_eq)

end
