(* ===== verification/Domain.thy ===== *)
theory Domain
  imports GoLib
begin

text \<open>
  The data of package \<open>domain\<close> (accounts, transactions, blocks, validators and their statistics,
  wallets) as records with the code's fields in the code's order, and the two functions of that
  package.

  \<open>golib\<close> collects the parts of Go's standard library whose result no reader of this program can
  compute: SHA-256, ECDSA (which draws entropy), \<open>sort.Slice\<close> (which is not stable) and the first
  draw of \<open>math/rand\<close>.  Every definition that uses one of them takes a \<open>golib\<close> as its first
  argument, so each theorem holds for any library; where a theorem relies on the documented behaviour
  of one of them, the assumption is a named predicate at the end of this theory.
\<close>

record Account =
  ac_Balance :: i64
  ac_Nonce :: u64

record Transaction =
  tx_From :: string
  tx_To :: string
  tx_Amount :: i64
  tx_Fee :: i64
  tx_Nonce :: u64
  tx_PubKey :: string
  tx_Signature :: string
  tx_Hash :: string

record Block =
  b_Index :: u64
  b_PrevHash :: string
  b_Slot :: u64
  b_Tick :: u64
  b_Validator :: string
  b_TxRoot :: string
  b_StateRoot :: string
  b_PoHHash :: string
  b_Signature :: bytes
  b_Hash :: string
  b_Transactions :: "Transaction list"

record PrivateKey =
  pk_X :: nat
  pk_Y :: nat
  pk_D :: nat

record Validator =
  v_Name :: string
  v_Stake :: i64
  v_PubKey :: string
  v_PrivKey :: "PrivateKey option"
  v_LastSlot :: u64

record ValidatorStats =
  vs_MissedSlots :: u64
  vs_JailedUntilEpoch :: u64
  vs_Slashed :: bool

record Wallet =
  w_PrivateKey :: PrivateKey
  w_PublicKey :: string
  w_Address :: string

type_synonym accounts = "(string, Account) fmap"
type_synonym validators = "(string, Validator) fmap"
type_synonym stats_map = "(string, ValidatorStats) fmap"
type_synonym stakes = "(string, u64) fmap"

text \<open>Zero values, which Go gives for a missing map key.\<close>

definition zero_account :: Account where
  "zero_account = \<lparr>ac_Balance = 0, ac_Nonce = 0\<rparr>"

definition zero_stats :: ValidatorStats where
  "zero_stats = \<lparr>vs_MissedSlots = 0, vs_JailedUntilEpoch = 0, vs_Slashed = False\<rparr>"

definition zero_block :: Block where
  "zero_block = \<lparr>b_Index = 0, b_PrevHash = [], b_Slot = 0, b_Tick = 0, b_Validator = [],
     b_TxRoot = [], b_StateRoot = [], b_PoHHash = [], b_Signature = [], b_Hash = [],
     b_Transactions = []\<rparr>"

abbreviation account_at :: "accounts \<Rightarrow> string \<Rightarrow> Account" where
  "account_at s a \<equiv> get_or zero_account s a"

lemma zero_account_simps [simp]: "ac_Balance zero_account = 0" "ac_Nonce zero_account = 0"
  by (simp_all add: zero_account_def)

lemma zero_stats_simps [simp]:
  "vs_MissedSlots zero_stats = 0" "vs_JailedUntilEpoch zero_stats = 0" "\<not> vs_Slashed zero_stats"
  by (simp_all add: zero_stats_def)

section \<open>The library parameter\<close>

record golib =
  Sum256 :: "bytes \<Rightarrow> digest"
  GenerateKey :: "nat \<Rightarrow> PrivateKey result"
  SignASN1 :: "nat \<Rightarrow> PrivateKey \<Rightarrow> bytes \<Rightarrow> bytes result"
  VerifyASN1 :: "point \<Rightarrow> bytes \<Rightarrow> bytes \<Rightarrow> bool"
  SortTxs :: "(Transaction \<Rightarrow> Transaction \<Rightarrow> bool) \<Rightarrow> Transaction list \<Rightarrow> Transaction list"
  Int63 :: "i64 \<Rightarrow> i64"

text \<open>
  \<open>GenerateKey\<close> and \<open>SignASN1\<close> take the entropy they draw as a number.  \<open>SortTxs less xs\<close> is
  \<open>sort.Slice\<close>; \<open>Int63 seed\<close> is the first number of \<open>rand.New(rand.NewSource(seed))\<close>.
\<close>

definition sum_hex :: "golib \<Rightarrow> bytes \<Rightarrow> string" where
  "sum_hex G bs = hexEncode (digest_bytes (Sum256 G bs))"

definition pub_point :: "PrivateKey \<Rightarrow> point" where
  "pub_point k = (pk_X k, pk_Y k)"

definition AddressFromPubKey :: "golib \<Rightarrow> string \<Rightarrow> string result" where
  "AddressFromPubKey G pubKeyHex =
    (case hexDecode pubKeyHex of
      Inl e \<Rightarrow> Inl e
    | Inr raw \<Rightarrow> Inr (sum_hex G raw))"

definition NewWallet :: "golib \<Rightarrow> nat \<Rightarrow> Wallet result" where
  "NewWallet G rnd =
    (case GenerateKey G rnd of
      Inl e \<Rightarrow> Inl e
    | Inr priv \<Rightarrow>
      (case ecMarshal (pub_point priv) of
        Inl e \<Rightarrow> Inl e
      | Inr pubBytes \<Rightarrow>
        (let pubHex = hexEncode pubBytes in
         case AddressFromPubKey G pubHex of
           Inl e \<Rightarrow> Inl e
         | Inr addr \<Rightarrow>
             Inr \<lparr>w_PrivateKey = priv, w_PublicKey = pubHex, w_Address = addr\<rparr>)))"

lemma sum_hex_length [simp]: "length (sum_hex G bs) = 64"
  by (simp add: sum_hex_def)

lemma sum_hex_no_bar [simp]: "CHR ''|'' \<notin> set (sum_hex G bs)"
  by (simp add: sum_hex_def hexEncode_no_bar)

lemma sum_hex_nonempty [simp]: "sum_hex G bs \<noteq> []"
  by (metis length_0_conv sum_hex_length zero_neq_numeral)

lemma hexDecode_sum_hex [simp]: "hexDecode (sum_hex G bs) = Inr (digest_bytes (Sum256 G bs))"
  by (simp add: sum_hex_def)

section \<open>Documented behaviour of the library\<close>

definition generated_key :: "golib \<Rightarrow> PrivateKey \<Rightarrow> bool" where
  "generated_key G k \<longleftrightarrow> (\<exists>rnd. GenerateKey G rnd = Inr k)"

text \<open>A generated key lies on the curve, and what it signs verifies under its public half.\<close>

definition ecdsa_correct :: "golib \<Rightarrow> bool" where
  "ecdsa_correct G \<longleftrightarrow> (\<forall>k. generated_key G k \<longrightarrow> on_curve (pub_point k) \<and>
     (\<forall>rnd h sig. SignASN1 G rnd k h = Inr sig \<longrightarrow> sig \<noteq> [] \<and> VerifyASN1 G (pub_point k) h sig))"

text \<open>ECDSA over P-256 looks only at the leftmost 256 bits of the digest it is given.\<close>

definition ecdsa_truncates :: "golib \<Rightarrow> bool" where
  "ecdsa_truncates G \<longleftrightarrow> (\<forall>P h sig. VerifyASN1 G P h sig = VerifyASN1 G P (take 32 h) sig)"

text \<open>
  \<open>sort.Slice\<close> permutes the slice, and for a strict weak order no element of the result is less than
  an earlier one.
\<close>

definition sort_slice_correct :: "golib \<Rightarrow> bool" where
  "sort_slice_correct G \<longleftrightarrow> (\<forall>lt xs. mset (SortTxs G lt xs) = mset xs \<and>
     (weak_order lt \<longrightarrow> sorted_wrt (\<lambda>x y. \<not> lt y x) (SortTxs G lt xs)))"

lemma ecdsa_correctD:
  assumes "ecdsa_correct G" "generated_key G k"
  shows "on_curve (pub_point k)"
    and "SignASN1 G rnd k h = Inr sig \<Longrightarrow> sig \<noteq> []"
    and "SignASN1 G rnd k h = Inr sig \<Longrightarrow> VerifyASN1 G (pub_point k) h sig"
  using assms unfolding ecdsa_correct_def by blast+

lemma ecMarshal_generated:
  assumes "ecdsa_correct G" "generated_key G k"
  shows "\<exists>bs. ecMarshal (pub_point k) = Inr bs"
  using ecdsa_correctD(1) [OF assms] by (simp add: ecMarshal_def)

section \<open>A small concrete library\<close>

text \<open>
  Theorems that rest on the predicates above are applied to \<open>demo_lib\<close>, in which they hold: two
  sampled bytes for SHA-256 (the first, and the one where a block's text has the first digit of its
  slot), one generated key at the curve's base point whose signature repeats the first
  32 bytes it is given, and insertion sort.
\<close>

definition sample :: "bytes \<Rightarrow> nat \<Rightarrow> byte" where
  "sample bs i = (if i < length bs then bs ! i else 0)"

lift_definition demo_sum :: "bytes \<Rightarrow> digest" is
  "\<lambda>bs. replicate 30 0 @ [sample bs 0, sample bs 67]"
  by simp

fun insert_by :: "('a \<Rightarrow> 'a \<Rightarrow> bool) \<Rightarrow> 'a \<Rightarrow> 'a list \<Rightarrow> 'a list" where
  "insert_by lt x [] = [x]"
| "insert_by lt x (y # ys) = (if lt y x then y # insert_by lt x ys else x # y # ys)"

fun sort_by :: "('a \<Rightarrow> 'a \<Rightarrow> bool) \<Rightarrow> 'a list \<Rightarrow> 'a list" where
  "sort_by lt [] = []"
| "sort_by lt (x # xs) = insert_by lt x (sort_by lt xs)"

definition demo_key :: PrivateKey where
  "demo_key = \<lparr>pk_X = fst p256_G, pk_Y = snd p256_G, pk_D = 1\<rparr>"

definition demo_lib :: golib where
  "demo_lib = \<lparr>Sum256 = demo_sum, GenerateKey = (\<lambda>rnd. Inr demo_key),
     SignASN1 = (\<lambda>rnd k h. Inr (7 # take 32 h)),
     VerifyASN1 = (\<lambda>P h sig. sig = 7 # take 32 h),
     SortTxs = sort_by, Int63 = (\<lambda>seed. seed)\<rparr>"

lemma mset_insert_by [simp]: "mset (insert_by lt x ys) = add_mset x (mset ys)"
  by (induction ys) auto

lemma set_insert_by [simp]: "set (insert_by lt x ys) = insert x (set ys)"
  by (induction ys) auto

lemma mset_sort_by [simp]: "mset (sort_by lt xs) = mset xs"
  by (induction xs) auto

lemma insert_by_sorted:
  assumes "weak_order lt" "sorted_wrt (\<lambda>x y. \<not> lt y x) ys"
  shows "sorted_wrt (\<lambda>x y. \<not> lt y x) (insert_by lt x ys)"
  using assms(2)
proof (induction ys)
  case Nil
  show ?case by simp
next
  case (Cons y ys)
  from assms(1) have asym: "lt y x \<Longrightarrow> \<not> lt x y" and
    neg: "\<And>z. \<not> lt y x \<Longrightarrow> \<not> lt z y \<Longrightarrow> \<not> lt z x"
    unfolding weak_order_def by blast+
  show ?case
    using Cons asym neg by auto
qed

lemma sort_by_sorted: "weak_order lt \<Longrightarrow> sorted_wrt (\<lambda>x y. \<not> lt y x) (sort_by lt xs)"
  by (induction xs) (auto intro: insert_by_sorted)

lemma demo_lib_simps [simp]:
  "Sum256 demo_lib = demo_sum" "SortTxs demo_lib = sort_by"
  "SignASN1 demo_lib rnd k h = Inr (7 # take 32 h)"
  "VerifyASN1 demo_lib P h sig \<longleftrightarrow> sig = 7 # take 32 h"
  "GenerateKey demo_lib rnd = Inr demo_key" "Int63 demo_lib seed = seed"
  by (simp_all add: demo_lib_def)

lemma sample_str_bytes [simp]:
  "sample (str_bytes s) i = (if i < length s then byte_of (s ! i) else 0)"
  by (simp add: sample_def str_bytes_def)

lemma hexEncode_zeros: "hexEncode (replicate n 0) = replicate (2 * n) (CHR ''0'')"
  by (induction n) (simp_all add: hexEncode_Cons hex_byte_def hex_digits_def)

lemma sum_hex_demo: "sum_hex demo_lib bs =
    replicate 60 (CHR ''0'') @ hex_byte (sample bs 0) @ hex_byte (sample bs 67)"
  by (simp add: sum_hex_def demo_sum.rep_eq hexEncode_zeros hexEncode_Cons)

lemma demo_key_on_curve: "on_curve (pub_point demo_key)"
  using on_curve_G by (simp add: demo_key_def pub_point_def)

lemma demo_generated [simp]: "generated_key demo_lib k \<longleftrightarrow> k = demo_key"
  by (auto simp: generated_key_def)

lemma demo_ecdsa_correct: "ecdsa_correct demo_lib"
  by (auto simp: ecdsa_correct_def demo_key_on_curve)

lemma demo_ecdsa_truncates: "ecdsa_truncates demo_lib"
  by (simp add: ecdsa_truncates_def)

lemma demo_sort_correct: "sort_slice_correct demo_lib"
  by (simp add: sort_slice_correct_def sort_by_sorted)

end
