(* ===== verification/Crypto.thy ===== *)
theory Crypto
  imports Domain
begin

text \<open>
  \<open>consensus/crypto.go\<close>: the texts that are hashed, the block, transaction and state hashes, and
  signing and verification of transactions and blocks.

  The first group of lemmas says which of the hashed texts determine what they were made from.  Header
  and transaction texts separate their fields by a bar, so they do when all fields but one are free of
  bars.  The text behind \<open>StateRoot\<close> does when no account name holds a colon, and does not in general.
  The second group relates signing to verification.
\<close>

section \<open>Hashes\<close>

definition block_text :: "u64 \<Rightarrow> string \<Rightarrow> u64 \<Rightarrow> u64 \<Rightarrow> string \<Rightarrow> string \<Rightarrow> string \<Rightarrow> string \<Rightarrow> string" where
  "block_text index prevHash slot tick validator txRoot stateRoot pohHash =
     FormatUint index @ ''|'' @ prevHash @ ''|'' @ FormatUint slot @ ''|'' @ FormatUint tick @ ''|''
     @ validator @ ''|'' @ txRoot @ ''|'' @ stateRoot @ ''|'' @ pohHash"

definition HashBlock :: "golib \<Rightarrow> u64 \<Rightarrow> string \<Rightarrow> u64 \<Rightarrow> u64 \<Rightarrow> string \<Rightarrow> string \<Rightarrow> string \<Rightarrow> string \<Rightarrow> string" where
  "HashBlock G index prevHash slot tick validator txRoot stateRoot pohHash =
     sum_hex G (str_bytes (block_text index prevHash slot tick validator txRoot stateRoot pohHash))"

abbreviation text_of_block :: "Block \<Rightarrow> string" where
  "text_of_block b \<equiv> block_text (b_Index b) (b_PrevHash b) (b_Slot b) (b_Tick b) (b_Validator b)
     (b_TxRoot b) (b_StateRoot b) (b_PoHHash b)"

abbreviation hash_of_block :: "golib \<Rightarrow> Block \<Rightarrow> string" where
  "hash_of_block G b \<equiv> HashBlock G (b_Index b) (b_PrevHash b) (b_Slot b) (b_Tick b) (b_Validator b)
     (b_TxRoot b) (b_StateRoot b) (b_PoHHash b)"

definition tx_text :: "Transaction \<Rightarrow> string" where
  "tx_text tx = tx_From tx @ ''|'' @ tx_To tx @ ''|'' @ Itoa (tx_Amount tx) @ ''|''
     @ Itoa (tx_Fee tx) @ ''|'' @ FormatUint (tx_Nonce tx) @ ''|'' @ tx_PubKey tx"

definition HashTx :: "golib \<Rightarrow> Transaction \<Rightarrow> bytes" where
  "HashTx G tx = digest_bytes (Sum256 G (str_bytes (tx_text tx)))"

definition TxRoot :: "golib \<Rightarrow> Transaction list \<Rightarrow> string" where
  "TxRoot G txs = (if txs = [] then sum_hex G [] else sum_hex G (concat (map (HashTx G) txs)))"

definition state_entry :: "accounts \<Rightarrow> string \<Rightarrow> string" where
  "state_entry state k = k @ '':'' @ Itoa (ac_Balance (account_at state k)) @ ''|''
     @ FormatUint (ac_Nonce (account_at state k)) @ '';''"

definition state_text :: "accounts \<Rightarrow> string" where
  "state_text state = concat (map (state_entry state) (keys_of state))"

definition StateRoot :: "golib \<Rightarrow> accounts \<Rightarrow> string" where
  "StateRoot G state = (if state = fmempty then sum_hex G [] else sum_hex G (str_bytes (state_text state)))"

section \<open>Signing and verification\<close>

definition SignTransaction :: "golib \<Rightarrow> nat \<Rightarrow> PrivateKey \<Rightarrow> Transaction option \<Rightarrow> Transaction option \<times> failure" where
  "SignTransaction G rnd priv txp =
    (case txp of
      None \<Rightarrow> (None, Some (ErrNew ''nil transaction''))
    | Some tx \<Rightarrow>
      (case ecMarshal (pub_point priv) of
        Inl e \<Rightarrow> (Some tx, Some e)
      | Inr pubBytes \<Rightarrow>
        (let tx = tx\<lparr>tx_PubKey := hexEncode pubBytes\<rparr> in
         case AddressFromPubKey G (tx_PubKey tx) of
           Inl e \<Rightarrow> (Some tx, Some e)
         | Inr addr \<Rightarrow>
           (let tx = tx\<lparr>tx_From := addr\<rparr>;
                digest = HashTx G tx;
                tx = tx\<lparr>tx_Hash := hexEncode digest\<rparr>
            in case SignASN1 G rnd priv digest of
                 Inl e \<Rightarrow> (Some tx, Some e)
               | Inr sig \<Rightarrow> (Some (tx\<lparr>tx_Signature := hexEncode sig\<rparr>), None)))))"

definition VerifyTransactionSignature :: "golib \<Rightarrow> Transaction \<Rightarrow> failure" where
  "VerifyTransactionSignature G tx =
    (if tx_PubKey tx = [] \<or> tx_Signature tx = [] then Some (ErrNew ''missing pubkey or signature'')
     else case hexDecode (tx_PubKey tx) of
       Inl e \<Rightarrow> Some e
     | Inr pubBytes \<Rightarrow>
       (case ecUnmarshal pubBytes of
         None \<Rightarrow> Some (ErrNew ''invalid pubkey'')
       | Some P \<Rightarrow>
         (case AddressFromPubKey G (tx_PubKey tx) of
           Inl e \<Rightarrow> Some e
         | Inr addr \<Rightarrow>
           (if tx_From tx \<noteq> addr then Some (ErrNew ''from address does not match pubkey'')
            else case hexDecode (tx_Signature tx) of
              Inl e \<Rightarrow> Some e
            | Inr sigBytes \<Rightarrow>
              (let digest = HashTx G tx; hashHex = hexEncode digest in
               if tx_Hash tx = [] then Some (ErrNew ''missing tx hash'')
               else if tx_Hash tx \<noteq> hashHex then Some (ErrNew ''tx hash mismatch'')
               else if \<not> VerifyASN1 G P digest sigBytes then Some (ErrNew ''invalid signature'')
               else None)))))"

definition SignBlock :: "golib \<Rightarrow> nat \<Rightarrow> PrivateKey option \<Rightarrow> Block option \<Rightarrow> Block option \<times> failure" where
  "SignBlock G rnd priv blockp =
    (case blockp of
      None \<Rightarrow> (None, Some (ErrNew ''nil block''))
    | Some block \<Rightarrow>
      (case priv of
        None \<Rightarrow> (Some block, Some (ErrNew ''missing validator private key''))
      | Some key \<Rightarrow>
        (let digest = hash_of_block G block in
         case SignASN1 G rnd key (str_bytes digest) of
           Inl e \<Rightarrow> (Some block, Some e)
         | Inr sig \<Rightarrow> (Some (block\<lparr>b_Signature := sig, b_Hash := digest\<rparr>), None))))"

definition VerifyBlockSignature :: "golib \<Rightarrow> Block \<Rightarrow> string \<Rightarrow> failure" where
  "VerifyBlockSignature G block pubKeyHex =
    (if pubKeyHex = [] then Some (ErrNew ''missing validator pubkey'')
     else case hexDecode pubKeyHex of
       Inl e \<Rightarrow> Some e
     | Inr pubBytes \<Rightarrow>
       (case ecUnmarshal pubBytes of
         None \<Rightarrow> Some (ErrNew ''invalid validator pubkey'')
       | Some P \<Rightarrow>
         (if b_Signature block = [] then Some (ErrNew ''missing block signature'')
          else let digest = hash_of_block G block in
            if \<not> VerifyASN1 G P (str_bytes digest) (b_Signature block)
            then Some (ErrNew ''invalid block signature'')
            else if b_Hash block \<noteq> digest then Some (ErrNew ''invalid block hash'')
            else None)))"

section \<open>What the hashed texts determine\<close>

lemma split_first_sep:
  assumes "c \<notin> set a" "c \<notin> set a'" "a @ c # b = a' @ c # b'"
  shows "a = a' \<and> b = b'"
  using assms
proof (induction a arbitrary: a')
  case Nil
  then show ?case by (cases a') auto
next
  case (Cons x a)
  then show ?case by (cases a') auto
qed

lemma split_last_sep:
  assumes "c \<notin> set b" "c \<notin> set b'" "a @ c # b = a' @ c # b'"
  shows "a = a' \<and> b = b'"
proof -
  have "rev b @ c # rev a = rev b' @ c # rev a'"
    using arg_cong [OF assms(3), of rev] by simp
  with split_first_sep [of c "rev b" "rev b'" "rev a" "rev a'"] assms(1,2)
  show ?thesis by simp
qed

definition no_bar :: "string \<Rightarrow> bool" where
  "no_bar s \<longleftrightarrow> CHR ''|'' \<notin> set s"

lemma no_bar_simps [simp]: "no_bar (FormatUint n)" "no_bar (Itoa i)" "no_bar (sum_hex G bs)"
    "no_bar (hexEncode cs)"
  by (simp_all add: no_bar_def hexEncode_no_bar)

lemma bar_first: "no_bar a \<Longrightarrow> no_bar a' \<Longrightarrow> a @ ''|'' @ b = a' @ ''|'' @ b' \<longleftrightarrow> a = a' \<and> b = b'"
  using split_first_sep [of "CHR ''|''" a a' b b'] by (auto simp: no_bar_def)

lemma bar_last: "no_bar b \<Longrightarrow> no_bar b' \<Longrightarrow> a @ ''|'' @ b = a' @ ''|'' @ b' \<longleftrightarrow> a = a' \<and> b = b'"
  using split_last_sep [of "CHR ''|''" b b' a a'] by (auto simp: no_bar_def)

lemma bar_lastL: "no_bar b \<Longrightarrow> no_bar b' \<Longrightarrow> (a @ ''|'') @ b = (a' @ ''|'') @ b' \<longleftrightarrow> a = a' \<and> b = b'"
  using bar_last by simp

lemma tx_text_determines:
  assumes "no_bar (tx_From t)" "no_bar (tx_From u)" "no_bar (tx_PubKey t)" "no_bar (tx_PubKey u)"
    and "tx_text t = tx_text u"
  shows "tx_From t = tx_From u \<and> tx_To t = tx_To u \<and> tx_Amount t = tx_Amount u \<and>
    tx_Fee t = tx_Fee u \<and> tx_Nonce t = tx_Nonce u \<and> tx_PubKey t = tx_PubKey u"
proof -
  define rest where "rest v = tx_To v @ ''|'' @ Itoa (tx_Amount v) @ ''|'' @ Itoa (tx_Fee v) @ ''|''
    @ FormatUint (tx_Nonce v) @ ''|'' @ tx_PubKey v" for v :: Transaction
  have "tx_text v = tx_From v @ ''|'' @ rest v" for v by (simp add: tx_text_def rest_def)
  with assms(5) have "tx_From t @ ''|'' @ rest t = tx_From u @ ''|'' @ rest u" by simp
  with assms(1,2) have from_eq: "tx_From t = tx_From u" and rest_eq: "rest t = rest u"
    unfolding bar_first [OF assms(1,2)] by blast+
  have left: "rest v = ((((tx_To v @ ''|'' @ Itoa (tx_Amount v)) @ ''|'' @ Itoa (tx_Fee v)) @ ''|''
    @ FormatUint (tx_Nonce v)) @ ''|'' @ tx_PubKey v)" for v by (simp add: rest_def)
  show ?thesis
    using rest_eq assms(3,4) from_eq unfolding left by (simp only: bar_last no_bar_simps Itoa_inject FormatUint_inject)
qed

lemma block_text_determines:
  assumes "no_bar prev" "no_bar prev'" "no_bar tr" "no_bar tr'" "no_bar sr" "no_bar sr'"
    "no_bar ph" "no_bar ph'"
    and "block_text i prev s t v tr sr ph = block_text i' prev' s' t' v' tr' sr' ph'"
  shows "i = i' \<and> prev = prev' \<and> s = s' \<and> t = t' \<and> v = v' \<and> tr = tr' \<and> sr = sr' \<and> ph = ph'"
proof -
  have "FormatUint i @ ''|'' @ prev @ ''|'' @ FormatUint s @ ''|'' @ FormatUint t @ ''|''
      @ (v @ ''|'' @ tr @ ''|'' @ sr @ ''|'' @ ph) =
    FormatUint i' @ ''|'' @ prev' @ ''|'' @ FormatUint s' @ ''|'' @ FormatUint t' @ ''|''
      @ (v' @ ''|'' @ tr' @ ''|'' @ sr' @ ''|'' @ ph')"
    using assms(9) by (simp only: block_text_def)
  with assms(1,2) have head: "i = i' \<and> prev = prev' \<and> s = s' \<and> t = t'"
    and tail: "v @ ''|'' @ tr @ ''|'' @ sr @ ''|'' @ ph = v' @ ''|'' @ tr' @ ''|'' @ sr' @ ''|'' @ ph'"
    by (simp_all only: bar_first no_bar_simps FormatUint_inject)
  have left: "x @ ''|'' @ y @ ''|'' @ z @ ''|'' @ w = ((x @ ''|'' @ y) @ ''|'' @ z) @ ''|'' @ w"
    for x y z w :: string by simp
  show ?thesis
    using tail head assms(3-8) unfolding left by (simp only: bar_last)
qed

text \<open>Two lists of entries with the same text are the same entries, when no key holds a colon.\<close>

definition no_colon :: "string \<Rightarrow> bool" where
  "no_colon s \<longleftrightarrow> CHR '':'' \<notin> set s"

lemma semicolon_free [simp]: "CHR '';'' \<notin> set (FormatUint n)"
  by (simp add: FormatUint_def dec_no_sep)

lemma state_entry_determines:
  assumes "no_colon k" "no_colon l" "state_entry s k @ r = state_entry t l @ r'"
  shows "k = l \<and> account_at s k = account_at t l \<and> r = r'"
proof -
  let ?bal = "\<lambda>s k. Itoa (ac_Balance (account_at s k))"
  let ?non = "\<lambda>s k. FormatUint (ac_Nonce (account_at s k))"
  have "k @ CHR '':'' # (?bal s k @ CHR ''|'' # (?non s k @ CHR '';'' # r)) =
      l @ CHR '':'' # (?bal t l @ CHR ''|'' # (?non t l @ CHR '';'' # r'))"
    using assms(3) by (simp add: state_entry_def)
  from split_first_sep [OF _ _ this] assms(1,2)
  have k: "k = l" and "?bal s k @ CHR ''|'' # (?non s k @ CHR '';'' # r) =
      ?bal t l @ CHR ''|'' # (?non t l @ CHR '';'' # r')"
    by (auto simp: no_colon_def)
  from split_first_sep [OF Itoa_no_bar Itoa_no_bar this(2)]
  have bal: "?bal s k = ?bal t l" and "?non s k @ CHR '';'' # r = ?non t l @ CHR '';'' # r'"
    by auto
  from split_first_sep [OF semicolon_free semicolon_free this(2)]
  have "?non s k = ?non t l" "r = r'" by auto
  with k bal show ?thesis by simp
qed

lemma state_entries_determine:
  assumes "\<And>k. k \<in> set ks \<union> set ls \<Longrightarrow> no_colon k"
    and "concat (map (state_entry s) ks) = concat (map (state_entry t) ls)"
  shows "ks = ls \<and> (\<forall>k\<in>set ks. account_at s k = account_at t k)"
  using assms
proof (induction ks arbitrary: ls)
  case Nil
  then show ?case by (cases ls) (auto simp: state_entry_def)
next
  case (Cons k ks)
  show ?case
  proof (cases ls)
    case Nil
    with Cons.prems(2) show ?thesis by (simp add: state_entry_def)
  next
    case (Cons l ls')
    with Cons.prems have "state_entry s k @ concat (map (state_entry s) ks) =
        state_entry t l @ concat (map (state_entry t) ls')" and "no_colon k" "no_colon l"
      by auto
    with state_entry_determines [of k l s _ t]
    have "k = l" "account_at s k = account_at t l"
      "concat (map (state_entry s) ks) = concat (map (state_entry t) ls')"
      by blast+
    with Cons.IH [of ls'] Cons.prems(1) Cons show ?thesis by auto
  qed
qed

lemma state_text_determines:
  assumes "\<And>k. k \<in> fset (fmdom s) \<union> fset (fmdom t) \<Longrightarrow> no_colon k" "state_text s = state_text t"
  shows "s = t"
proof -
  have "\<And>k. k \<in> set (keys_of s) \<union> set (keys_of t) \<Longrightarrow> no_colon k"
    using assms(1) by simp
  moreover have "concat (map (state_entry s) (keys_of s)) = concat (map (state_entry t) (keys_of t))"
    using assms(2) by (simp only: state_text_def)
  ultimately have both: "keys_of s = keys_of t \<and> (\<forall>k\<in>set (keys_of s). account_at s k = account_at t k)"
    by (rule state_entries_determine)
  then have keys: "keys_of s = keys_of t" by (rule conjunct1)
  from conjunct2 [OF both] have acc: "\<And>k. k \<in> fset (fmdom s) \<Longrightarrow> account_at s k = account_at t k"
    by simp
  from keys have "set (keys_of s) = set (keys_of t)" by simp
  then have dom: "fset (fmdom s) = fset (fmdom t)" by simp
  show ?thesis
  proof (rule fmap_ext)
    fix k
    show "fmlookup s k = fmlookup t k"
    proof (cases "k \<in> fset (fmdom s)")
      case True
      moreover from this dom have "k \<in> fset (fmdom t)" by simp
      ultimately obtain a b where "fmlookup s k = Some a" "fmlookup t k = Some b"
        by (meson fmlookup_dom_iff)
      with acc [OF True] show ?thesis by (simp add: get_or_def)
    next
      case False
      with dom have "k \<notin> fset (fmdom t)" by simp
      with False show ?thesis by (metis fmdom_notD)
    qed
  qed
qed

lemma sum_hex_eq: "inj_on (Sum256 G) {x, y} \<Longrightarrow> sum_hex G x = sum_hex G y \<longleftrightarrow> x = y"
  by (auto simp: sum_hex_def inj_on_def)

lemma concat_blocks_eq:
  assumes "concat (map f xs) = concat (map f ys)" "\<And>x. length (f x) = n" "0 < n"
  shows "map f xs = map f ys"
proof -
  have len: "length (concat (map f zs)) = n * length zs" for zs
    by (induction zs) (simp_all add: assms(2))
  have "n * length xs = n * length ys" using arg_cong [OF assms(1), of length] by (simp only: len)
  with assms(3) have "length (map f xs) = length (map f ys)" by simp
  with assms(1,2) show ?thesis
    by (subst (asm) concat_eq_concat_iff) (auto simp: set_zip)
qed

lemma length_HashTx [simp]: "length (HashTx G tx) = 32"
  by (simp add: HashTx_def)

lemma TxRoot_concat: "TxRoot G txs = sum_hex G (concat (map (HashTx G) txs))"
  by (simp add: TxRoot_def)

section \<open>Signing and verifying\<close>

definition same_body :: "Transaction \<Rightarrow> Transaction \<Rightarrow> bool" where
  "same_body t u \<longleftrightarrow> tx_From t = tx_From u \<and> tx_To t = tx_To u \<and> tx_Amount t = tx_Amount u \<and>
     tx_Fee t = tx_Fee u \<and> tx_Nonce t = tx_Nonce u \<and> tx_PubKey t = tx_PubKey u"

lemma same_body_hash: "same_body t u \<Longrightarrow> HashTx G t = HashTx G u"
  by (simp add: same_body_def HashTx_def tx_text_def)

lemma HashTx_frame [simp]: "HashTx G (tx\<lparr>tx_Hash := h\<rparr>) = HashTx G tx"
    "HashTx G (tx\<lparr>tx_Signature := g\<rparr>) = HashTx G tx"
  by (simp_all add: HashTx_def tx_text_def)

lemma VerifyTransactionSignature_None:
  "VerifyTransactionSignature G tx = None \<longleftrightarrow>
    (\<exists>pub P sig. tx_PubKey tx \<noteq> [] \<and> tx_Signature tx \<noteq> [] \<and>
      hexDecode (tx_PubKey tx) = Inr pub \<and> ecUnmarshal pub = Some P \<and>
      tx_From tx = sum_hex G pub \<and> hexDecode (tx_Signature tx) = Inr sig \<and>
      tx_Hash tx = hexEncode (HashTx G tx) \<and> VerifyASN1 G P (HashTx G tx) sig)"
  by (auto simp: VerifyTransactionSignature_def AddressFromPubKey_def Let_def
      split: sum.splits option.splits if_splits)
     (metis hexEncode_inject length_0_conv length_HashTx length_hexEncode mult_is_0 zero_neq_numeral)

lemma verified_no_bar:
  "VerifyTransactionSignature G tx = None \<Longrightarrow> no_bar (tx_From tx) \<and> no_bar (tx_PubKey tx)"
  by (auto simp: VerifyTransactionSignature_None no_bar_def dest: hexDecode_no_bar)

lemma VerifyBlockSignature_None:
  "VerifyBlockSignature G b pk = None \<longleftrightarrow>
    (\<exists>pub P. pk \<noteq> [] \<and> hexDecode pk = Inr pub \<and> ecUnmarshal pub = Some P \<and> b_Signature b \<noteq> [] \<and>
      VerifyASN1 G P (str_bytes (hash_of_block G b)) (b_Signature b) \<and> b_Hash b = hash_of_block G b)"
  by (auto simp: VerifyBlockSignature_def Let_def split: sum.splits option.splits)

lemma hexEncode_nonempty: "ecUnmarshal bs = Some P \<Longrightarrow> hexEncode bs \<noteq> []"
  by (cases bs) (auto simp: ecUnmarshal_def hexEncode_Cons hex_byte_def)

lemma hexEncode_Nil_iff [simp]: "hexEncode bs = [] \<longleftrightarrow> bs = []"
  by (cases bs) (auto simp: hexEncode_Cons hex_byte_def)

lemma SignTransaction_verifies:
  assumes "ecdsa_correct G" "generated_key G k" "SignTransaction G rnd k (Some tx) = (Some tx', None)"
  shows "VerifyTransactionSignature G tx' = None"
proof -
  from assms(3) obtain pub sig where pub: "ecMarshal (pub_point k) = Inr pub"
    and sig: "SignASN1 G rnd k (HashTx G tx') = Inr sig"
    and fields: "tx_PubKey tx' = hexEncode pub" "tx_From tx' = sum_hex G pub"
      "tx_Hash tx' = hexEncode (HashTx G tx')" "tx_Signature tx' = hexEncode sig"
    by (auto simp: SignTransaction_def AddressFromPubKey_def Let_def split: sum.splits)
  from pub have P: "ecUnmarshal pub = Some (pub_point k)" by (rule ecUnmarshal_ecMarshal)
  with hexEncode_nonempty show ?thesis
    using ecdsa_correctD(2,3) [OF assms(1,2) sig]
    unfolding VerifyTransactionSignature_None fields
    by (intro exI [of _ pub] exI [of _ "pub_point k"] exI [of _ sig]) auto
qed

lemma SignBlock_verifies:
  assumes "ecdsa_correct G" "generated_key G k" "ecMarshal (pub_point k) = Inr pub"
    and "SignBlock G rnd (Some k) (Some b) = (Some b', None)"
  shows "VerifyBlockSignature G b' (hexEncode pub) = None"
proof -
  from assms(4) obtain sig where sig: "SignASN1 G rnd k (str_bytes (hash_of_block G b')) = Inr sig"
    and fields: "b_Hash b' = hash_of_block G b'" "b_Signature b' = sig"
    by (auto simp: SignBlock_def Let_def split: sum.splits)
  from assms(3) have P: "ecUnmarshal pub = Some (pub_point k)" by (rule ecUnmarshal_ecMarshal)
  with hexEncode_nonempty show ?thesis
    using ecdsa_correctD(2,3) [OF assms(1,2) sig]
    unfolding VerifyBlockSignature_None fields
    by (intro exI [of _ pub] exI [of _ "pub_point k"]) auto
qed

section \<open>Signed transactions of the concrete library\<close>

lemma small_numerals:
  "FormatUint 0 = ''0''" "FormatUint 1 = ''1''" "FormatUint 2 = ''2''" "Itoa 5 = ''5''" "Itoa 9 = ''9''"
  by code_simp+

definition demo_pub :: bytes where
  "demo_pub = 4 # be_bytes 32 (fst p256_G) @ be_bytes 32 (snd p256_G)"

definition demo_addr :: string where
  "demo_addr = replicate 60 (CHR ''0'') @ ''0400''"

definition demo_tx :: "string \<Rightarrow> i64 \<Rightarrow> i64 \<Rightarrow> u64 \<Rightarrow> Transaction" where
  "demo_tx to amount fee nonce =
    the (fst (SignTransaction demo_lib 0 demo_key (Some
      \<lparr>tx_From = [], tx_To = to, tx_Amount = amount, tx_Fee = fee, tx_Nonce = nonce,
       tx_PubKey = [], tx_Signature = [], tx_Hash = []\<rparr>)))"

lemma ecMarshal_demo: "ecMarshal (pub_point demo_key) = Inr demo_pub"
  using demo_key_on_curve by (simp add: ecMarshal_def demo_pub_def demo_key_def pub_point_def)

lemma demo_address: "AddressFromPubKey demo_lib (hexEncode demo_pub) = Inr demo_addr"
  by (simp add: AddressFromPubKey_def sum_hex_demo demo_addr_def demo_pub_def sample_def
      hex_byte_def hex_digits_def)

lemma demo_tx_signed: "SignTransaction demo_lib 0 demo_key (Some
      \<lparr>tx_From = [], tx_To = to, tx_Amount = amount, tx_Fee = fee, tx_Nonce = nonce,
       tx_PubKey = [], tx_Signature = [], tx_Hash = []\<rparr>) = (Some (demo_tx to amount fee nonce), None)"
  by (simp add: demo_tx_def SignTransaction_def ecMarshal_demo demo_address Let_def)

lemma demo_tx_verifies [simp]: "VerifyTransactionSignature demo_lib (demo_tx to amount fee nonce) = None"
  by (rule SignTransaction_verifies [OF demo_ecdsa_correct _ demo_tx_signed]) simp

lemma demo_tx_fields [simp]:
  "tx_From (demo_tx to amount fee nonce) = demo_addr" "tx_To (demo_tx to amount fee nonce) = to"
  "tx_Amount (demo_tx to amount fee nonce) = amount" "tx_Fee (demo_tx to amount fee nonce) = fee"
  "tx_Nonce (demo_tx to amount fee nonce) = nonce"
  "tx_PubKey (demo_tx to amount fee nonce) = hexEncode demo_pub"
  by (simp_all add: demo_tx_def SignTransaction_def ecMarshal_demo demo_address Let_def)

lemma demo_tx_text_start: "hd (tx_text (demo_tx to amount fee nonce)) = CHR ''0''"
  by (simp add: tx_text_def demo_addr_def)

lemma sample_first: "hd s = c \<Longrightarrow> s \<noteq> [] \<Longrightarrow> sample (str_bytes s) 0 = byte_of c"
  by (cases s) (simp_all add: sample_def str_bytes_def)

section \<open>Properties\<close>

text \<open>
  C36: signing a transaction with a generated key either fails with the error of ECDSA's signer, or
  yields a transaction that \<open>VerifyTransactionSignature\<close> accepts; the receiver, the amount, the fee
  and the nonce stay what the caller set, and the sender is the key's address.
\<close>

theorem SignTransaction_roundtrip:
  assumes "ecdsa_correct G" "generated_key G k" "SignTransaction G rnd k (Some tx) = (r, err)"
  shows "\<exists>tx' pub. r = Some tx' \<and> ecMarshal (pub_point k) = Inr pub \<and>
    tx_PubKey tx' = hexEncode pub \<and> AddressFromPubKey G (hexEncode pub) = Inr (tx_From tx') \<and>
    tx_To tx' = tx_To tx \<and> tx_Amount tx' = tx_Amount tx \<and> tx_Fee tx' = tx_Fee tx \<and>
    tx_Nonce tx' = tx_Nonce tx \<and>
    (case err of
      None \<Rightarrow> VerifyTransactionSignature G tx' = None
    | Some e \<Rightarrow> SignASN1 G rnd k (HashTx G tx') = Inl e)"
proof -
  obtain pub where pub: "ecMarshal (pub_point k) = Inr pub"
    using ecMarshal_generated [OF assms(1,2)] by blast
  show ?thesis
  proof (cases err)
    case None
    with assms(3) obtain tx' where "r = Some tx'"
      by (auto simp: SignTransaction_def pub AddressFromPubKey_def Let_def split: sum.splits)
    with None assms SignTransaction_verifies [of G k rnd tx tx'] show ?thesis
      by (auto simp: SignTransaction_def pub AddressFromPubKey_def Let_def split: sum.splits)
  next
    case (Some e)
    with assms(3) show ?thesis
      by (auto simp: SignTransaction_def pub AddressFromPubKey_def Let_def split: sum.splits)
  qed
qed

theorem SignTransaction_roundtrip_witness:
  "\<exists>tx'. SignTransaction demo_lib 0 demo_key (Some
      \<lparr>tx_From = [], tx_To = ''bob'', tx_Amount = 5, tx_Fee = 1, tx_Nonce = 1,
       tx_PubKey = [], tx_Signature = [], tx_Hash = []\<rparr>) = (Some tx', None) \<and>
    tx_To tx' = ''bob'' \<and> tx_Amount tx' = 5 \<and> VerifyTransactionSignature demo_lib tx' = None"
  using SignTransaction_roundtrip [OF demo_ecdsa_correct _ demo_tx_signed [of "''bob''" 5 1 1]]
  by (auto simp: demo_tx_signed)

text \<open>
  Signing a block with a generated key either fails with the error of ECDSA's signer, or sets the
  block's hash to the hash of its header and a signature that \<open>VerifyBlockSignature\<close> accepts under
  the key's public half; no header field and no transaction changes.
\<close>

theorem SignBlock_roundtrip:
  assumes "ecdsa_correct G" "generated_key G k" "ecMarshal (pub_point k) = Inr pub"
    and "SignBlock G rnd (Some k) (Some b) = (r, err)"
  shows "case err of
      None \<Rightarrow> \<exists>sig. r = Some (b\<lparr>b_Signature := sig, b_Hash := hash_of_block G b\<rparr>) \<and>
        VerifyBlockSignature G (b\<lparr>b_Signature := sig, b_Hash := hash_of_block G b\<rparr>) (hexEncode pub) = None
    | Some e \<Rightarrow> r = Some b \<and> SignASN1 G rnd k (str_bytes (hash_of_block G b)) = Inl e"
proof (cases err)
  case None
  with assms(4) obtain sig where r: "r = Some (b\<lparr>b_Signature := sig, b_Hash := hash_of_block G b\<rparr>)"
    by (auto simp: SignBlock_def Let_def split: sum.splits)
  with None assms(4) SignBlock_verifies [OF assms(1-3)] show ?thesis by auto
next
  case (Some e)
  with assms(4) show ?thesis by (auto simp: SignBlock_def Let_def split: sum.splits)
qed

theorem SignBlock_roundtrip_witness:
  "\<exists>b'. SignBlock demo_lib 0 (Some demo_key) (Some zero_block) = (Some b', None) \<and>
    VerifyBlockSignature demo_lib b' (hexEncode demo_pub) = None"
proof -
  have signed: "SignBlock demo_lib 0 (Some demo_key) (Some zero_block) =
    (Some (zero_block\<lparr>b_Signature := 7 # take 32 (str_bytes (hash_of_block demo_lib zero_block)),
       b_Hash := hash_of_block demo_lib zero_block\<rparr>), None)"
    by (simp add: SignBlock_def Let_def)
  from SignBlock_roundtrip [OF demo_ecdsa_correct _ ecMarshal_demo this] signed
  show ?thesis by auto
qed

text \<open>
  C37: the transaction root commits to the transactions.  Two lists of transactions that pass
  \<open>VerifyTransactionSignature\<close> and have the same \<open>TxRoot\<close> agree, entry by entry, on sender, receiver,
  amount, fee, nonce and public key, provided SHA-256 does not collide on the texts hashed for these
  two lists.  The bars between the fields of a transaction's text leave no ambiguity, although the
  receiver is an arbitrary string.
\<close>

theorem TxRoot_commits:
  assumes "\<forall>t\<in>set xs \<union> set ys. VerifyTransactionSignature G t = None"
    and "inj_on (Sum256 G) ({concat (map (HashTx G) xs), concat (map (HashTx G) ys)} \<union>
      (\<lambda>t. str_bytes (tx_text t)) ` (set xs \<union> set ys))"
    and "TxRoot G xs = TxRoot G ys"
  shows "list_all2 same_body xs ys"
proof -
  have "inj_on (Sum256 G) {concat (map (HashTx G) xs), concat (map (HashTx G) ys)}"
    by (rule inj_on_subset [OF assms(2)]) simp
  with assms(3) have "concat (map (HashTx G) xs) = concat (map (HashTx G) ys)"
    by (simp add: TxRoot_concat sum_hex_eq)
  then have maps: "map (HashTx G) xs = map (HashTx G) ys"
    by (rule concat_blocks_eq [where n = 32]) simp_all
  have body: "same_body t u" if "t \<in> set xs" "u \<in> set ys" "HashTx G t = HashTx G u" for t u
  proof -
    from that(3) have "Sum256 G (str_bytes (tx_text t)) = Sum256 G (str_bytes (tx_text u))"
      by (simp add: HashTx_def)
    then have "str_bytes (tx_text t) = str_bytes (tx_text u)"
      by (rule inj_onD [OF assms(2)]) (use that(1,2) in auto)
    then have same: "tx_text t = tx_text u" by simp
    have "no_bar (tx_From t) \<and> no_bar (tx_PubKey t)" "no_bar (tx_From u) \<and> no_bar (tx_PubKey u)"
      by (rule verified_no_bar, use assms(1) that(1,2) in blast)+
    with same tx_text_determines [of t u] show ?thesis
      unfolding same_body_def by blast
  qed
  from maps have len: "length xs = length ys" by (rule map_eq_imp_length_eq)
  show ?thesis
  proof (rule list_all2_all_nthI [OF len])
    fix n assume n: "n < length xs"
    with len have "HashTx G (xs ! n) = HashTx G (ys ! n)"
      using arg_cong [OF maps, of "\<lambda>l. l ! n"] by simp
    with n len body show "same_body (xs ! n) (ys ! n)" by simp
  qed
qed

theorem TxRoot_commits_witness:
  "list_all2 same_body [demo_tx ''bob'' 5 1 1] [demo_tx ''bob'' 5 1 1]"
proof (rule TxRoot_commits [where G = demo_lib])
  show "inj_on (Sum256 demo_lib) ({concat (map (HashTx demo_lib) [demo_tx ''bob'' 5 1 1]),
      concat (map (HashTx demo_lib) [demo_tx ''bob'' 5 1 1])} \<union>
      (\<lambda>t. str_bytes (tx_text t)) ` (set [demo_tx ''bob'' 5 1 1] \<union> set [demo_tx ''bob'' 5 1 1]))"
  proof -
    let ?t = "demo_tx ''bob'' 5 1 1"
    have "sample (HashTx demo_lib ?t) 0 = 0"
      by (simp add: HashTx_def demo_sum.rep_eq sample_def nth_append)
    moreover have "sample (str_bytes (tx_text ?t)) 0 = byte_of (CHR ''0'')"
      by (rule sample_first) (simp_all add: demo_tx_text_start, simp add: tx_text_def)
    moreover have "byte_of (CHR ''0'') \<noteq> 0"
      by (simp add: byte_of_def)
    ultimately have "sum_hex demo_lib (HashTx demo_lib ?t) \<noteq> sum_hex demo_lib (str_bytes (tx_text ?t))"
      by (auto simp: sum_hex_demo hex_byte_def hex_digits_def byte_of_def)
    then show ?thesis by (auto simp: sum_hex_def)
  qed
qed simp_all

text \<open>
  C38: the state root commits to the accounts when no account name contains a colon (the addresses
  that the program derives from keys never do): two such states with the same root are the same
  state, provided SHA-256 does not collide on their two texts.
\<close>

theorem StateRoot_commits:
  assumes "\<forall>k. k |\<in>| fmdom s |\<union>| fmdom t \<longrightarrow> no_colon k"
    and "inj_on (Sum256 G) {str_bytes (state_text s), str_bytes (state_text t)}"
    and "StateRoot G s = StateRoot G t"
  shows "s = t"
proof -
  have root: "StateRoot G u = sum_hex G (str_bytes (state_text u))" for u
    by (simp add: StateRoot_def state_text_def str_bytes_def)
  from assms(2,3) have "state_text s = state_text t"
    by (simp add: root sum_hex_eq)
  with state_text_determines [of s t] assms(1) show ?thesis by auto
qed

theorem StateRoot_commits_witness:
  "StateRoot demo_lib (fmupd demo_addr \<lparr>ac_Balance = 7, ac_Nonce = 1\<rparr> fmempty) \<noteq> StateRoot demo_lib fmempty"
proof
  let ?s = "fmupd demo_addr \<lparr>ac_Balance = 7, ac_Nonce = 1\<rparr> fmempty"
  assume eq: "StateRoot demo_lib ?s = StateRoot demo_lib fmempty"
  have "digest_bytes (demo_sum (str_bytes (state_text ?s))) ! 30 = byte_of (CHR ''0'')"
    "digest_bytes (demo_sum []) ! 30 = 0"
    by (simp_all add: demo_sum.rep_eq nth_append state_text_def state_entry_def demo_addr_def sample_def
        str_bytes_def)
  moreover have "byte_of (CHR ''0'') \<noteq> 0" by (simp add: byte_of_def)
  ultimately have "demo_sum (str_bytes (state_text ?s)) \<noteq> demo_sum []" by metis
  then have "inj_on (Sum256 demo_lib) {str_bytes (state_text ?s), str_bytes (state_text fmempty)}"
    by (auto simp: inj_on_def state_text_def str_bytes_def)
  from StateRoot_commits [OF _ this eq] have "?s = fmempty"
    by (simp add: no_colon_def demo_addr_def)
  then have "fmlookup ?s demo_addr = None" by simp
  then show False by simp
qed

text \<open>
  Without that restriction the state root does not commit to the accounts.  A receiver is any
  string, so an account may be called \<open>a:5|0;b\<close>; the ledger that holds only this account hashes the
  same text, whatever the hash function, as the ledger with the two accounts \<open>a\<close> and \<open>b\<close>.
\<close>

theorem StateRoot_ambiguous:
  "\<exists>s t. s \<noteq> t \<and> (\<forall>G. StateRoot G s = StateRoot G t) \<and>
    account_at s ''a'' \<noteq> account_at t ''a'' \<and> account_at s ''b'' \<noteq> account_at t ''b''"
proof -
  let ?s = "fmupd ''a:5|0;b'' \<lparr>ac_Balance = 9, ac_Nonce = 0\<rparr> fmempty"
  let ?t = "fmupd ''b'' \<lparr>ac_Balance = 9, ac_Nonce = 0\<rparr> (fmupd ''a'' \<lparr>ac_Balance = 5, ac_Nonce = 0\<rparr> fmempty)"
  have "state_text ?s = state_text ?t"
    by (simp add: state_text_def state_entry_def small_numerals)
  moreover have at: "account_at ?s ''a'' \<noteq> account_at ?t ''a''" "account_at ?s ''b'' \<noteq> account_at ?t ''b''"
    by (simp_all add: zero_account_def)
  moreover from this have "?s \<noteq> ?t" by metis
  moreover have "?s \<noteq> fmempty" "?t \<noteq> fmempty" by (metis fmlookup_dom_iff fmupd_lookup fmempty_lookup option.discI)+
  ultimately show ?thesis
    by (intro exI [of _ ?s] exI [of _ ?t]) (simp add: StateRoot_def)
qed

text \<open>
  A block's signature covers half of its hash.  \<open>SignBlock\<close> signs the 64 bytes of the hash's
  hexadecimal text, of which ECDSA over P-256 reads the leftmost 32; so a signature on one block is
  accepted on every block whose hash starts with the same 32 hexadecimal digits (128 bits), under the
  same public key.
\<close>

theorem block_signature_covers_half:
  assumes "ecdsa_truncates G" "VerifyBlockSignature G b pk = None"
    and "take 32 (hash_of_block G b') = take 32 (hash_of_block G b)"
  shows "VerifyBlockSignature G (b'\<lparr>b_Signature := b_Signature b, b_Hash := hash_of_block G b'\<rparr>) pk = None"
proof -
  have "VerifyASN1 G P (str_bytes (hash_of_block G b')) s = VerifyASN1 G P (str_bytes (hash_of_block G b)) s" for P s
  proof -
    have "take 32 (str_bytes (hash_of_block G b')) = take 32 (str_bytes (hash_of_block G b))"
      using assms(3) by (simp add: str_bytes_def take_map)
    with assms(1) show ?thesis unfolding ecdsa_truncates_def by metis
  qed
  with assms(2) show ?thesis by (auto simp: VerifyBlockSignature_None)
qed

definition demo_block :: "u64 \<Rightarrow> Block" where
  "demo_block n = (let b = zero_block\<lparr>b_Index := n\<rparr> in
     b\<lparr>b_Signature := 7 # take 32 (str_bytes (hash_of_block demo_lib b)),
       b_Hash := hash_of_block demo_lib b\<rparr>)"

lemma demo_block_verifies: "VerifyBlockSignature demo_lib (demo_block n) (hexEncode demo_pub) = None"
  using SignBlock_verifies [OF demo_ecdsa_correct _ ecMarshal_demo, of 0 "zero_block\<lparr>b_Index := n\<rparr>" "demo_block n"]
  by (simp add: SignBlock_def demo_block_def Let_def)

lemma take_sum_hex_demo: "take 32 (sum_hex demo_lib bs) = replicate 32 (CHR ''0'')"
  by (simp add: sum_hex_demo)

theorem block_signature_covers_half_witness:
  "VerifyBlockSignature demo_lib (demo_block 2\<lparr>b_Signature := b_Signature (demo_block 1),
      b_Hash := hash_of_block demo_lib (demo_block 2)\<rparr>) (hexEncode demo_pub) = None \<and>
    hash_of_block demo_lib (demo_block 2) \<noteq> hash_of_block demo_lib (demo_block 1)"
  using block_signature_covers_half [OF demo_ecdsa_truncates demo_block_verifies [of 1], of "demo_block 2"]
  by (simp add: HashBlock_def take_sum_hex_demo)
    (simp add: sum_hex_demo demo_block_def zero_block_def block_text_def FormatUint_def dec.simps
      hex_byte_def hex_digits_def byte_of_def char_of_def Let_def)

text \<open>
  A block's hash commits to its header.  When the hexadecimal header fields hold no bar and
  SHA-256 does not collide on the two header texts, two blocks with the same hash have the same
  index, parent, slot, tick, validator, transaction root, state root and proof-of-history hash, whatever
  characters the validators' names hold.
\<close>

theorem HashBlock_commits:
  assumes "no_bar (b_PrevHash a)" "no_bar (b_PrevHash b)" "no_bar (b_TxRoot a)" "no_bar (b_TxRoot b)"
    "no_bar (b_StateRoot a)" "no_bar (b_StateRoot b)" "no_bar (b_PoHHash a)" "no_bar (b_PoHHash b)"
    and "inj_on (Sum256 G) {str_bytes (text_of_block a), str_bytes (text_of_block b)}"
    and "hash_of_block G a = hash_of_block G b"
  shows "b_Index a = b_Index b \<and> b_PrevHash a = b_PrevHash b \<and> b_Slot a = b_Slot b \<and>
    b_Tick a = b_Tick b \<and> b_Validator a = b_Validator b \<and> b_TxRoot a = b_TxRoot b \<and>
    b_StateRoot a = b_StateRoot b \<and> b_PoHHash a = b_PoHHash b"
proof -
  from assms(9,10) have "text_of_block a = text_of_block b"
    by (simp add: HashBlock_def sum_hex_eq)
  then show ?thesis by (rule block_text_determines [OF assms(1-8)])
qed

theorem HashBlock_commits_witness:
  "hash_of_block demo_lib (demo_block 2) \<noteq> hash_of_block demo_lib (demo_block 1)"
proof
  assume eq: "hash_of_block demo_lib (demo_block 2) = hash_of_block demo_lib (demo_block 1)"
  have "hd (text_of_block (demo_block n)) = hd (FormatUint n)" for n
    by (simp add: block_text_def demo_block_def Let_def FormatUint_def)
  then have "sample (str_bytes (text_of_block (demo_block 1))) 0 = byte_of (CHR ''1'')"
    "sample (str_bytes (text_of_block (demo_block 2))) 0 = byte_of (CHR ''2'')"
    by (intro sample_first; simp add: small_numerals block_text_def)+
  then have "sum_hex demo_lib (str_bytes (text_of_block (demo_block 1))) \<noteq>
      sum_hex demo_lib (str_bytes (text_of_block (demo_block 2)))"
    by (simp add: sum_hex_demo hex_byte_def hex_digits_def byte_of_def)
  then have "inj_on (Sum256 demo_lib)
      {str_bytes (text_of_block (demo_block 2)), str_bytes (text_of_block (demo_block 1))}"
    by (auto simp: sum_hex_def)
  from HashBlock_commits [OF _ _ _ _ _ _ _ _ this eq] show False
    by (simp add: demo_block_def zero_block_def no_bar_def Let_def)
qed

text \<open>
  A new wallet is consistent.  Its address is the address of its public key, its public key is the
  hexadecimal form of its private key's point, and what it signs carries this address and
  public key; \<open>NewWallet\<close> fails only when the key generator fails.
\<close>

theorem NewWallet_consistent:
  assumes "ecdsa_correct G" "\<forall>e. GenerateKey G rnd \<noteq> Inl e"
  shows "\<exists>w. NewWallet G rnd = Inr w \<and> GenerateKey G rnd = Inr (w_PrivateKey w) \<and>
    AddressFromPubKey G (w_PublicKey w) = Inr (w_Address w) \<and>
    (\<forall>r tx t. SignTransaction G r (w_PrivateKey w) (Some tx) = (Some t, None) \<longrightarrow>
      tx_From t = w_Address w \<and> tx_PubKey t = w_PublicKey w \<and> VerifyTransactionSignature G t = None)"
proof -
  from assms(2) obtain k where k: "GenerateKey G rnd = Inr k"
    by (cases "GenerateKey G rnd") auto
  then have gen: "generated_key G k" by (auto simp: generated_key_def)
  obtain pub where pub: "ecMarshal (pub_point k) = Inr pub"
    using ecMarshal_generated [OF assms(1) gen] by blast
  let ?w = "\<lparr>w_PrivateKey = k, w_PublicKey = hexEncode pub, w_Address = sum_hex G pub\<rparr>"
  have addr: "AddressFromPubKey G (hexEncode pub) = Inr (sum_hex G pub)"
    by (simp add: AddressFromPubKey_def)
  then have "NewWallet G rnd = Inr ?w" by (simp add: NewWallet_def k pub Let_def)
  moreover have "tx_From t = sum_hex G pub \<and> tx_PubKey t = hexEncode pub \<and> VerifyTransactionSignature G t = None"
    if "SignTransaction G r k (Some tx) = (Some t, None)" for r tx t
    using that SignTransaction_verifies [OF assms(1) gen that]
    by (auto simp: SignTransaction_def pub addr Let_def split: sum.splits)
  ultimately show ?thesis using k addr by (intro exI [of _ ?w]) auto
qed

theorem NewWallet_consistent_witness:
  "\<exists>w. NewWallet demo_lib 0 = Inr w \<and> AddressFromPubKey demo_lib (w_PublicKey w) = Inr (w_Address w)"
  using NewWallet_consistent [OF demo_ecdsa_correct, of 0] by auto

end
