(* ===== verification/PoH.thy ===== *)
theory PoH
  imports Crypto
begin

text \<open>
  \<open>consensus/poh.go\<close>: the proof-of-history clock, a hash chain that advances one digest per tick, and
  the hexadecimal form of its digests.  \<open>poh_chain h lo hi\<close> names the digest that the chain holds at
  tick \<open>hi\<close> when it holds \<open>h\<close> at tick \<open>lo\<close>; ticking and verifying are both stated against it.
\<close>

section \<open>The clock\<close>

record PoH =
  p_CurrentTick :: u64
  p_Hash :: digest

definition TicksPerSecond :: u64 where
  "TicksPerSecond = 50"

definition TicksPerSlot :: u64 where
  "TicksPerSlot = 20"

definition NewPoH :: "digest \<Rightarrow> PoH" where
  "NewPoH seed = \<lparr>p_CurrentTick = 0, p_Hash = seed\<rparr>"

definition HashPoH :: "golib \<Rightarrow> digest \<Rightarrow> u64 \<Rightarrow> digest" where
  "HashPoH G prev tick = Sum256 G (digest_bytes prev @ str_bytes (FormatUint tick))"

definition tick_once :: "golib \<Rightarrow> PoH \<Rightarrow> PoH" where
  \<comment> \<open>the body of the loop in \<open>Tick\<close>\<close>
  "tick_once G p = (let p = p\<lparr>p_CurrentTick := p_CurrentTick p + 1\<rparr>
     in p\<lparr>p_Hash := HashPoH G (p_Hash p) (p_CurrentTick p)\<rparr>)"

definition Tick :: "golib \<Rightarrow> PoH \<Rightarrow> u64 \<Rightarrow> PoH \<times> digest \<times> u64" where
  "Tick G p n = (let p = for_less 0 n (\<lambda>i. tick_once G) p in (p, p_Hash p, n))"

definition Slot :: "PoH \<Rightarrow> u64" where
  "Slot p = p_CurrentTick p div TicksPerSlot"

definition HashPoHSeed :: "golib \<Rightarrow> i64 \<Rightarrow> digest" where
  "HashPoHSeed G nonce = Sum256 G (str_bytes (''poh|'' @ Itoa nonce))"

definition PoHHashHex :: "digest \<Rightarrow> string" where
  "PoHHashHex h = hexEncode (digest_bytes h)"

definition ParsePoHHashHex :: "string \<Rightarrow> digest result" where
  "ParsePoHHashHex s =
    (case hexDecode s of
      Inl e \<Rightarrow> Inl e
    | Inr raw \<Rightarrow>
      (if length raw \<noteq> 32 then Inl (ErrNew ''invalid poh hash length'') else Inr (Digest raw)))"

section \<open>The hash chain\<close>

definition poh_chain :: "golib \<Rightarrow> digest \<Rightarrow> u64 \<Rightarrow> u64 \<Rightarrow> digest" where
  "poh_chain G h lo hi = fold (\<lambda>n h. HashPoH G h (word_of_nat n)) [Suc (unat lo) ..< Suc (unat hi)] h"

lemma poh_chain_refl [simp]: "poh_chain G h t t = h"
  by (simp add: poh_chain_def)

lemma poh_chain_trans:
  assumes "lo \<le> mid" "mid \<le> hi"
  shows "poh_chain G (poh_chain G h lo mid) mid hi = poh_chain G h lo hi"
proof -
  have "[Suc (unat lo) ..< Suc (unat hi)] = [Suc (unat lo) ..< Suc (unat mid)] @ [Suc (unat mid) ..< Suc (unat hi)]"
    using assms upt_add_eq_append [of "Suc (unat lo)" "Suc (unat mid)" "unat hi - unat mid"]
    by (simp add: word_le_nat_alt del: upt_Suc)
  then show ?thesis by (simp add: poh_chain_def del: upt_Suc)
qed

lemma poh_chain_slots:
  assumes "lo < hi"
  shows "poh_chain G h lo hi = fold (\<lambda>t h. HashPoH G h t) (slots_between (lo + 1) hi) h"
  using unat_Suc_64 [OF assms]
  by (simp add: poh_chain_def slots_between_def fold_map o_def del: upt_Suc)

lemma poh_chain_step: "t \<noteq> - 1 \<Longrightarrow> poh_chain G h t (t + 1) = HashPoH G h (t + 1)"
  using poh_chain_slots [OF less_plus_one_64, of t G h] by (simp add: slots_between_Cons)

lemma fold_const_upt: "fold (\<lambda>i. f) [0..<n] s = (f ^^ n) s"
  by (induction n) auto

lemma Tick_power: "Tick G p n = (let q = (tick_once G ^^ unat n) p in (q, p_Hash q, n))"
  by (simp add: Tick_def for_less_fold fold_const_upt)

lemma tick_power:
  assumes "unat (p_CurrentTick p) + n < 2 ^ 64"
  shows "(tick_once G ^^ n) p = p\<lparr>p_CurrentTick := p_CurrentTick p + word_of_nat n,
    p_Hash := poh_chain G (p_Hash p) (p_CurrentTick p) (p_CurrentTick p + word_of_nat n)\<rparr>"
  using assms
proof (induction n)
  case 0
  show ?case by simp
next
  case (Suc n)
  let ?t = "p_CurrentTick p" and ?w = "\<lambda>n. p_CurrentTick p + word_of_nat n"
  have at: "unat (?w k) = unat ?t + k" if "unat ?t + k < 2 ^ 64" for k
  proof -
    have "unat (word_of_nat k :: u64) = k" using that by (simp add: unat_of_nat)
    with that show ?thesis by (simp add: unat_word_ariths)
  qed
  have next_tick: "?w n + 1 = ?w (Suc n)" by simp
  have "?w n \<le> ?w (Suc n)" "?t \<le> ?w n"
    using at [of n] at [of "Suc n"] Suc.prems by (simp_all add: word_le_nat_alt)
  moreover have "poh_chain G h (?w n) (?w (Suc n)) = HashPoH G h (?w (Suc n))" for h
  proof -
    have "unat (?w n) < 2 ^ 64 - 1" using at [of n] Suc.prems by simp
    then have "?w n \<noteq> - 1" by (auto simp: unsigned_minus_1_eq_mask mask_eq_exp_minus_1)
    then show ?thesis using poh_chain_step [of "?w n" G h] by (simp add: next_tick)
  qed
  ultimately have "poh_chain G (p_Hash p) ?t (?w (Suc n)) =
      HashPoH G (poh_chain G (p_Hash p) ?t (?w n)) (?w (Suc n))"
    using poh_chain_trans [of ?t "?w n" "?w (Suc n)" G "p_Hash p"] by simp
  with Suc next_tick show ?case
    by (simp add: tick_once_def Let_def add.commute add.left_commute)
qed

lemma Tick_add:
  assumes "unat m + unat n < 2 ^ 64"
  shows "fst (Tick G p (m + n)) = fst (Tick G (fst (Tick G p m)) n)"
proof -
  have "unat (m + n) = unat n + unat m" using assms by (simp add: unat_word_ariths)
  then show ?thesis by (simp add: Tick_power Let_def funpow_add)
qed

lemma TicksPerSlot_pos [simp]: "TicksPerSlot \<noteq> 0" "unat TicksPerSlot = 20"
  by (simp_all add: TicksPerSlot_def)

lemma unat_Slot: "unat (Slot p) = unat (p_CurrentTick p) div 20"
  by (simp add: Slot_def unat_div_distrib)

lemma ParsePoHHashHex_Inr:
  "ParsePoHHashHex s = Inr h \<longleftrightarrow> hexDecode s = Inr (digest_bytes h)"
  by (auto simp: ParsePoHHashHex_def split: sum.splits)

lemma ParsePoHHashHex_print [simp]: "ParsePoHHashHex (PoHHashHex h) = Inr h"
  by (simp add: ParsePoHHashHex_Inr PoHHashHex_def)

section \<open>Properties\<close>

text \<open>
  \<open>Tick n\<close> ends for every \<open>n\<close> and advances the clock by \<open>n\<close> links of the hash chain: the tick
  counter grows by \<open>n\<close>, the hash is the chain's digest at the new tick, and the returned pair is that
  hash and \<open>n\<close>.  Ticking \<open>m\<close> and then \<open>n\<close> is ticking \<open>m + n\<close>.  (The counter must not pass
  \<open>2^64 - 1\<close>.)
\<close>

theorem Tick_advances:
  assumes "unat (p_CurrentTick p) + unat m + unat n < 2 ^ 64"
  shows "Tick G p n = (p\<lparr>p_CurrentTick := p_CurrentTick p + n,
      p_Hash := poh_chain G (p_Hash p) (p_CurrentTick p) (p_CurrentTick p + n)\<rparr>,
      poh_chain G (p_Hash p) (p_CurrentTick p) (p_CurrentTick p + n), n) \<and>
    fst (Tick G p (m + n)) = fst (Tick G (fst (Tick G p m)) n)"
proof -
  have "unat (p_CurrentTick p) + unat n < 2 ^ 64" using assms by simp
  from tick_power [OF this] have "Tick G p n = (p\<lparr>p_CurrentTick := p_CurrentTick p + n,
      p_Hash := poh_chain G (p_Hash p) (p_CurrentTick p) (p_CurrentTick p + n)\<rparr>,
      poh_chain G (p_Hash p) (p_CurrentTick p) (p_CurrentTick p + n), n)"
    unfolding Tick_power word_of_unat by (simp add: Let_def)
  moreover have "fst (Tick G p (m + n)) = fst (Tick G (fst (Tick G p m)) n)"
    using assms by (intro Tick_add) simp
  ultimately show ?thesis by blast
qed

theorem Tick_advances_witness:
  "fst (Tick demo_lib (NewPoH (HashPoHSeed demo_lib 3)) (2 + 1)) =
    fst (Tick demo_lib (fst (Tick demo_lib (NewPoH (HashPoHSeed demo_lib 3)) 2)) 1)"
  by (rule Tick_advances [THEN conjunct2]) (simp add: NewPoH_def)

text \<open>
  The clock's hash survives its hexadecimal form, and \<open>ParsePoHHashHex\<close> accepts exactly the
  strings that decode to 32 bytes: a hexadecimal text of another length is rejected with the error for
  the length, and any other text with the decoder's error.
\<close>

theorem PoHHashHex_roundtrip:
  "ParsePoHHashHex (PoHHashHex h) = Inr h \<and>
    (ParsePoHHashHex s = Inr h \<longleftrightarrow> hexDecode s = Inr (digest_bytes h)) \<and>
    (ParsePoHHashHex s = Inl e \<longleftrightarrow> hexDecode s = Inl e \<or>
      e = ErrNew ''invalid poh hash length'' \<and> (\<exists>raw. hexDecode s = Inr raw \<and> length raw \<noteq> 32))"
proof (intro conjI)
  show "ParsePoHHashHex (PoHHashHex h) = Inr h"
    by (simp add: ParsePoHHashHex_def PoHHashHex_def)
  show "ParsePoHHashHex s = Inr h \<longleftrightarrow> hexDecode s = Inr (digest_bytes h)"
    by (rule ParsePoHHashHex_Inr)
  show "ParsePoHHashHex s = Inl e \<longleftrightarrow> hexDecode s = Inl e \<or>
      e = ErrNew ''invalid poh hash length'' \<and> (\<exists>raw. hexDecode s = Inr raw \<and> length raw \<noteq> 32)"
    by (auto simp: ParsePoHHashHex_def split: sum.splits)
qed

end
