(* ===== verification/PoS.thy ===== *)
theory PoS
  imports PoH
begin

text \<open>
  \<open>consensus/pos.go\<close>: the registry of validators with its operations (adding, staking, unstaking,
  rewarding, slashing), jailing, and the two elections of a slot's leader.  A validator is a pointer in
  the code, held only by the registry, so updating it is updating its map entry.

  The registry operations share a contract, the locale \<open>registry_op\<close>; the two elections share another,
  the locale \<open>stake_lottery\<close>: the draw picks a name by its share of the stake.
\<close>

section \<open>Constants\<close>

definition MinStake :: i64 where "MinStake = 10"
definition BlockReward :: i64 where "BlockReward = 1"
definition SlashPenalty :: i64 where "SlashPenalty = 5"
definition SlashPercent :: i64 where "SlashPercent = 2"
definition MaxMissedSlots :: u64 where "MaxMissedSlots = 3"
definition SlotsPerEpoch :: u64 where "SlotsPerEpoch = 50"
definition JailEpochs :: u64 where "JailEpochs = 2"

lemmas pos_consts = MinStake_def BlockReward_def SlashPenalty_def SlashPercent_def
  MaxMissedSlots_def SlotsPerEpoch_def JailEpochs_def

section \<open>Registry operations\<close>

text \<open>\<open>stats\<close> is \<open>None\<close> for a nil map.\<close>

definition AddValidator :: "validators \<Rightarrow> stats_map option \<Rightarrow> string \<Rightarrow> i64 \<Rightarrow> string \<Rightarrow> PrivateKey option
    \<Rightarrow> (validators \<times> stats_map option) \<times> failure" where
  "AddValidator vs stats name stake pubKey priv =
    (if name = [] then ((vs, stats), Some (ErrNew ''validator name is required''))
     else if stake \<le>s 0 then ((vs, stats), Some (ErrNew ''stake must be positive''))
     else if pubKey = [] then ((vs, stats), Some (ErrNew ''validator pubkey is required''))
     else case fmlookup vs name of
       None \<Rightarrow>
         (if stake <s MinStake then ((vs, stats), Some (ErrNew ''stake below minimum''))
          else ((fmupd name \<lparr>v_Name = name, v_Stake = stake, v_PubKey = pubKey, v_PrivKey = priv,
                   v_LastSlot = 0\<rparr> vs,
                 case stats of
                   None \<Rightarrow> None
                 | Some st \<Rightarrow> (case fmlookup st name of
                     None \<Rightarrow> Some (fmupd name zero_stats st)
                   | Some _ \<Rightarrow> Some st)), None))
     | Some v \<Rightarrow>
        (let v = v\<lparr>v_Stake := v_Stake v + stake\<rparr>;
             v = (if v_PubKey v = [] then v\<lparr>v_PubKey := pubKey\<rparr> else v);
             v = (if v_PrivKey v = None then v\<lparr>v_PrivKey := priv\<rparr> else v)
         in ((fmupd name v vs, stats), None)))"

definition AddStake :: "validators \<Rightarrow> string \<Rightarrow> i64 \<Rightarrow> validators \<times> failure" where
  "AddStake vs name amount =
    (if amount \<le>s 0 then (vs, Some (ErrNew ''stake amount must be positive''))
     else case fmlookup vs name of
       None \<Rightarrow> (vs, Some (ErrNew ''validator not found''))
     | Some v \<Rightarrow> (fmupd name (v\<lparr>v_Stake := v_Stake v + amount\<rparr>) vs, None))"

definition Unstake :: "validators \<Rightarrow> string \<Rightarrow> i64 \<Rightarrow> validators \<times> failure" where
  "Unstake vs name amount =
    (if amount \<le>s 0 then (vs, Some (ErrNew ''unstake amount must be positive''))
     else case fmlookup vs name of
       None \<Rightarrow> (vs, Some (ErrNew ''validator not found''))
     | Some v \<Rightarrow>
       (if v_Stake v <s amount then (vs, Some (ErrNew ''unstake exceeds stake''))
        else let newStake = v_Stake v - amount in
          if 0 <s newStake \<and> newStake <s MinStake then (vs, Some (ErrNew ''stake below minimum''))
          else if newStake = 0 then (fmdrop name vs, None)
          else (fmupd name (v\<lparr>v_Stake := newStake\<rparr>) vs, None)))"

definition RewardValidator :: "validators \<Rightarrow> string \<Rightarrow> validators" where
  "RewardValidator vs name =
    (case fmlookup vs name of
      None \<Rightarrow> vs
    | Some v \<Rightarrow> fmupd name (v\<lparr>v_Stake := v_Stake v + BlockReward\<rparr>) vs)"

definition SlashValidator :: "validators \<Rightarrow> string \<Rightarrow> i64 \<Rightarrow> validators" where
  "SlashValidator vs name amount =
    (if amount \<le>s 0 then vs
     else case fmlookup vs name of
       None \<Rightarrow> vs
     | Some v \<Rightarrow>
       (if v_Stake v \<le>s amount then fmdrop name vs
        else let v = v\<lparr>v_Stake := v_Stake v - amount\<rparr> in
          if v_Stake v <s MinStake then fmdrop name (fmupd name v vs) else fmupd name v vs))"

definition SlashValidatorPercent :: "validators \<Rightarrow> string \<Rightarrow> i64 \<Rightarrow> validators" where
  "SlashValidatorPercent vs name percent =
    (if percent \<le>s 0 then vs
     else case fmlookup vs name of
       None \<Rightarrow> vs
     | Some v \<Rightarrow>
       (let amount = go_div (v_Stake v * percent) 100;
            amount = (if amount = 0 then 1 else amount)
        in SlashValidator vs name amount))"

section \<open>Leader election\<close>

definition IsJailed :: "stats_map option \<Rightarrow> string \<Rightarrow> u64 \<Rightarrow> bool" where
  "IsJailed stats name slot =
    (case stats of
      None \<Rightarrow> False
    | Some st \<Rightarrow>
      (case fmlookup st name of
        None \<Rightarrow> False
      | Some s \<Rightarrow> slot div SlotsPerEpoch < vs_JailedUntilEpoch s))"

definition slot_number :: "golib \<Rightarrow> u64 \<Rightarrow> u64" where
  \<comment> \<open>the \<open>n\<close> of \<open>deterministicDraw\<close>\<close>
  "slot_number G slot = uint64LE (take 8 (digest_bytes (Sum256 G (putUint64LE slot))))"

definition deterministicDraw :: "golib \<Rightarrow> u64 \<Rightarrow> i64 \<Rightarrow> i64" where
  "deterministicDraw G slot limit = slot_number G slot mod limit"

definition sortedValidatorNames :: "validators \<Rightarrow> string list" where
  "sortedValidatorNames m = keys_of m"

definition sortedStakeNames :: "stakes \<Rightarrow> string list" where
  "sortedStakeNames m = keys_of m"

definition may_lead :: "stats_map option \<Rightarrow> u64 \<Rightarrow> Validator \<Rightarrow> bool" where
  \<comment> \<open>neither of the two \<open>continue\<close>s is taken\<close>
  "may_lead stats slot v \<longleftrightarrow> \<not> v_Stake v <s MinStake \<and> \<not> IsJailed stats (v_Name v) slot"

primrec leader_scan :: "stats_map option \<Rightarrow> u64 \<Rightarrow> validators \<Rightarrow> i64 \<Rightarrow> i64 \<Rightarrow> string list \<Rightarrow> string" where
  "leader_scan stats slot vs draw running [] = ''genesis''"
| "leader_scan stats slot vs draw running (name # names) =
    (let v = the (fmlookup vs name) in
     if \<not> may_lead stats slot v then leader_scan stats slot vs draw running names
     else let running = running + v_Stake v in
       if draw <s running then name else leader_scan stats slot vs draw running names)"

definition DeterministicLeader :: "golib \<Rightarrow> u64 \<Rightarrow> validators \<Rightarrow> stats_map option \<Rightarrow> string" where
  "DeterministicLeader G slot vs stats =
    (let totalStake = range_loop (\<lambda>name v t. if \<not> may_lead stats slot v then t else t + v_Stake v) vs 0 in
     if totalStake = 0 then ''genesis''
     else leader_scan stats slot vs (deterministicDraw G slot totalStake) 0 (sortedValidatorNames vs))"

primrec snapshot_scan :: "stakes \<Rightarrow> i64 \<Rightarrow> u64 \<Rightarrow> string list \<Rightarrow> string" where
  "snapshot_scan stakes draw running [] = ''genesis''"
| "snapshot_scan stakes draw running (name # names) =
    (let running = running + get_or 0 stakes name in
     if draw < running then name else snapshot_scan stakes draw running names)"

definition LeaderFromSnapshot :: "golib \<Rightarrow> u64 \<Rightarrow> stakes \<Rightarrow> string" where
  "LeaderFromSnapshot G slot stakes =
    (let totalStake = range_loop (\<lambda>name stake t. t + stake) stakes 0 in
     if totalStake = 0 then ''genesis''
     else snapshot_scan stakes (deterministicDraw G slot totalStake) 0 (sortedStakeNames stakes))"

section \<open>The registry\<close>

definition validators_ok :: "validators \<Rightarrow> bool" where
  "validators_ok vs \<longleftrightarrow> (\<forall>n v. fmlookup vs n = Some v \<longrightarrow>
     n \<noteq> [] \<and> v_Name v = n \<and> v_PubKey v \<noteq> [] \<and> sint MinStake \<le> sint (v_Stake v))"

lemma validators_okD:
  assumes "validators_ok vs" "fmlookup vs n = Some v"
  shows "n \<noteq> []" "v_Name v = n" "v_PubKey v \<noteq> []" "sint MinStake \<le> sint (v_Stake v)"
  using assms by (auto simp: validators_ok_def)

lemma validators_ok_empty [simp]: "validators_ok fmempty"
  by (simp add: validators_ok_def)

lemma validators_ok_drop [simp]: "validators_ok vs \<Longrightarrow> validators_ok (fmdrop n vs)"
  by (auto simp: validators_ok_def)

lemma validators_ok_upd:
  "validators_ok vs \<Longrightarrow> n \<noteq> [] \<Longrightarrow> v_Name v = n \<Longrightarrow> v_PubKey v \<noteq> [] \<Longrightarrow>
    sint MinStake \<le> sint (v_Stake v) \<Longrightarrow> validators_ok (fmupd n v vs)"
  by (auto simp: validators_ok_def)

lemma validators_ok_restake:
  "validators_ok vs \<Longrightarrow> fmlookup vs n = Some v \<Longrightarrow> sint MinStake \<le> sint s \<Longrightarrow>
    validators_ok (fmupd n (v\<lparr>v_Stake := s\<rparr>) vs)"
  by (rule validators_ok_upd) (auto dest: validators_okD)

lemma sint_MinStake [simp]: "sint MinStake = 10"
  by (simp add: MinStake_def)

text \<open>
  A penalty touches one entry, which it removes or whose stake it lowers, and it keeps the registry's
  invariant.
\<close>

definition lowered :: "Validator option \<Rightarrow> Validator option \<Rightarrow> bool" where
  "lowered old new \<longleftrightarrow> (case new of
      None \<Rightarrow> True
    | Some v' \<Rightarrow> (case old of
        None \<Rightarrow> False
      | Some v \<Rightarrow> (\<exists>s. v' = v\<lparr>v_Stake := s\<rparr> \<and> sint s \<le> sint (v_Stake v))))"

lemma lowered_refl [simp]: "lowered v v"
  by (cases v) (auto simp: lowered_def intro!: exI)

lemma lowered_trans: "lowered a b \<Longrightarrow> lowered b c \<Longrightarrow> lowered a c"
  by (fastforce simp: lowered_def split: option.splits)

text \<open>
  \<open>registry_from vs vs'\<close>: every validator of \<open>vs'\<close> is in \<open>vs\<close> with the same name and the same keys.
  \<open>registered vs\<close>: every validator is filed under its own name and has a public key.
\<close>

definition registry_from :: "validators \<Rightarrow> validators \<Rightarrow> bool" where
  "registry_from vs vs' \<longleftrightarrow> (\<forall>n v'. fmlookup vs' n = Some v' \<longrightarrow> (\<exists>v. fmlookup vs n = Some v \<and>
     v_Name v' = v_Name v \<and> v_PubKey v' = v_PubKey v \<and> v_PrivKey v' = v_PrivKey v))"

definition registered :: "validators \<Rightarrow> bool" where
  "registered vs \<longleftrightarrow> (\<forall>n v. fmlookup vs n = Some v \<longrightarrow> n \<noteq> [] \<and> v_Name v = n \<and> v_PubKey v \<noteq> [])"

lemma registry_from_refl [simp]: "registry_from vs vs"
  by (simp add: registry_from_def)

lemma registry_from_trans: "registry_from a b \<Longrightarrow> registry_from b c \<Longrightarrow> registry_from a c"
  unfolding registry_from_def by metis

lemma registered_from: "registry_from vs vs' \<Longrightarrow> registered vs \<Longrightarrow> registered vs'"
  unfolding registry_from_def registered_def by metis

lemma registry_from_drop [simp]: "registry_from vs (fmdrop n vs)"
  by (simp add: registry_from_def)

lemma registry_from_restake: "fmlookup vs n = Some v \<Longrightarrow> registry_from vs (fmupd n (v\<lparr>v_Stake := s\<rparr>) vs)"
  by (simp add: registry_from_def)

lemma registry_from_SlashValidator: "registry_from vs (SlashValidator vs n amount)"
  by (auto simp: SlashValidator_def Let_def registry_from_def split: option.splits if_splits)

lemma registry_from_SlashValidatorPercent: "registry_from vs (SlashValidatorPercent vs n percent)"
  by (simp add: SlashValidatorPercent_def Let_def registry_from_SlashValidator split: option.split)

lemma registry_from_RewardValidator: "registry_from vs (RewardValidator vs n)"
  by (simp add: RewardValidator_def registry_from_restake split: option.split)

lemma registered_empty [simp]: "registered fmempty"
  by (simp add: registered_def)

lemma registered_Nil: "registered vs \<Longrightarrow> fmlookup vs [] = None"
  by (cases "fmlookup vs []") (auto simp: registered_def)

lemma registered_AddValidator: "AddValidator vs stats name stake pub priv = ((vs', stats'), err) \<Longrightarrow> registered vs \<Longrightarrow> registered vs'"
  using registered_Nil [of vs] by (auto simp: AddValidator_def registered_def Let_def split: option.splits if_splits)

lemmas registry_froms = registry_from_SlashValidator registry_from_SlashValidatorPercent registry_from_RewardValidator

locale registry_op =
  fixes op :: "validators \<Rightarrow> string \<Rightarrow> validators"
  assumes op_frame: "m \<noteq> n \<Longrightarrow> fmlookup (op vs n) m = fmlookup vs m"
    and op_lowers: "validators_ok vs \<Longrightarrow> lowered (fmlookup vs n) (fmlookup (op vs n) n)"
    and op_ok: "validators_ok vs \<Longrightarrow> validators_ok (op vs n)"
begin

lemma lowers: "validators_ok vs \<Longrightarrow> lowered (fmlookup vs m) (fmlookup (op vs n) m)"
  using op_frame op_lowers by (cases "m = n") auto

lemma all_ok: "validators_ok vs \<Longrightarrow> validators_ok (fold (\<lambda>n vs. op vs n) ns vs)"
  by (induction ns arbitrary: vs) (auto intro: op_ok)

lemma all_lower: "validators_ok vs \<Longrightarrow> lowered (fmlookup vs m) (fmlookup (fold (\<lambda>n vs. op vs n) ns vs) m)"
proof (induction ns arbitrary: vs)
  case Nil
  show ?case by simp
next
  case (Cons n ns)
  then show ?case
    using lowers [of vs m n] op_ok [of vs n] by (auto intro: lowered_trans)
qed

lemma unaffected: "m \<notin> set ns \<Longrightarrow> fmlookup (fold (\<lambda>n vs. op vs n) ns vs) m = fmlookup vs m"
  by (induction ns arbitrary: vs) (auto simp: op_frame)

end

lemma SlashValidator_at:
  assumes "validators_ok vs" "fmlookup vs n = Some v" "0 <s amount"
  shows "SlashValidator vs n amount =
    (if sint (v_Stake v) - sint amount < sint MinStake then fmdrop n vs
     else fmupd n (v\<lparr>v_Stake := v_Stake v - amount\<rparr>) vs)"
proof -
  have stake: "10 \<le> sint (v_Stake v)" using validators_okD(4) [OF assms(1,2)] by simp
  have amount: "0 < sint amount" using assms(3) by (simp add: word_sless_alt)
  have drop_upd: "fmdrop n (fmupd n w vs) = fmdrop n vs" for w by (rule fmap_ext) auto
  show ?thesis
  proof (cases "sint (v_Stake v) \<le> sint amount")
    case True
    with assms amount show ?thesis
      by (simp add: SlashValidator_def word_sle_eq)
  next
    case False
    with stake amount have "in_range (sint (v_Stake v) - sint amount)"
      using sint_lt [of "v_Stake v"] by (simp add: in_range_def)
    then have "sint (v_Stake v - amount) = sint (v_Stake v) - sint amount" by (rule sint_sub64)
    with False assms amount show ?thesis
      by (simp add: SlashValidator_def word_sle_eq word_sless_alt Let_def drop_upd)
  qed
qed

lemma SlashValidator_noop:
  "amount \<le>s 0 \<or> fmlookup vs n = None \<Longrightarrow> SlashValidator vs n amount = vs"
  by (auto simp: SlashValidator_def)

lemma SlashValidator_lowers:
  assumes "validators_ok vs"
  shows "lowered (fmlookup vs n) (fmlookup (SlashValidator vs n amount) n) \<and>
    validators_ok (SlashValidator vs n amount)"
proof (cases "amount \<le>s 0 \<or> fmlookup vs n = None")
  case True
  with assms show ?thesis by (simp add: SlashValidator_noop)
next
  case False
  then obtain v where v: "fmlookup vs n = Some v" and pos: "0 <s amount"
    by (auto simp: word_sle_eq word_sless_alt)
  note at = SlashValidator_at [OF assms v pos]
  show ?thesis
  proof (cases "sint (v_Stake v) - sint amount < sint MinStake")
    case True
    with at assms show ?thesis by (simp add: lowered_def)
  next
    case False
    have pos': "0 < sint amount" using pos by (simp add: word_sless_alt)
    with False have "sint (v_Stake v - amount) = sint (v_Stake v) - sint amount"
      using sint_lt [of "v_Stake v"] by (intro sint_sub64) (simp add: in_range_def)
    with False pos' at v assms show ?thesis
      by (auto simp: lowered_def intro: validators_ok_restake)
  qed
qed

lemma SlashValidator_frame: "m \<noteq> n \<Longrightarrow> fmlookup (SlashValidator vs n amount) m = fmlookup vs m"
  by (auto simp: SlashValidator_def Let_def split: option.splits)

interpretation slash: registry_op "\<lambda>vs n. SlashValidator vs n amount" for amount
  by unfold_locales (simp_all add: SlashValidator_lowers SlashValidator_frame)

lemma SlashValidatorPercent_is: "\<exists>amount. SlashValidatorPercent vs n percent = SlashValidator vs n amount"
proof (cases "percent \<le>s 0 \<or> fmlookup vs n = None")
  case True
  then have "SlashValidatorPercent vs n percent = SlashValidator vs n 0"
    by (auto simp: SlashValidatorPercent_def SlashValidator_noop)
  then show ?thesis ..
next
  case False
  then show ?thesis by (auto simp: SlashValidatorPercent_def Let_def)
qed

interpretation slash_percent: registry_op "\<lambda>vs n. SlashValidatorPercent vs n percent" for percent
proof
  fix vs :: validators and m n :: string
  obtain amount where "SlashValidatorPercent vs n percent = SlashValidator vs n amount"
    using SlashValidatorPercent_is by blast
  then show "m \<noteq> n \<Longrightarrow> fmlookup (SlashValidatorPercent vs n percent) m = fmlookup vs m"
    "validators_ok vs \<Longrightarrow> lowered (fmlookup vs n) (fmlookup (SlashValidatorPercent vs n percent) n)"
    "validators_ok vs \<Longrightarrow> validators_ok (SlashValidatorPercent vs n percent)"
    by (simp_all add: SlashValidator_frame SlashValidator_lowers)
qed

section \<open>The lottery\<close>

text \<open>
  A lottery over \<open>names x\<close>: the draws below the total go to the names in order, as many to each as its
  weight.
\<close>

definition stake_upto :: "('n \<Rightarrow> nat) \<Rightarrow> 'n list \<Rightarrow> nat" where
  "stake_upto w ns = sum_list (map w ns)"

lemma stake_upto_simps [simp]:
  "stake_upto w [] = 0" "stake_upto w (n # ns) = w n + stake_upto w ns"
  "stake_upto w (ms @ ns) = stake_upto w ms + stake_upto w ns"
  by (simp_all add: stake_upto_def)

lemma split_at_unique:
  "distinct (as @ n # bs) \<Longrightarrow> as @ n # bs = cs @ n # ds \<Longrightarrow> as = cs \<and> bs = ds"
  by (auto simp: append_eq_append_conv2 append_eq_Cons_conv Cons_eq_append_conv)

locale stake_lottery =
  fixes valid :: "'x \<Rightarrow> bool"
    and names :: "'x \<Rightarrow> string list"
    and weight :: "'x \<Rightarrow> string \<Rightarrow> nat"
    and winner :: "'x \<Rightarrow> nat \<Rightarrow> string"
  assumes distinct_names: "distinct (names x)"
    and winner_interval: "valid x \<Longrightarrow> d < stake_upto (weight x) (names x) \<Longrightarrow>
      \<exists>before n after. names x = before @ n # after \<and> winner x d = n \<and>
        stake_upto (weight x) before \<le> d \<and> d < stake_upto (weight x) before + weight x n"
begin

lemma winner_in: "valid x \<Longrightarrow> d < stake_upto (weight x) (names x) \<Longrightarrow>
    winner x d \<in> set (names x) \<and> 0 < weight x (winner x d)"
  using winner_interval [of x d] by fastforce

lemma winner_iff:
  assumes "valid x" "d < stake_upto (weight x) (names x)" "names x = before @ n # after"
  shows "winner x d = n \<longleftrightarrow>
    stake_upto (weight x) before \<le> d \<and> d < stake_upto (weight x) before + weight x n"
    (is "_ \<longleftrightarrow> ?in before n")
proof -
  from winner_interval [OF assms(1,2)] obtain b m a where
    w: "names x = b @ m # a" "winner x d = m" "?in b m" by blast
  show ?thesis
  proof
    assume "winner x d = n"
    with w have m: "m = n" by simp
    have "distinct (b @ n # a)" "b @ n # a = before @ n # after"
      using distinct_names [of x] w(1) assms(3) m by simp_all
    from split_at_unique [OF this] w(3) m show "?in before n" by simp
  next
    assume here: "?in before n"
    have eq: "b @ (m # a) = before @ (n # after)" using w(1) assms(3) by simp
    then consider us where "b = before @ us" "us @ m # a = n # after"
      | us where "before = b @ us" "m # a = us @ n # after"
      unfolding append_eq_append_conv2 by (metis append_Nil2)
    then show "winner x d = n"
    proof cases
      case 1
      then show ?thesis using w(2,3) here by (cases us) auto
    next
      case 2
      then show ?thesis using w(2,3) here by (cases us) auto
    qed
  qed
qed

lemma winner_share:
  assumes "valid x" "n \<in> set (names x)"
  shows "card {d. d < stake_upto (weight x) (names x) \<and> winner x d = n} = weight x n"
proof -
  from assms(2) obtain before after where ns: "names x = before @ n # after"
    by (meson split_list)
  let ?b = "stake_upto (weight x) before"
  have "{d. d < stake_upto (weight x) (names x) \<and> winner x d = n} = {?b ..< ?b + weight x n}"
  proof (intro set_eqI)
    fix d
    show "d \<in> {d. d < stake_upto (weight x) (names x) \<and> winner x d = n} \<longleftrightarrow>
        d \<in> {?b ..< ?b + weight x n}"
      using winner_iff [OF assms(1) _ ns, of d] by (auto simp: ns)
  qed
  then show ?thesis by simp
qed

end

section \<open>The two elections\<close>

abbreviation stake_weight :: "stakes \<Rightarrow> string \<Rightarrow> nat" where
  "stake_weight m n \<equiv> unat (get_or 0 m n)"

definition total_weight :: "stakes \<Rightarrow> nat" where
  "total_weight m = stake_upto (stake_weight m) (keys_of m)"

lemma snapshot_scan_interval:
  assumes "unat running + stake_upto (stake_weight m) ns < 2 ^ 64"
    and "unat running \<le> unat draw" "unat draw < unat running + stake_upto (stake_weight m) ns"
  shows "\<exists>before n after. ns = before @ n # after \<and> snapshot_scan m draw running ns = n \<and>
    unat running + stake_upto (stake_weight m) before \<le> unat draw \<and>
    unat draw < unat running + stake_upto (stake_weight m) before + stake_weight m n"
  using assms
proof (induction ns arbitrary: running)
  case Nil
  then show ?case by simp
next
  case (Cons n ns)
  let ?r = "running + get_or 0 m n"
  have r: "unat ?r = unat running + stake_weight m n"
    using Cons.prems(1) by (simp add: unat_word_ariths)
  show ?case
  proof (cases "draw < ?r")
    case True
    with Cons.prems(2) r show ?thesis
      by (intro exI [of _ "[]"] exI [of _ n] exI [of _ ns]) (simp add: word_less_nat_alt)
  next
    case False
    then have "unat ?r \<le> unat draw" by (simp add: word_less_nat_alt)
    with Cons.IH [of ?r] Cons.prems r obtain before k after where
      "ns = before @ k # after" "snapshot_scan m draw ?r ns = k"
      "unat ?r + stake_upto (stake_weight m) before \<le> unat draw"
      "unat draw < unat ?r + stake_upto (stake_weight m) before + stake_weight m k"
      by auto
    with False r show ?thesis
      by (intro exI [of _ "n # before"] exI [of _ k] exI [of _ after]) simp
  qed
qed

lemma snapshot_scan_in:
  "snapshot_scan m draw running ns = n \<Longrightarrow> running \<le> draw \<Longrightarrow> n \<in> set ns \<and> get_or 0 m n \<noteq> 0 \<or> n = ''genesis'' \<and>
    running + sum_list (map (get_or 0 m) ns) \<le> draw"
proof (induction ns arbitrary: running)
  case Nil
  then show ?case by simp
next
  case (Cons k ns)
  show ?case
  proof (cases "draw < running + get_or 0 m k")
    case True
    with Cons.prems show ?thesis by auto
  next
    case False
    with Cons.prems Cons.IH [of "running + get_or 0 m k"] show ?thesis
      by (simp add: Let_def not_less add.assoc) blast
  qed
qed

interpretation snap_lottery: stake_lottery "\<lambda>m. total_weight m < 2 ^ 64" keys_of stake_weight
  "\<lambda>m d. snapshot_scan m (word_of_nat d) 0 (keys_of m)"
proof
  fix m :: stakes and d
  assume valid: "total_weight m < 2 ^ 64" and d: "d < stake_upto (stake_weight m) (keys_of m)"
  then have "unat (word_of_nat d :: u64) = d" by (simp add: unat_of_nat total_weight_def)
  with snapshot_scan_interval [of 0 m "keys_of m" "word_of_nat d"] valid d
  show "\<exists>before n after. keys_of m = before @ n # after \<and>
      snapshot_scan m (word_of_nat d) 0 (keys_of m) = n \<and>
      stake_upto (stake_weight m) before \<le> d \<and> d < stake_upto (stake_weight m) before + stake_weight m n"
    by (simp add: total_weight_def)
qed simp

lemma total_stake_word: "range_loop (\<lambda>name stake t. t + stake) m (0::u64) = sum_list (map (get_or 0 m) (keys_of m))"
proof -
  have eq: "map (\<lambda>k. the (fmlookup m k)) (keys_of m) = map (get_or 0 m) (keys_of m)"
    by (auto simp: get_or_def fmlookup_dom_iff)
  show ?thesis unfolding range_loop_def fold_plus_sum_list eq by simp
qed

lemma word_sum_stakes: "sum_list (map (get_or (0::u64) m) ns) = word_of_nat (stake_upto (stake_weight m) ns)"
  by (induction ns) simp_all

lemma total_stake_nat:
  "range_loop (\<lambda>name stake t. t + stake) m (0::u64) = word_of_nat (total_weight m)"
  by (simp add: total_stake_word word_sum_stakes total_weight_def)

text \<open>The stakes of the validators that may lead, the map that an epoch snapshot holds.\<close>

definition active_stakes :: "stats_map option \<Rightarrow> u64 \<Rightarrow> validators \<Rightarrow> stakes" where
  "active_stakes stats slot vs =
    fmmap v_Stake (fmfilter (\<lambda>n. may_lead stats slot (the (fmlookup vs n))) vs)"

lemma keys_active: "keys_of (active_stakes stats slot vs) =
    filter (\<lambda>n. may_lead stats slot (the (fmlookup vs n))) (keys_of vs)"
  by (rule keys_of_unique [symmetric]) (auto simp: active_stakes_def intro: sorted_wrt_filter)

lemma lookup_active: "n \<in> set (keys_of (active_stakes stats slot vs)) \<Longrightarrow>
    get_or 0 (active_stakes stats slot vs) n = v_Stake (the (fmlookup vs n))"
  by (auto simp: keys_active get_or_def active_stakes_def fmlookup_dom_iff)

lemma leader_scan_filter: "leader_scan stats slot vs draw running ns =
    leader_scan stats slot vs draw running (filter (\<lambda>n. may_lead stats slot (the (fmlookup vs n))) ns)"
  by (induction ns arbitrary: running) (simp_all add: Let_def)

lemma sint_small:
  assumes "unat (w::i64) < 2 ^ 63"
  shows "sint w = int (unat w)"
proof -
  from assms have "in_range (int (unat w))"
    unfolding in_range_def
    by (simp only: of_nat_less_numeral_power_cancel_iff simp_thms) (rule order_trans [of _ 0]; simp)
  from sint_word_of_int [OF this] show ?thesis
    by (simp only: of_int_of_nat_eq word_of_unat)
qed

lemma sless_unat: "unat a < 2 ^ 63 \<Longrightarrow> unat b < 2 ^ 63 \<Longrightarrow> (a::i64) <s b \<longleftrightarrow> a < b"
  by (simp only: word_sless_alt word_less_nat_alt sint_small of_nat_less_iff)

lemma leader_scan_snapshot:
  assumes "\<And>n. n \<in> set ns \<Longrightarrow> may_lead stats slot (the (fmlookup vs n)) \<and>
      get_or 0 m n = v_Stake (the (fmlookup vs n))"
    and "unat running + stake_upto (stake_weight m) ns < 2 ^ 63" "unat draw < 2 ^ 63"
  shows "leader_scan stats slot vs draw running ns = snapshot_scan m draw running ns"
  using assms
proof (induction ns arbitrary: running)
  case Nil
  show ?case by simp
next
  case (Cons n ns)
  have here: "may_lead stats slot (the (fmlookup vs n))" "get_or 0 m n = v_Stake (the (fmlookup vs n))"
    using Cons.prems(1) by auto
  have r: "unat (running + get_or 0 m n) = unat running + stake_weight m n"
    using Cons.prems(2) by (simp add: unat_word_ariths)
  then have "leader_scan stats slot vs draw (running + get_or 0 m n) ns =
      snapshot_scan m draw (running + get_or 0 m n) ns"
    using Cons.prems by (intro Cons.IH) auto
  moreover have "draw <s running + get_or 0 m n \<longleftrightarrow> draw < running + get_or 0 m n"
    using r Cons.prems by (intro sless_unat) auto
  ultimately show ?case using here by (simp add: Let_def)
qed

lemma fold_skip: "fold (\<lambda>k t. if \<not> P k then t else t + f k) ks s = fold (\<lambda>k t. t + f k) (filter P ks) s"
  by (induction ks arbitrary: s) auto

lemma leader_total: "range_loop (\<lambda>name v t. if \<not> may_lead stats slot v then t else t + v_Stake v) vs 0 =
    range_loop (\<lambda>name stake t. t + stake) (active_stakes stats slot vs) 0"
proof -
  let ?m = "active_stakes stats slot vs"
  have "v_Stake (the (fmlookup vs k)) = the (fmlookup ?m k)" if "k \<in> set (keys_of ?m)" for k
    using lookup_active [OF that] that by (auto simp: get_or_def fmlookup_dom_iff)
  then have "fold (\<lambda>k t. t + v_Stake (the (fmlookup vs k))) (keys_of ?m) 0 =
      fold (\<lambda>k t. t + the (fmlookup ?m k)) (keys_of ?m) 0"
    by (intro fold_cong) simp_all
  then show ?thesis unfolding range_loop_def fold_skip keys_active .
qed

lemma DeterministicLeader_snapshot:
  assumes "total_weight (active_stakes stats slot vs) < 2 ^ 63"
  shows "DeterministicLeader G slot vs stats = LeaderFromSnapshot G slot (active_stakes stats slot vs)"
proof (cases "total_weight (active_stakes stats slot vs) = 0")
  case True
  then show ?thesis
    by (simp add: DeterministicLeader_def LeaderFromSnapshot_def leader_total total_stake_nat Let_def)
next
  case False
  let ?m = "active_stakes stats slot vs" and ?total = "word_of_nat (total_weight (active_stakes stats slot vs)) :: u64"
  have total: "unat ?total = total_weight ?m" "?total \<noteq> 0"
    using False assms by (simp_all add: unat_of_nat word_of_nat_eq_0_iff nat_dvd_not_less)
  have "unat (deterministicDraw G slot ?total) < total_weight ?m"
    unfolding deterministicDraw_def using total False by (simp add: unat_mod_distrib)
  then have "leader_scan stats slot vs (deterministicDraw G slot ?total) 0 (keys_of vs) =
      snapshot_scan ?m (deterministicDraw G slot ?total) 0 (keys_of ?m)"
    using assms
    by (subst leader_scan_filter, unfold keys_active [symmetric], intro leader_scan_snapshot)
      (auto simp: lookup_active keys_active total_weight_def)
  with total show ?thesis
    by (simp add: DeterministicLeader_def LeaderFromSnapshot_def leader_total total_stake_nat
        sortedValidatorNames_def sortedStakeNames_def)
qed

section \<open>Properties\<close>

definition demo_validator :: "string \<Rightarrow> i64 \<Rightarrow> Validator" where
  "demo_validator name stake = \<lparr>v_Name = name, v_Stake = stake, v_PubKey = hexEncode demo_pub,
     v_PrivKey = Some demo_key, v_LastSlot = 0\<rparr>"

definition demo_validators :: validators where
  "demo_validators = fmupd ''bob'' (demo_validator ''bob'' 12) (fmupd ''alice'' (demo_validator ''alice'' 200) fmempty)"

lemma demo_validator_simps [simp]:
  "v_Name (demo_validator n s) = n" "v_Stake (demo_validator n s) = s"
  "v_PubKey (demo_validator n s) = hexEncode demo_pub" "v_PrivKey (demo_validator n s) = Some demo_key"
  by (simp_all add: demo_validator_def)

lemma demo_pub_nonempty [simp]: "demo_pub \<noteq> []"
  by (simp add: demo_pub_def)

lemma demo_validators_ok [simp]: "validators_ok demo_validators"
  by (auto simp: demo_validators_def intro!: validators_ok_upd)

lemma demo_lookup [simp]:
  "fmlookup demo_validators ''alice'' = Some (demo_validator ''alice'' 200)"
  "fmlookup demo_validators ''bob'' = Some (demo_validator ''bob'' 12)"
  by (simp_all add: demo_validators_def)

text \<open>
  A fixed penalty.  Slashing a validator of a well-formed registry by a positive amount takes
  exactly that amount from its stake, or removes the validator when less than \<open>MinStake\<close> would be left;
  it changes no other entry and the registry stays well-formed.
\<close>

theorem SlashValidator_outcome:
  assumes "validators_ok vs" "fmlookup vs name = Some v" "0 <s amount"
  shows "(case fmlookup (SlashValidator vs name amount) name of
        None \<Rightarrow> sint (v_Stake v) - sint amount < sint MinStake
      | Some v' \<Rightarrow> v' = v\<lparr>v_Stake := v_Stake v'\<rparr> \<and> sint (v_Stake v') = sint (v_Stake v) - sint amount \<and>
          sint MinStake \<le> sint (v_Stake v')) \<and>
    validators_ok (SlashValidator vs name amount) \<and>
    (\<forall>other. other \<noteq> name \<longrightarrow> fmlookup (SlashValidator vs name amount) other = fmlookup vs other)"
proof -
  have "0 < sint amount" using assms(3) by (simp add: word_sless_alt)
  then have "sint (v_Stake v - amount) = sint (v_Stake v) - sint amount"
    if "\<not> sint (v_Stake v) - sint amount < sint MinStake"
    using that sint_lt [of "v_Stake v"] by (intro sint_sub64) (simp add: in_range_def)
  then have "case fmlookup (SlashValidator vs name amount) name of
      None \<Rightarrow> sint (v_Stake v) - sint amount < sint MinStake
    | Some v' \<Rightarrow> v' = v\<lparr>v_Stake := v_Stake v'\<rparr> \<and> sint (v_Stake v') = sint (v_Stake v) - sint amount \<and>
        sint MinStake \<le> sint (v_Stake v')"
    by (auto simp: SlashValidator_at [OF assms])
  then show ?thesis using slash.op_ok [OF assms(1)] slash.op_frame by auto
qed

theorem SlashValidator_outcome_witness:
  "fmlookup (SlashValidator demo_validators ''bob'' SlashPenalty) ''bob'' = None \<and>
    validators_ok (SlashValidator demo_validators ''bob'' SlashPenalty)"
proof -
  have pos: "0 <s SlashPenalty" by (simp add: SlashPenalty_def word_sless_alt)
  from SlashValidator_outcome [OF demo_validators_ok demo_lookup(2) pos] show ?thesis
    by (auto simp: SlashPenalty_def split: option.splits)
qed

text \<open>
  A percentage penalty takes \<open>percent\<close> per cent of the stake, rounded down but at least one, when
  the product \<open>stake * percent\<close> fits an \<open>int\<close>: the stake falls by that amount, or the validator is
  removed when less than \<open>MinStake\<close> would be left.
\<close>

theorem SlashValidatorPercent_outcome:
  assumes "validators_ok vs" "fmlookup vs name = Some v" "0 <s percent"
    and "sint (v_Stake v) * sint percent < 2 ^ 63"
  shows "fmlookup (SlashValidatorPercent vs name percent) name =
    (let left = sint (v_Stake v) - max 1 (sint (v_Stake v) * sint percent div 100)
     in if left < sint MinStake then None else Some (v\<lparr>v_Stake := word_of_int left\<rparr>))"
proof -
  let ?p = "sint (v_Stake v) * sint percent"
  have pos: "0 < sint percent" using assms(3) by (simp add: word_sless_alt)
  have stake: "10 \<le> sint (v_Stake v)" using validators_okD(4) [OF assms(1,2)] by simp
  have "0 \<le> ?p" using pos stake by simp
  with assms(4) have p: "sint (v_Stake v * percent) = ?p"
    by (intro sint_mult64) (simp add: in_range_def)
  have "?p div 100 \<le> ?p" using \<open>0 \<le> ?p\<close> by linarith
  with \<open>0 \<le> ?p\<close> assms(4) have range: "in_range (?p div 100)" "0 \<le> ?p div 100"
    by (simp_all add: in_range_def pos_imp_zdiv_nonneg_iff)
  let ?a = "go_div (v_Stake v * percent) 100"
  let ?b = "if ?a = 0 then 1 else ?a"
  have "?a = word_of_int (?p div 100)"
    using \<open>0 \<le> ?p\<close> by (simp add: go_div_def p sdiv_nonneg)
  then have "sint ?a = ?p div 100" using sint_word_of_int [OF range(1)] by simp
  moreover have "?a = 0 \<longleftrightarrow> sint ?a = 0" by (metis signed_0 signed_word_eqI)
  ultimately have b: "sint ?b = max 1 (?p div 100)" using range(2) by auto
  then have "0 <s ?b" by (auto simp: word_sless_alt)
  from SlashValidator_at [OF assms(1,2) this] b
  have "SlashValidator vs name ?b =
    (if sint (v_Stake v) - max 1 (?p div 100) < 10 then fmdrop name vs
     else fmupd name (v\<lparr>v_Stake := v_Stake v - ?b\<rparr>) vs)"
    by simp
  moreover have "SlashValidatorPercent vs name percent = SlashValidator vs name ?b"
    using assms(2,3) by (simp add: SlashValidatorPercent_def word_sle_eq word_sless_alt Let_def)
  moreover have "v_Stake v - ?b = word_of_int (sint (v_Stake v) - max 1 (?p div 100))"
    unfolding b [symmetric] by simp
  ultimately show ?thesis by (simp add: Let_def)
qed

theorem SlashValidatorPercent_outcome_witness:
  "fmlookup (SlashValidatorPercent demo_validators ''alice'' SlashPercent) ''alice'' =
    Some (demo_validator ''alice'' 196)"
  using SlashValidatorPercent_outcome [OF demo_validators_ok demo_lookup(1), of SlashPercent]
  by (simp add: SlashPercent_def demo_validator_def word_sless_alt)

text \<open>
  The product in \<open>SlashValidatorPercent\<close> wraps for large stakes.  A validator with a stake from
  \<open>2^62\<close> up to \<open>2^63 - 51\<close> loses nothing when it is slashed by \<open>SlashPercent\<close> (two per cent),
  because the amount comes out negative.
\<close>

theorem SlashValidatorPercent_wraps:
  assumes "fmlookup vs name = Some v" "2 ^ 62 \<le> sint (v_Stake v)" "sint (v_Stake v) < 2 ^ 63 - 50"
  shows "SlashValidatorPercent vs name SlashPercent = vs"
proof -
  let ?s = "sint (v_Stake v)"
  have "v_Stake v * SlashPercent = word_of_int (2 * ?s - 2 ^ 64)"
    by (simp add: SlashPercent_def)
  moreover have range: "in_range (2 * ?s - 2 ^ 64)"
    using assms(2,3) by (simp add: in_range_def)
  ultimately have product: "sint (v_Stake v * SlashPercent) = 2 * ?s - 2 ^ 64"
    using sint_word_of_int by metis
  define q where "q = (2 ^ 64 - 2 * ?s) div 100"
  have q: "1 \<le> q" "q < 2 ^ 63" using assms(2,3) by (simp_all add: q_def)
  have "go_div (v_Stake v * SlashPercent) 100 = word_of_int (- q)"
    using assms(3) by (simp add: go_div_def product signed_divide_int_def sgn_if q_def)
  moreover have "sint (word_of_int (- q) :: i64) = - q"
    using q by (intro sint_word_of_int) (simp add: in_range_def)
  ultimately have "sint (go_div (v_Stake v * SlashPercent) 100) = - q" by simp
  with q assms(1) show ?thesis
    by (auto simp: SlashValidatorPercent_def Let_def SlashPercent_def word_sle_eq intro!: SlashValidator_noop)
qed

theorem SlashValidatorPercent_wraps_witness:
  "SlashValidatorPercent (fmupd ''whale'' (demo_validator ''whale'' (2 ^ 62)) fmempty) ''whale'' SlashPercent =
    fmupd ''whale'' (demo_validator ''whale'' (2 ^ 62)) fmempty"
  by (rule SlashValidatorPercent_wraps [where v = "demo_validator ''whale'' (2 ^ 62)"]) simp_all

text \<open>
  \<open>Unstake\<close> in a well-formed registry.  It fails, with no change, exactly for a non-positive
  amount, an unknown validator, an amount above the stake, or a remainder strictly between zero and
  \<open>MinStake\<close>; otherwise it removes the validator when nothing is left, and else lowers its stake by the
  amount.  In every case the registry stays well-formed.
\<close>

theorem Unstake_outcome:
  assumes "validators_ok vs"
  shows "case Unstake vs name amount of (vs', err) \<Rightarrow>
    validators_ok vs' \<and>
    (case err of
      Some e \<Rightarrow> vs' = vs \<and> (sint amount \<le> 0 \<or> (case fmlookup vs name of
          None \<Rightarrow> True
        | Some v \<Rightarrow> sint (v_Stake v) - sint amount < sint MinStake \<and> sint amount \<noteq> sint (v_Stake v)))
    | None \<Rightarrow> 0 < sint amount \<and> (\<exists>v. fmlookup vs name = Some v \<and>
        (if sint amount = sint (v_Stake v) then vs' = fmdrop name vs
         else sint MinStake \<le> sint (v_Stake v) - sint amount \<and>
           vs' = fmupd name (v\<lparr>v_Stake := word_of_int (sint (v_Stake v) - sint amount)\<rparr>) vs)))"
proof (cases "sint amount \<le> 0 \<or> fmlookup vs name = None")
  case True
  with assms show ?thesis
    by (auto simp: Unstake_def word_sle_eq split: option.splits)
next
  case False
  then obtain v where v: "fmlookup vs name = Some v" and pos: "0 < sint amount" by auto
  have stake: "10 \<le> sint (v_Stake v)" using validators_okD(4) [OF assms v] by simp
  show ?thesis
  proof (cases "sint (v_Stake v) < sint amount")
    case True
    with assms v pos show ?thesis by (auto simp: Unstake_def word_sle_eq word_sless_alt)
  next
    case False
    with pos have left: "sint (v_Stake v - amount) = sint (v_Stake v) - sint amount"
      using sint_lt [of "v_Stake v"] by (intro sint_sub64) (simp add: in_range_def)
    have zero: "v_Stake v - amount = 0 \<longleftrightarrow> sint amount = sint (v_Stake v)"
      by (metis eq_iff_diff_eq_0 signed_word_eqI)
    show ?thesis
    proof (cases "sint amount = sint (v_Stake v)")
      case True
      with assms v pos left zero show ?thesis
        by (simp add: Unstake_def word_sle_eq word_sless_alt Let_def)
    next
      case False
      with left zero stake \<open>\<not> sint (v_Stake v) < sint amount\<close> assms v pos show ?thesis
        by (simp add: Unstake_def word_sle_eq word_sless_alt Let_def) (auto intro: validators_ok_restake)
    qed
  qed
qed

theorem Unstake_outcome_witness:
  "fst (Unstake demo_validators ''alice'' 190) =
    fmupd ''alice'' (demo_validator ''alice'' 10) demo_validators"
  using Unstake_outcome [OF demo_validators_ok, where name = "''alice''" and amount = 190]
  by (simp add: Unstake_def word_sle_eq word_sless_alt demo_validator_def MinStake_def)

text \<open>
  \<open>AddValidator\<close> keeps the registry well-formed unless the sum of the old stake and the added one
  exceeds an \<open>int\<close>.  It fails, with no change, for an empty name, a non-positive stake, an empty public
  key, or a new validator below \<open>MinStake\<close>; a success leaves the validator in the registry with the old
  stake (zero for a new one) plus the added one, and changes no other validator.
\<close>

theorem AddValidator_outcome:
  assumes "validators_ok vs" "AddValidator vs stats name stake pubKey priv = ((vs', stats'), err)"
    and "\<forall>v. fmlookup vs name = Some v \<longrightarrow> sint (v_Stake v) + sint stake < 2 ^ 63"
  shows "validators_ok vs' \<and> (\<forall>n. n \<noteq> name \<longrightarrow> fmlookup vs' n = fmlookup vs n) \<and>
    (case err of
      Some e \<Rightarrow> vs' = vs \<and> stats' = stats \<and> (name = [] \<or> sint stake \<le> 0 \<or> pubKey = [] \<or>
        fmlookup vs name = None \<and> sint stake < sint MinStake)
    | None \<Rightarrow> \<exists>v'. fmlookup vs' name = Some v' \<and>
        sint (v_Stake v') = (case fmlookup vs name of None \<Rightarrow> 0 | Some v \<Rightarrow> sint (v_Stake v)) + sint stake)"
proof (cases "fmlookup vs name")
  case None
  with assms(1,2) show ?thesis
    by (auto simp: AddValidator_def word_sle_eq word_sless_alt split: if_splits
        intro!: validators_ok_upd)
next
  case (Some v)
  note ok = validators_okD [OF assms(1) Some]
  show ?thesis
  proof (cases "name = [] \<or> sint stake \<le> 0 \<or> pubKey = []")
    case True
    with Some assms(1,2) show ?thesis
      by (auto simp: AddValidator_def word_sle_eq word_sless_alt split: if_splits)
  next
    case False
    with ok(4) Some assms(3) have sum: "sint (v_Stake v + stake) = sint (v_Stake v) + sint stake"
      by (intro sint_add64) (simp add: in_range_def)
    from False Some ok assms(2) have "err = None" and
      new: "vs' = fmupd name (v\<lparr>v_Stake := v_Stake v + stake,
        v_PrivKey := (if v_PrivKey v = None then priv else v_PrivKey v)\<rparr>) vs"
      by (auto simp: AddValidator_def word_sle_eq word_sless_alt Let_def split: if_splits)
    with False Some ok assms(1) sum show ?thesis
      by (auto intro!: validators_ok_upd)
  qed
qed

theorem AddValidator_outcome_witness:
  "\<exists>vs'. AddValidator demo_validators None ''bob'' 8 ''aa'' None = ((vs', None), None) \<and> validators_ok vs'"
proof -
  let ?r = "AddValidator demo_validators None ''bob'' 8 ''aa'' None"
  have r: "?r = ((fst (fst ?r), None), None)"
    by (simp add: AddValidator_def Let_def word_sle_eq)
  from AddValidator_outcome [OF demo_validators_ok r] have "validators_ok (fst (fst ?r))"
    by simp
  with r show ?thesis by metis
qed

text \<open>
  C27: the election of a slot's leader is proportional to stake.  When the stakes of a snapshot add up
  to a \<open>uint64\<close> total above zero, the leader of a slot is the winner of the slot's number modulo the
  total, and among the possible remainders exactly as many fall to a validator as it has stake.
\<close>

theorem LeaderFromSnapshot_proportional:
  assumes "0 < total_weight m" "total_weight m < 2 ^ 64"
  shows "LeaderFromSnapshot G slot m =
      snapshot_scan m (word_of_nat (unat (slot_number G slot) mod total_weight m)) 0 (keys_of m) \<and>
    (\<forall>n. n |\<in>| fmdom m \<longrightarrow>
      card {d. d < total_weight m \<and> snapshot_scan m (word_of_nat d) 0 (keys_of m) = n} = unat (get_or 0 m n))"
proof -
  let ?t = "word_of_nat (total_weight m) :: u64"
  have total: "unat ?t = total_weight m" "?t \<noteq> 0"
    using assms by (simp_all add: unat_of_nat word_of_nat_eq_0_iff nat_dvd_not_less)
  have "word_of_nat (unat (slot_number G slot mod ?t)) = slot_number G slot mod ?t"
    by (rule word_of_unat)
  then have "word_of_nat (unat (slot_number G slot) mod total_weight m) = deterministicDraw G slot ?t"
    by (simp add: deterministicDraw_def unat_mod_distrib total(1))
  with total have "LeaderFromSnapshot G slot m =
      snapshot_scan m (word_of_nat (unat (slot_number G slot) mod total_weight m)) 0 (keys_of m)"
    by (simp add: LeaderFromSnapshot_def total_stake_nat sortedStakeNames_def)
  moreover have "card {d. d < total_weight m \<and> snapshot_scan m (word_of_nat d) 0 (keys_of m) = n} =
      unat (get_or 0 m n)" if "n |\<in>| fmdom m" for n
    using snap_lottery.winner_share [OF assms(2), of n] that by (simp add: total_weight_def)
  ultimately show ?thesis by blast
qed

definition demo_stakes :: stakes where
  "demo_stakes = fmupd ''bob'' 10 (fmupd ''alice'' 30 fmempty)"

lemma total_demo_stakes: "total_weight demo_stakes = 40"
  by (simp add: total_weight_def demo_stakes_def)

theorem LeaderFromSnapshot_proportional_witness:
  "card {d. d < 40 \<and> snapshot_scan demo_stakes (word_of_nat d) 0 (keys_of demo_stakes) = ''alice''} = 30"
proof -
  have "''alice'' |\<in>| fmdom demo_stakes" by (simp add: demo_stakes_def)
  moreover have "unat (get_or 0 demo_stakes ''alice'') = 30" by (simp add: demo_stakes_def)
  ultimately show ?thesis
    using LeaderFromSnapshot_proportional [of demo_stakes] by (auto simp: total_demo_stakes)
qed

text \<open>
  Whatever the stakes, also when their sum wraps around, \<open>LeaderFromSnapshot\<close> gives \<open>genesis\<close> when
  the wrapped sum is zero, and otherwise a validator of the snapshot whose stake is not zero; visiting
  the map in any other order computes the same sum.
\<close>

theorem LeaderFromSnapshot_in_snapshot:
  "(if sum_list (map (get_or 0 m) (keys_of m)) = 0 then LeaderFromSnapshot G slot m = ''genesis''
    else LeaderFromSnapshot G slot m |\<in>| fmdom m \<and> get_or 0 m (LeaderFromSnapshot G slot m) \<noteq> 0) \<and>
   (\<forall>ks. distinct ks \<and> set ks = fset (fmdom m) \<longrightarrow>
      fold (\<lambda>k t. t + the (fmlookup m k)) ks 0 = sum_list (map (get_or 0 m) (keys_of m)))"
proof (intro conjI allI impI)
  let ?t = "sum_list (map (get_or 0 m) (keys_of m))"
  show "if ?t = 0 then LeaderFromSnapshot G slot m = ''genesis''
    else LeaderFromSnapshot G slot m |\<in>| fmdom m \<and> get_or 0 m (LeaderFromSnapshot G slot m) \<noteq> 0"
  proof (cases "?t = 0")
    case True
    then show ?thesis by (simp add: LeaderFromSnapshot_def total_stake_word)
  next
    case False
    let ?d = "deterministicDraw G slot ?t"
    have "?d < ?t" using False by (simp add: deterministicDraw_def word_mod_less_divisor word_neq_0_conv)
    moreover have "LeaderFromSnapshot G slot m = snapshot_scan m ?d 0 (keys_of m)"
      using False by (simp add: LeaderFromSnapshot_def total_stake_word sortedStakeNames_def)
    ultimately show ?thesis
      using False snapshot_scan_in [of m ?d 0 "keys_of m" "LeaderFromSnapshot G slot m"] by auto
  qed
next
  fix ks assume "distinct ks \<and> set ks = fset (fmdom m)"
  then show "fold (\<lambda>k t. t + the (fmlookup m k)) ks 0 = sum_list (map (get_or 0 m) (keys_of m))"
    using map_total_any_order [of ks m "\<lambda>x. x"] range_loop_plus [of "\<lambda>x. x" m]
    by (simp add: total_stake_word)
qed

theorem LeaderFromSnapshot_in_snapshot_witness:
  "LeaderFromSnapshot demo_lib 7 demo_stakes \<in> {''alice'', ''bob''} \<and>
    fold (\<lambda>k t. t + the (fmlookup demo_stakes k)) [''bob'', ''alice''] 0 = (40 :: u64)"
  using LeaderFromSnapshot_in_snapshot [of demo_stakes demo_lib 7]
  by (auto simp: demo_stakes_def)

text \<open>
  C28: the two elections agree.  When the stakes of the validators that may lead in a slot (stake at
  least \<open>MinStake\<close>, not jailed) add up to an \<open>int\<close>, \<open>DeterministicLeader\<close> on the registry elects whom
  \<open>LeaderFromSnapshot\<close> elects on the map of those stakes, although one counts in \<open>int\<close> and the
  other in \<open>uint64\<close>.
\<close>

theorem DeterministicLeader_refines:
  assumes "total_weight (active_stakes stats slot vs) < 2 ^ 63"
  shows "DeterministicLeader G slot vs stats = LeaderFromSnapshot G slot (active_stakes stats slot vs) \<and>
    (DeterministicLeader G slot vs stats \<noteq> ''genesis'' \<longrightarrow>
      (\<exists>v. fmlookup vs (DeterministicLeader G slot vs stats) = Some v \<and> may_lead stats slot v))"
proof -
  let ?m = "active_stakes stats slot vs"
  have eq: "DeterministicLeader G slot vs stats = LeaderFromSnapshot G slot ?m"
    by (rule DeterministicLeader_snapshot [OF assms])
  have "\<exists>v. fmlookup vs (LeaderFromSnapshot G slot ?m) = Some v \<and> may_lead stats slot v"
    if "LeaderFromSnapshot G slot ?m \<noteq> ''genesis''"
  proof -
    let ?t = "sum_list (map (get_or 0 ?m) (keys_of ?m))"
    have t: "?t \<noteq> 0" using that by (auto simp: LeaderFromSnapshot_def total_stake_word)
    have "LeaderFromSnapshot G slot ?m = snapshot_scan ?m (deterministicDraw G slot ?t) 0 (keys_of ?m)"
      using t by (simp add: LeaderFromSnapshot_def total_stake_word sortedStakeNames_def)
    with that snapshot_scan_in [of ?m "deterministicDraw G slot ?t" 0 "keys_of ?m"]
    have "LeaderFromSnapshot G slot ?m \<in> set (keys_of ?m)" by auto
    then show ?thesis by (auto simp: keys_active fmlookup_dom_iff)
  qed
  with eq show ?thesis by simp
qed

theorem DeterministicLeader_refines_witness:
  "DeterministicLeader demo_lib 7 demo_validators None =
    LeaderFromSnapshot demo_lib 7 (fmupd ''alice'' 200 (fmupd ''bob'' 12 fmempty))"
proof -
  have "may_lead None 7 (demo_validator n s)" if "10 \<le> sint s" for n s
    using that by (simp add: may_lead_def IsJailed_def word_sless_alt)
  then have active: "active_stakes None 7 demo_validators = fmupd ''alice'' 200 (fmupd ''bob'' 12 fmempty)"
    by (intro fmap_ext) (auto simp: active_stakes_def demo_validators_def)
  show ?thesis
    using DeterministicLeader_refines [of None 7 demo_validators demo_lib]
    by (simp add: active total_weight_def)
qed

end
