(* ===== verification/PoV.thy ===== *)
theory PoV
  imports PoS
begin

text \<open>
  \<open>consensus/pov.go\<close>: verification of transactions, of the links between blocks, of the
  proof-of-history, and of a slot's leader; and \<open>ApplyTransactions\<close>, the ledger.

  A batch of transactions is applied to a copy of the state, and an error leaves the caller's state
  alone; the locale \<open>batch\<close> is what the selection of transactions in the mempool and the replay of a
  chain rely on.  The lemmas after it count nonces and money.
\<close>

section \<open>Transactions\<close>

definition at_index :: "string \<Rightarrow> nat \<Rightarrow> error" where
  "at_index msg i = ErrNew (msg @ '' at index '' @ itoa (word_of_nat i))"

primrec verify_txs_from :: "golib \<Rightarrow> nat \<Rightarrow> Transaction list \<Rightarrow> failure" where
  "verify_txs_from G i [] = None"
| "verify_txs_from G i (tx # txs) =
    (case VerifyTransactionSignature G tx of
      Some e \<Rightarrow> Some (at_index ''invalid transaction signature'' i)
    | None \<Rightarrow> verify_txs_from G (Suc i) txs)"

definition VerifyTransactions :: "golib \<Rightarrow> Transaction list \<Rightarrow> failure" where
  "VerifyTransactions G txs = verify_txs_from G 0 txs"

definition apply_tx :: "string \<Rightarrow> nat \<Rightarrow> Transaction \<Rightarrow> accounts \<Rightarrow> accounts result" where
  \<comment> \<open>the body of the loop in \<open>ApplyTransactions\<close>\<close>
  "apply_tx producer i tx acc =
    (if tx_Amount tx \<le>s 0 then Inl (at_index ''invalid amount'' i)
     else if tx_From tx = [] then Inl (at_index ''missing sender'' i)
     else if tx_Nonce tx = 0 then Inl (at_index ''invalid nonce'' i)
     else if tx_Fee tx <s 0 then Inl (at_index ''invalid fee'' i)
     else let from = account_at acc (tx_From tx) in
       if ac_Nonce from + 1 \<noteq> tx_Nonce tx then Inl (at_index ''nonce mismatch'' i)
       else let total = tx_Amount tx + tx_Fee tx in
         if ac_Balance from <s total then Inl (at_index ''insufficient balance'' i)
         else let from = from\<lparr>ac_Balance := ac_Balance from - total\<rparr>;
                  from = from\<lparr>ac_Nonce := tx_Nonce tx\<rparr>;
                  acc = fmupd (tx_From tx) from acc;
                  to = account_at acc (tx_To tx);
                  to = to\<lparr>ac_Balance := ac_Balance to + tx_Amount tx\<rparr>;
                  acc = fmupd (tx_To tx) to acc
              in Inr (if producer \<noteq> [] \<and> 0 <s tx_Fee tx
                then let p = account_at acc producer;
                         p = p\<lparr>ac_Balance := ac_Balance p + tx_Fee tx\<rparr>
                     in fmupd producer p acc
                else acc))"

primrec apply_from :: "string \<Rightarrow> nat \<Rightarrow> Transaction list \<Rightarrow> accounts \<Rightarrow> accounts result" where
  "apply_from producer i [] acc = Inr acc"
| "apply_from producer i (tx # txs) acc =
    (case apply_tx producer i tx acc of
      Inl e \<Rightarrow> Inl e
    | Inr acc' \<Rightarrow> apply_from producer (Suc i) txs acc')"

definition ApplyTransactions :: "accounts \<Rightarrow> Transaction list \<Rightarrow> string \<Rightarrow> accounts result" where
  \<comment> \<open>the copy of \<open>state\<close> into \<open>next\<close> is the value of the finite map\<close>
  "ApplyTransactions state txs producer = apply_from producer 0 txs state"

section \<open>Blocks\<close>

definition VerifyBlockLink :: "Block \<Rightarrow> Block \<Rightarrow> failure" where
  "VerifyBlockLink prev cur =
    (if b_PrevHash cur \<noteq> b_Hash prev
     then Some (ErrNew (''invalid prev hash at index '' @ itoa (b_Index cur)))
     else if b_Slot cur < b_Slot prev
     then Some (ErrNew (''slot regressed at index '' @ itoa (b_Index cur)))
     else None)"

definition VerifyPoH :: "golib \<Rightarrow> digest \<Rightarrow> u64 \<Rightarrow> Block \<Rightarrow> (digest \<times> u64 \<times> failure) option" where
  "VerifyPoH G expectedHash expectedTick cur =
    (if b_Tick cur \<le> expectedTick
     then Some (expectedHash, expectedTick, Some (ErrNew (''tick not increasing at index '' @ itoa (b_Index cur))))
     else if b_Tick cur div TicksPerSlot \<noteq> b_Slot cur
     then Some (expectedHash, expectedTick, Some (ErrNew (''slot mismatch at index '' @ itoa (b_Index cur))))
     else do {
       expectedHash \<leftarrow> for_incl (expectedTick + 1) (b_Tick cur) (\<lambda>t h. HashPoH G h t) expectedHash;
       Some (case ParsePoHHashHex (b_PoHHash cur) of
         Inl e \<Rightarrow> (expectedHash, expectedTick, Some e)
       | Inr pohHash \<Rightarrow>
         (if pohHash \<noteq> expectedHash
          then (expectedHash, expectedTick, Some (ErrNew (''invalid poh hash at index '' @ itoa (b_Index cur))))
          else (expectedHash, b_Tick cur, None)))
     })"

definition VerifyBlockHash :: "golib \<Rightarrow> Block \<Rightarrow> failure" where
  "VerifyBlockHash G cur =
    (let expected = hash_of_block G cur in
     if b_Hash cur \<noteq> expected then Some (ErrNew (''invalid hash at index '' @ itoa (b_Index cur))) else None)"

definition VerifyValidator :: "string \<Rightarrow> validators \<Rightarrow> i64 \<Rightarrow> Validator result" where
  "VerifyValidator name vs index =
    (case fmlookup vs name of
      None \<Rightarrow> Inl (ErrNew (''unknown validator at index '' @ itoa index))
    | Some v \<Rightarrow>
      (if v_Stake v <s MinStake then Inl (ErrNew (''unknown validator at index '' @ itoa index)) else Inr v))"

definition VerifyLeader :: "golib \<Rightarrow> u64 \<Rightarrow> string \<Rightarrow> validators \<Rightarrow> stats_map option \<Rightarrow> failure" where
  "VerifyLeader G slot validator vs stats =
    (if DeterministicLeader G slot vs stats \<noteq> validator
     then Some (ErrNew (''wrong leader at slot '' @ itoa slot)) else None)"

definition VerifyLeaderSnapshot :: "golib \<Rightarrow> u64 \<Rightarrow> string \<Rightarrow> stakes \<Rightarrow> failure" where
  "VerifyLeaderSnapshot G slot validator stakes =
    (if LeaderFromSnapshot G slot stakes \<noteq> validator
     then Some (ErrNew (''wrong leader at slot '' @ itoa slot)) else None)"

definition VerifyBlockSig :: "golib \<Rightarrow> Block \<Rightarrow> Validator \<Rightarrow> failure" where
  "VerifyBlockSig G cur v = VerifyBlockSignature G cur (v_PubKey v)"

section \<open>Batches\<close>

text \<open>
  Running a batch is running its parts one after the other; only the text of an error depends on where
  the batch starts.
\<close>

locale batch =
  fixes run :: "'s \<Rightarrow> 'tx list \<Rightarrow> 's result"
  assumes run_Nil: "run s [] = Inr s"
    and run_append: "run s (xs @ ys) = Inr s'' \<longleftrightarrow> (\<exists>s'. run s xs = Inr s' \<and> run s' ys = Inr s'')"
begin

lemma run_prefix: "run s (xs @ ys) = Inr s'' \<Longrightarrow> \<exists>s'. run s xs = Inr s'"
  by (auto simp: run_append)

lemma run_snoc: "run s xs = Inr s' \<Longrightarrow> run s (xs @ [x]) = Inr s'' \<longleftrightarrow> run s' [x] = Inr s''"
  by (simp add: run_append)

lemma run_invariant:
  assumes "run s xs = Inr s'" "P s"
    and "\<And>x t t'. x \<in> set xs \<Longrightarrow> P t \<Longrightarrow> run t [x] = Inr t' \<Longrightarrow> P t'"
  shows "P s'"
  using assms
proof (induction xs arbitrary: s' rule: rev_induct)
  case Nil
  then show ?case by (simp add: run_Nil)
next
  case (snoc x xs)
  then obtain t where "run s xs = Inr t" "run t [x] = Inr s'" by (auto simp: run_append)
  with snoc show ?case by auto
qed

end

lemma apply_tx_index: "apply_tx p i tx s = Inr s' \<longleftrightarrow> apply_tx p j tx s = Inr s'"
  by (simp add: apply_tx_def Let_def)

lemma apply_from_index: "apply_from p i txs s = Inr s' \<longleftrightarrow> apply_from p j txs s = Inr s'"
proof (induction txs arbitrary: i j s)
  case Nil
  show ?case by simp
next
  case (Cons tx txs)
  show ?case
  proof (cases "apply_tx p i tx s")
    case (Inl e)
    then have "apply_tx p j tx s \<noteq> Inr t" for t using apply_tx_index [of p i tx s t j] by simp
    with Inl show ?thesis by (cases "apply_tx p j tx s") auto
  next
    case (Inr t)
    with apply_tx_index [of p i tx s t j] have "apply_tx p j tx s = Inr t" by simp
    with Inr Cons show ?thesis by simp
  qed
qed

lemma apply_from_append: "apply_from p i (xs @ ys) s =
    (case apply_from p i xs s of Inl e \<Rightarrow> Inl e | Inr t \<Rightarrow> apply_from p (i + length xs) ys t)"
  by (induction xs arbitrary: i s) (auto split: sum.splits)

interpretation ledger: batch "\<lambda>s txs. ApplyTransactions s txs producer" for producer
proof
  fix s s'' :: accounts and xs ys
  show "ApplyTransactions s [] producer = Inr s" by (simp add: ApplyTransactions_def)
  show "ApplyTransactions s (xs @ ys) producer = Inr s'' \<longleftrightarrow>
      (\<exists>s'. ApplyTransactions s xs producer = Inr s' \<and> ApplyTransactions s' ys producer = Inr s'')"
    using apply_from_index [of producer "length xs" ys _ s'' 0]
    by (auto simp: ApplyTransactions_def apply_from_append split: sum.splits)
qed

lemma ApplyTransactions_single: "ApplyTransactions s [tx] p = apply_tx p 0 tx s"
  by (simp add: ApplyTransactions_def split: sum.splits)

section \<open>Counting nonces\<close>

text \<open>The ledger after a payment, as three updates: debit the sender, credit the receiver, pay the fee.\<close>

definition credit :: "string \<Rightarrow> i64 \<Rightarrow> accounts \<Rightarrow> accounts" where
  "credit a d s = fmupd a (account_at s a\<lparr>ac_Balance := ac_Balance (account_at s a) + d\<rparr>) s"

definition debit :: "string \<Rightarrow> i64 \<Rightarrow> u64 \<Rightarrow> accounts \<Rightarrow> accounts" where
  "debit a d n s = fmupd a \<lparr>ac_Balance = ac_Balance (account_at s a) - d, ac_Nonce = n\<rparr> s"

definition paid :: "string \<Rightarrow> Transaction \<Rightarrow> accounts \<Rightarrow> accounts" where
  "paid p tx s = (let s2 = credit (tx_To tx) (tx_Amount tx)
       (debit (tx_From tx) (tx_Amount tx + tx_Fee tx) (tx_Nonce tx) s)
     in if p = [] \<or> tx_Fee tx = 0 then s2 else credit p (tx_Fee tx) s2)"

definition payable :: "accounts \<Rightarrow> Transaction \<Rightarrow> bool" where
  "payable s tx \<longleftrightarrow> 0 <s tx_Amount tx \<and> tx_From tx \<noteq> [] \<and> tx_Nonce tx \<noteq> 0 \<and> 0 \<le>s tx_Fee tx \<and>
     ac_Nonce (account_at s (tx_From tx)) + 1 = tx_Nonce tx \<and>
     tx_Amount tx + tx_Fee tx \<le>s ac_Balance (account_at s (tx_From tx))"

lemma signed_pos: "(0::i64) \<le>s w \<Longrightarrow> 0 <s w \<longleftrightarrow> w \<noteq> 0"
  by (metis order_less_le sint_0 signed_word_eqI word_sle_eq word_sless_alt)

lemma apply_tx_Inr: "apply_tx p i tx s = Inr s' \<longleftrightarrow> payable s tx \<and> s' = paid p tx s"
proof -
  have acct: "a\<lparr>ac_Balance := b, ac_Nonce := n\<rparr> = \<lparr>ac_Balance = b, ac_Nonce = n\<rparr>" for a :: Account and b n
    by (cases a) simp
  have signs: "\<not> a <s b \<longleftrightarrow> b \<le>s a" "\<not> a \<le>s b \<longleftrightarrow> b <s a" for a b :: i64
    by (auto simp: word_sle_eq word_sless_alt)
  show ?thesis
    using signed_pos [of "tx_Fee tx"]
    by (auto simp: apply_tx_def Let_def acct payable_def paid_def credit_def debit_def signs
        simp flip: signs(1) split: if_splits)
qed

lemma account_credit [simp]: "account_at (credit a d s) b =
    (if a = b then account_at s a\<lparr>ac_Balance := ac_Balance (account_at s a) + d\<rparr> else account_at s b)"
  by (simp add: credit_def)

lemma account_debit [simp]: "account_at (debit a d n s) b =
    (if a = b then \<lparr>ac_Balance = ac_Balance (account_at s a) - d, ac_Nonce = n\<rparr> else account_at s b)"
  by (simp add: debit_def)

lemma nonce_paid: "payable s tx \<Longrightarrow>
    ac_Nonce (account_at (paid p tx s) a) = ac_Nonce (account_at s a) + (if tx_From tx = a then 1 else 0)"
  by (auto simp: paid_def payable_def Let_def)

lemma apply_tx_nonce:
  assumes "apply_tx p i tx s = Inr s'"
  shows "ac_Nonce (account_at s' a) = ac_Nonce (account_at s a) + (if tx_From tx = a then 1 else 0)"
  using assms nonce_paid unfolding apply_tx_Inr by blast

definition sent_by :: "string \<Rightarrow> Transaction list \<Rightarrow> Transaction list" where
  "sent_by a txs = filter (\<lambda>tx. tx_From tx = a) txs"

lemma sent_by_simps [simp]: "sent_by a [] = []"
    "sent_by a (tx # txs) = (if tx_From tx = a then tx # sent_by a txs else sent_by a txs)"
  by (simp_all add: sent_by_def)

lemma nonces_consecutive:
  assumes "apply_from p i txs s = Inr s'"
  shows "map tx_Nonce (sent_by a txs) =
      map (\<lambda>k. ac_Nonce (account_at s a) + 1 + word_of_nat k) [0..<length (sent_by a txs)] \<and>
    ac_Nonce (account_at s' a) = ac_Nonce (account_at s a) + word_of_nat (length (sent_by a txs))"
  using assms
proof (induction txs arbitrary: i s)
  case Nil
  then show ?case by simp
next
  case (Cons tx txs)
  then obtain t where t: "apply_tx p i tx s = Inr t" "apply_from p (Suc i) txs t = Inr s'"
    by (auto split: sum.splits)
  have nonce: "ac_Nonce (account_at t a) = ac_Nonce (account_at s a) + (if tx_From tx = a then 1 else 0)"
    by (rule apply_tx_nonce [OF t(1)])
  have first: "tx_Nonce tx = ac_Nonce (account_at s (tx_From tx)) + 1"
    using t(1) unfolding apply_tx_Inr payable_def by auto
  show ?case
  proof (cases "tx_From tx = a")
    case True
    with Cons.IH [OF t(2)] nonce first show ?thesis
      by (simp add: map_upt_Suc ac_simps del: upt_Suc)
  next
    case False
    with Cons.IH [OF t(2)] nonce show ?thesis by simp
  qed
qed

section \<open>Counting money\<close>

definition money :: "accounts \<Rightarrow> i64" where
  "money s = map_total ac_Balance s"

definition money_int :: "accounts \<Rightarrow> int" where
  "money_int s = map_total (\<lambda>a. sint (ac_Balance a)) s"

definition solvent :: "accounts \<Rightarrow> bool" where
  "solvent s \<longleftrightarrow> (\<forall>a. 0 \<le> sint (ac_Balance (account_at s a)))"

lemma money_upd: "money (fmupd a v s) = money s - ac_Balance (account_at s a) + ac_Balance v"
  by (simp add: money_def map_total_upd get_or_def split: option.splits)

lemma money_int_upd:
  "money_int (fmupd a v s) = money_int s - sint (ac_Balance (account_at s a)) + sint (ac_Balance v)"
  by (simp add: money_int_def map_total_upd get_or_def split: option.splits)

lemma solvent_upd: "solvent s \<Longrightarrow> 0 \<le> sint (ac_Balance v) \<Longrightarrow> solvent (fmupd a v s)"
  by (auto simp: solvent_def)

lemma balance_le_money:
  assumes "solvent s"
  shows "sint (ac_Balance (account_at s a)) \<le> money_int s"
proof -
  have nonneg: "0 \<le> sint (ac_Balance (the (fmlookup s k)))" if "k \<in> fset (fmdom s)" for k
  proof -
    from assms have "0 \<le> sint (ac_Balance (account_at s k))" by (simp add: solvent_def)
    with that show ?thesis by (auto simp: get_or_def fmlookup_dom_iff)
  qed
  show ?thesis
  proof (cases "fmlookup s a")
    case None
    with nonneg show ?thesis by (simp add: money_int_def map_total_def get_or_def sum_nonneg)
  next
    case (Some v)
    with nonneg show ?thesis
      using member_le_sum [of a "fset (fmdom s)" "\<lambda>k. sint (ac_Balance (the (fmlookup s k)))"]
      by (simp add: money_int_def map_total_def get_or_def fmdomI)
  qed
qed

definition fees :: "Transaction list \<Rightarrow> i64" where
  "fees txs = sum_list (map tx_Fee txs)"

lemma money_paid: "money (paid p tx s) = money s - (if p = [] then tx_Fee tx else 0)"
  by (simp add: paid_def Let_def money_upd credit_def debit_def)

lemma fee_nonneg: "payable s tx \<Longrightarrow> 0 \<le> sint (tx_Fee tx)"
  by (simp add: payable_def word_sle_eq)

text \<open>A credit below the money bound is an exact one.\<close>

lemma credit_exact:
  assumes "solvent s" "0 \<le> sint d" "money_int s + sint d < 2 ^ 63"
  shows "solvent (credit a d s) \<and> money_int (credit a d s) = money_int s + sint d"
proof -
  have "0 \<le> sint (ac_Balance (account_at s a))" using assms(1) by (simp add: solvent_def)
  moreover have "sint (ac_Balance (account_at s a)) + sint d < 2 ^ 63"
    using balance_le_money [OF assms(1), of a] assms(3) by simp
  ultimately have "sint (ac_Balance (account_at s a) + d) = sint (ac_Balance (account_at s a)) + sint d"
    using assms(2) by (intro sint_add64) (simp add: in_range_def)
  with assms(1,2) show ?thesis by (auto simp: solvent_def credit_def money_int_upd)
qed

lemma debit_exact:
  assumes "solvent s" "0 \<le> sint d" "sint d \<le> sint (ac_Balance (account_at s a))"
  shows "solvent (debit a d n s) \<and> money_int (debit a d n s) = money_int s - sint d"
proof -
  have "sint (ac_Balance (account_at s a) - d) = sint (ac_Balance (account_at s a)) - sint d"
    using assms(2,3) sint_lt [of "ac_Balance (account_at s a)"]
    by (intro sint_sub64) (simp add: in_range_def)
  with assms show ?thesis by (auto simp: solvent_def debit_def money_int_upd)
qed

lemma paid_money:
  assumes "payable s tx" "solvent s" "money_int s < 2 ^ 63"
    and "sint (tx_Amount tx) + sint (tx_Fee tx) < 2 ^ 63"
  shows "solvent (paid p tx s) \<and> money_int (paid p tx s) = money_int s - (if p = [] then sint (tx_Fee tx) else 0)"
proof -
  let ?total = "tx_Amount tx + tx_Fee tx"
  from assms(1) have amount: "0 < sint (tx_Amount tx)" and fee: "0 \<le> sint (tx_Fee tx)"
    and enough: "sint ?total \<le> sint (ac_Balance (account_at s (tx_From tx)))"
    by (auto simp: payable_def word_sless_alt word_sle_eq)
  have total: "sint ?total = sint (tx_Amount tx) + sint (tx_Fee tx)"
    using assms(4) amount fee by (intro sint_add64) (simp add: in_range_def)
  define s1 where "s1 = debit (tx_From tx) ?total (tx_Nonce tx) s"
  define s2 where "s2 = credit (tx_To tx) (tx_Amount tx) s1"
  have s1: "solvent s1" "money_int s1 = money_int s - sint ?total"
    using debit_exact [OF assms(2) _ enough] total amount fee by (simp_all add: s1_def)
  have s2: "solvent s2" "money_int s2 = money_int s - sint (tx_Fee tx)"
    using credit_exact [OF s1(1), of "tx_Amount tx"] s1(2) total amount fee assms(3)
    by (simp_all add: s2_def)
  have "paid p tx s = (if p = [] \<or> tx_Fee tx = 0 then s2 else credit p (tx_Fee tx) s2)"
    by (simp add: paid_def s1_def s2_def Let_def)
  then show ?thesis
    using s2 fee assms(3) credit_exact [OF s2(1), of "tx_Fee tx" p] by auto
qed

lemma apply_from_money:
  assumes "apply_from p i txs s = Inr s'" "solvent s" "money_int s < 2 ^ 63"
    and "\<forall>tx\<in>set txs. sint (tx_Amount tx) + sint (tx_Fee tx) < 2 ^ 63"
  shows "solvent s' \<and> money_int s' = money_int s - (if p = [] then sum_list (map (\<lambda>tx. sint (tx_Fee tx)) txs) else 0)"
  using assms
proof (induction txs arbitrary: i s)
  case Nil
  then show ?case by simp
next
  case (Cons tx txs)
  then obtain t where t: "apply_tx p i tx s = Inr t" "apply_from p (Suc i) txs t = Inr s'"
    by (auto split: sum.splits)
  from t(1) have p: "payable s tx" "t = paid p tx s" by (simp_all add: apply_tx_Inr)
  have "solvent t" "money_int t = money_int s - (if p = [] then sint (tx_Fee tx) else 0)"
    using paid_money [OF p(1)] p(2) Cons.prems by auto
  with Cons.IH [OF t(2)] Cons.prems fee_nonneg [OF p(1)] show ?case by auto
qed

lemma apply_from_total:
  "apply_from p i txs s = Inr s' \<Longrightarrow> money s' = money s - (if p = [] then fees txs else 0)"
  by (induction txs arbitrary: i s) (auto simp: fees_def apply_tx_Inr money_paid split: sum.splits)

section \<open>Verification\<close>

lemma verify_txs_from_None: "verify_txs_from G i txs = None \<longleftrightarrow> (\<forall>tx\<in>set txs. VerifyTransactionSignature G tx = None)"
  by (induction txs arbitrary: i) (auto split: option.splits)

lemma VerifyTransactions_None: "VerifyTransactions G txs = None \<longleftrightarrow> (\<forall>tx\<in>set txs. VerifyTransactionSignature G tx = None)"
  by (simp add: VerifyTransactions_def verify_txs_from_None)

lemma VerifyBlockLink_None: "VerifyBlockLink prev cur = None \<longleftrightarrow> b_PrevHash cur = b_Hash prev \<and> b_Slot prev \<le> b_Slot cur"
  by (auto simp: VerifyBlockLink_def)

lemma VerifyLeaderSnapshot_None: "VerifyLeaderSnapshot G slot v stakes = None \<longleftrightarrow> LeaderFromSnapshot G slot stakes = v"
  by (simp add: VerifyLeaderSnapshot_def)

lemma VerifyBlockHash_None: "VerifyBlockHash G cur = None \<longleftrightarrow> b_Hash cur = hash_of_block G cur"
  by (simp add: VerifyBlockHash_def Let_def)

lemma VerifyValidator_Inr: "VerifyValidator name vs index = Inr v \<longleftrightarrow>
    fmlookup vs name = Some v \<and> sint MinStake \<le> sint (v_Stake v)"
  by (auto simp: VerifyValidator_def word_sless_alt split: option.splits)

lemma VerifyPoH_run:
  assumes "expectedTick < b_Tick cur" "b_Tick cur div TicksPerSlot = b_Slot cur" "b_Tick cur \<noteq> - 1"
  shows "VerifyPoH G h expectedTick cur = Some (let h' = poh_chain G h expectedTick (b_Tick cur) in
    case ParsePoHHashHex (b_PoHHash cur) of
      Inl e \<Rightarrow> (h', expectedTick, Some e)
    | Inr pohHash \<Rightarrow>
      (if pohHash \<noteq> h' then (h', expectedTick, Some (ErrNew (''invalid poh hash at index '' @ itoa (b_Index cur))))
       else (h', b_Tick cur, None)))"
  using assms
  by (simp add: VerifyPoH_def for_incl_fold poh_chain_slots not_le [symmetric] Let_def)

text \<open>The first check that a transaction fails, if any.\<close>

definition fault :: "accounts \<Rightarrow> Transaction \<Rightarrow> string" where
  "fault s tx =
    (if sint (tx_Amount tx) \<le> 0 then ''invalid amount''
     else if tx_From tx = [] then ''missing sender''
     else if tx_Nonce tx = 0 then ''invalid nonce''
     else if sint (tx_Fee tx) < 0 then ''invalid fee''
     else if ac_Nonce (account_at s (tx_From tx)) + 1 \<noteq> tx_Nonce tx then ''nonce mismatch''
     else ''insufficient balance'')"

lemma apply_tx_Inl: "apply_tx p i tx s = Inl e \<longleftrightarrow> \<not> payable s tx \<and> e = at_index (fault s tx) i"
  by (auto simp: apply_tx_def payable_def fault_def Let_def word_sle_eq word_sless_alt)

section \<open>Properties\<close>

text \<open>
  C26: no transaction is applied twice or out of order.  When a batch is applied, the transactions of
  each sender carry the nonces that follow the sender's old nonce one by one, and the sender's new nonce
  is the last of them.
\<close>

theorem ApplyTransactions_nonces:
  assumes "ApplyTransactions s txs producer = Inr s'"
  shows "map tx_Nonce (sent_by a txs) =
      map (\<lambda>k. ac_Nonce (account_at s a) + 1 + word_of_nat k) [0..<length (sent_by a txs)] \<and>
    ac_Nonce (account_at s' a) = ac_Nonce (account_at s a) + word_of_nat (length (sent_by a txs))"
  using assms unfolding ApplyTransactions_def by (rule nonces_consecutive)

definition rich :: accounts where
  "rich = fmupd demo_addr \<lparr>ac_Balance = 100, ac_Nonce = 4\<rparr> fmempty"

lemma rich_pays: "payable rich (demo_tx to 30 2 5)"
  by (simp add: payable_def rich_def word_sless_alt word_sle_eq demo_addr_def)

lemma rich_applied: "ApplyTransactions rich [demo_tx to 30 2 5] p = Inr (paid p (demo_tx to 30 2 5) rich)"
  by (simp add: ApplyTransactions_single apply_tx_Inr rich_pays)

theorem ApplyTransactions_nonces_witness:
  "ac_Nonce (account_at (paid [] (demo_tx ''bob'' 30 2 5) rich) demo_addr) = 5"
  using ApplyTransactions_nonces [OF rich_applied [of "''bob''" "[]"], of demo_addr]
  by (simp add: rich_def)

text \<open>
  C6: money.  Applying a batch keeps the sum of all balances, modulo \<open>2^64\<close>, when the block has a
  producer to take the fees; without one the fees disappear.  When no balance is negative, the total is
  below \<open>2^63\<close> and no \<open>amount + fee\<close> overflows, no balance becomes negative and the sum of the
  balances as integers is kept in the same way.
\<close>

theorem ApplyTransactions_money:
  assumes "ApplyTransactions s txs producer = Inr s'"
  shows "money s' = money s - (if producer = [] then fees txs else 0) \<and>
    (solvent s \<and> money_int s < 2 ^ 63 \<and>
      (\<forall>tx\<in>set txs. sint (tx_Amount tx) + sint (tx_Fee tx) < 2 ^ 63) \<longrightarrow>
      solvent s' \<and> money_int s' = money_int s -
        (if producer = [] then sum_list (map (\<lambda>tx. sint (tx_Fee tx)) txs) else 0))"
  using assms apply_from_total apply_from_money unfolding ApplyTransactions_def by blast

theorem ApplyTransactions_money_witness:
  "money (paid ''carol'' (demo_tx ''bob'' 30 2 5) rich) = 100 \<and>
    money_int (paid ''carol'' (demo_tx ''bob'' 30 2 5) rich) = 100"
proof -
  have "solvent rich" "money rich = 100" "money_int rich = 100"
    by (simp_all add: rich_def money_upd money_int_upd solvent_def)
    (simp_all add: money_def money_int_def)
  with ApplyTransactions_money [OF rich_applied [of "''bob''" "''carol''"]] show ?thesis by simp
qed

text \<open>
  C40: the sum \<open>amount + fee\<close> can wrap, and then money appears.  The owner of any key can sign a
  transaction of \<open>2^63 - 1\<close> with a fee of \<open>2^63 - 1\<close>; it verifies, and it applies to the empty ledger:
  the sender, who had nothing, ends with a balance of 2, and the receiver and the producer of the block
  with \<open>2^63 - 1\<close> each.
\<close>

theorem ApplyTransactions_mints:
  assumes "ecdsa_correct G" "generated_key G k"
    and "SignTransaction G rnd k (Some \<lparr>tx_From = [], tx_To = to, tx_Amount = 2 ^ 63 - 1,
      tx_Fee = 2 ^ 63 - 1, tx_Nonce = 1, tx_PubKey = [], tx_Signature = [], tx_Hash = []\<rparr>) = (Some tx, None)"
    and "distinct [tx_From tx, to, producer]" "producer \<noteq> []"
  shows "VerifyTransactions G [tx] = None \<and>
    (\<exists>s. ApplyTransactions fmempty [tx] producer = Inr s \<and>
      ac_Balance (account_at s (tx_From tx)) = 2 \<and> ac_Balance (account_at s to) = 2 ^ 63 - 1 \<and>
      ac_Balance (account_at s producer) = 2 ^ 63 - 1)"
proof -
  have fields: "tx_To tx = to" "tx_Amount tx = 2 ^ 63 - 1" "tx_Fee tx = 2 ^ 63 - 1" "tx_Nonce tx = 1"
    "tx_From tx \<noteq> []"
    using assms(3) by (auto simp: SignTransaction_def AddressFromPubKey_def Let_def split: sum.splits)
  have "payable fmempty tx"
    using fields by (simp add: payable_def word_sless_alt word_sle_eq)
  moreover have "ac_Balance (account_at (paid producer tx fmempty) (tx_From tx)) = 2"
    "ac_Balance (account_at (paid producer tx fmempty) to) = 2 ^ 63 - 1"
    "ac_Balance (account_at (paid producer tx fmempty) producer) = 2 ^ 63 - 1"
    using fields assms(4,5) by (auto simp: paid_def Let_def)
  moreover have "VerifyTransactions G [tx] = None"
    using SignTransaction_verifies [OF assms(1-3)] by (simp add: VerifyTransactions_None)
  ultimately show ?thesis by (simp add: ApplyTransactions_single apply_tx_Inr)
qed

theorem ApplyTransactions_mints_witness:
  "\<exists>s. ApplyTransactions fmempty [demo_tx ''bob'' (2 ^ 63 - 1) (2 ^ 63 - 1) 1] ''carol'' = Inr s \<and>
    ac_Balance (account_at s demo_addr) = 2"
proof -
  have "generated_key demo_lib demo_key" by simp
  moreover have "distinct [tx_From (demo_tx ''bob'' (2 ^ 63 - 1) (2 ^ 63 - 1) 1), ''bob'', ''carol'']"
    by (simp add: demo_addr_def)
  ultimately show ?thesis
    using ApplyTransactions_mints [OF demo_ecdsa_correct _ demo_tx_signed [of "''bob''" "2 ^ 63 - 1" "2 ^ 63 - 1" 1]]
    unfolding demo_tx_fields(1) by blast
qed

text \<open>
  C39: a batch is applied completely or not at all.  It fails exactly when some transaction fails a
  check in the state that the ones before it lead to, and the error names the first failing check
  and the transaction's position; the state the caller passed is a value and stays as it was.
\<close>

theorem ApplyTransactions_error:
  "ApplyTransactions s txs producer = Inl e \<longleftrightarrow>
    (\<exists>before tx after t. txs = before @ tx # after \<and> ApplyTransactions s before producer = Inr t \<and>
      \<not> payable t tx \<and> e = at_index (fault t tx) (length before))"
proof
  assume err: "ApplyTransactions s txs producer = Inl e"
  have "\<exists>before tx after t. txs = before @ tx # after \<and> apply_from producer i before s = Inr t \<and>
      \<not> payable t tx \<and> e = at_index (fault t tx) (i + length before)"
    if "apply_from producer i txs s = Inl e" for i
    using that
  proof (induction txs arbitrary: i s)
    case Nil
    then show ?case by simp
  next
    case (Cons tx txs)
    show ?case
    proof (cases "apply_tx producer i tx s")
      case (Inl e')
      with Cons.prems show ?thesis
        by (intro exI [of _ "[]"] exI [of _ tx] exI [of _ txs] exI [of _ s]) (simp add: apply_tx_Inl)
    next
      case (Inr t)
      with Cons.prems Cons.IH [of "Suc i" t] obtain before u after r where
        "txs = before @ u # after" "apply_from producer (Suc i) before t = Inr r"
        "\<not> payable r u" "e = at_index (fault r u) (Suc i + length before)" by auto
      with Inr show ?thesis
        by (intro exI [of _ "tx # before"] exI [of _ u] exI [of _ after] exI [of _ r]) simp
    qed
  qed
  from this [of 0] err show "\<exists>before tx after t. txs = before @ tx # after \<and>
      ApplyTransactions s before producer = Inr t \<and> \<not> payable t tx \<and> e = at_index (fault t tx) (length before)"
    by (simp add: ApplyTransactions_def)
next
  assume "\<exists>before tx after t. txs = before @ tx # after \<and> ApplyTransactions s before producer = Inr t \<and>
      \<not> payable t tx \<and> e = at_index (fault t tx) (length before)"
  then obtain before tx after t where txs: "txs = before @ tx # after"
    and t: "apply_from producer 0 before s = Inr t" "\<not> payable t tx" "e = at_index (fault t tx) (length before)"
    by (auto simp: ApplyTransactions_def)
  have "apply_tx producer (length before) tx t = Inl e" using t(2,3) by (simp add: apply_tx_Inl)
  with t(1) show "ApplyTransactions s txs producer = Inl e"
    by (simp add: ApplyTransactions_def txs apply_from_append)
qed

lemma VerifyPoH_None:
  assumes "b_Tick cur \<noteq> - 1"
  shows "(\<exists>r. VerifyPoH G h t cur = Some r) \<and>
    (VerifyPoH G h t cur = Some (h', t', None) \<longleftrightarrow>
      t < b_Tick cur \<and> b_Slot cur = b_Tick cur div TicksPerSlot \<and> t' = b_Tick cur \<and>
      h' = poh_chain G h t (b_Tick cur) \<and> ParsePoHHashHex (b_PoHHash cur) = Inr h')"
proof (cases "t < b_Tick cur \<and> b_Tick cur div TicksPerSlot = b_Slot cur")
  case True
  with VerifyPoH_run [of t cur G h] assms show ?thesis
    by (auto simp: Let_def split: sum.splits)
next
  case False
  then show ?thesis by (auto simp: VerifyPoH_def)
qed

text \<open>
  What \<open>VerifyPoH\<close> accepts.  For a block whose tick is not \<open>2^64 - 1\<close> it returns, and it accepts
  exactly when the tick exceeds the expected one, the slot is the tick's slot and the block's hash is
  the hexadecimal form of the chain's digest at that tick; it then hands on this digest and tick.
\<close>

theorem VerifyPoH_accepts:
  assumes "b_Tick cur \<noteq> - 1"
  shows "(\<exists>r. VerifyPoH G h t cur = Some r) \<and>
    (VerifyPoH G h t cur = Some (h', t', None) \<longleftrightarrow>
      t < b_Tick cur \<and> b_Slot cur = b_Tick cur div TicksPerSlot \<and> t' = b_Tick cur \<and>
      h' = poh_chain G h t (b_Tick cur) \<and> hexDecode (b_PoHHash cur) = Inr (digest_bytes h'))"
  using VerifyPoH_None [OF assms] by (simp add: ParsePoHHashHex_Inr)

definition demo_seed :: digest where
  "demo_seed = HashPoHSeed demo_lib 3"

theorem VerifyPoH_accepts_witness:
  "VerifyPoH demo_lib demo_seed 0
      (zero_block\<lparr>b_Tick := 1, b_PoHHash := PoHHashHex (poh_chain demo_lib demo_seed 0 1)\<rparr>) =
    Some (poh_chain demo_lib demo_seed 0 1, 1, None)"
  using VerifyPoH_accepts [of "zero_block\<lparr>b_Tick := 1, b_PoHHash := PoHHashHex (poh_chain demo_lib demo_seed 0 1)\<rparr>"
      demo_lib demo_seed 0 "poh_chain demo_lib demo_seed 0 1" 1]
  by (simp add: zero_block_def PoHHashHex_def TicksPerSlot_def)

text \<open>
  C30: the producer's clock and the verifier agree.  A block that carries the tick, slot and hash of the
  clock after \<open>Tick n\<close>, for a positive \<open>n\<close> and a tick below \<open>2^64 - 1\<close>, is accepted by \<open>VerifyPoH\<close>
  from the clock's state before, and the verifier's state becomes the clock's.
\<close>

theorem VerifyPoH_Tick:
  assumes "0 < n" "unat (p_CurrentTick p) + unat n < 2 ^ 64 - 1" "Tick G p n = (q, out)"
    and "b_Tick b = p_CurrentTick q" "b_Slot b = Slot q" "b_PoHHash b = PoHHashHex (p_Hash q)"
  shows "VerifyPoH G (p_Hash p) (p_CurrentTick p) b = Some (p_Hash q, p_CurrentTick q, None)"
proof -
  let ?t = "p_CurrentTick p"
  have q: "p_CurrentTick q = ?t + n" "p_Hash q = poh_chain G (p_Hash p) ?t (?t + n)"
    using assms(3) tick_power [of p "unat n" G] assms(2) unfolding Tick_power word_of_unat
    by (auto simp: Let_def)
  have sum: "unat (?t + n) = unat ?t + unat n" using assms(2) by (simp add: unat_word_ariths)
  have pos: "0 < unat n" using assms(1) by (simp add: word_less_nat_alt)
  have max: "unat (- 1 :: u64) = 2 ^ 64 - 1" by (simp add: unsigned_minus_1_eq_mask mask_eq_exp_minus_1)
  have "unat (?t + n) < unat (- 1 :: u64)" using assms(2) unfolding sum max .
  then have tick: "?t + n \<noteq> - 1" by auto
  have "?t < ?t + n" using sum pos by (simp add: word_less_nat_alt)
  then show ?thesis
    using VerifyPoH_run [of ?t b G "p_Hash p"] assms(4-6) tick q
    by (simp add: Slot_def PoHHashHex_def ParsePoHHashHex_def Let_def)
qed

theorem VerifyPoH_Tick_witness:
  "VerifyPoH demo_lib demo_seed 0 (let q = fst (Tick demo_lib (NewPoH demo_seed) 20) in
      zero_block\<lparr>b_Tick := p_CurrentTick q, b_Slot := Slot q, b_PoHHash := PoHHashHex (p_Hash q)\<rparr>) =
    Some (p_Hash (fst (Tick demo_lib (NewPoH demo_seed) 20)), 20, None)"
proof -
  let ?p = "NewPoH demo_seed"
  have tick: "p_CurrentTick (fst (Tick demo_lib ?p 20)) = 20"
    using tick_power [of ?p 20 demo_lib] by (simp add: Tick_power NewPoH_def Let_def)
  have "Tick demo_lib ?p 20 = (fst (Tick demo_lib ?p 20), snd (Tick demo_lib ?p 20))" by simp
  from VerifyPoH_Tick [OF _ _ this, of "let q = fst (Tick demo_lib ?p 20) in
      zero_block\<lparr>b_Tick := p_CurrentTick q, b_Slot := Slot q, b_PoHHash := PoHHashHex (p_Hash q)\<rparr>"]
  show ?thesis by (simp add: Let_def NewPoH_def tick [unfolded NewPoH_def] zero_block_def)
qed

text \<open>
  \<open>VerifyPoH\<close> does not return for a block with tick \<open>2^64 - 1\<close> and the matching slot: the loop's
  counter wraps before its condition fails.
\<close>

theorem VerifyPoH_diverges:
  assumes "b_Tick cur = - 1" "b_Slot cur = b_Tick cur div TicksPerSlot" "t \<noteq> - 1"
  shows "VerifyPoH G h t cur = None"
proof -
  have "\<not> b_Tick cur \<le> t" using assms(1,3) less_plus_one_64 [of t] by (auto simp: not_le word_less_1 word_order.extremum_unique)
  with assms show ?thesis by (simp add: VerifyPoH_def for_incl_diverges)
qed

theorem VerifyPoH_diverges_witness:
  "VerifyPoH demo_lib demo_seed 0 (zero_block\<lparr>b_Tick := - 1, b_Slot := - 1 div 20\<rparr>) = None"
  by (rule VerifyPoH_diverges) (simp_all add: zero_block_def TicksPerSlot_def)

end
