(* ===== verification/BlockTree.thy ===== *)
theory BlockTree
  imports PoV
begin

text \<open>
  The part of \<open>core/blockchain.go\<close> that works on blocks alone: the score that orders forks, the walk from a
  tip to the root, the reversal of its result, and the depth of a reorganisation.

  A walk follows parent hashes until the parent is \<open>GENESIS\<close>, and need not end on an arbitrary map of
  blocks.  \<open>rooted\<close> describes the chain that ends at a hash, \<open>tree_ok\<close> says that every stored block has
  one and is stored under its own hash; with it every walk returns.
\<close>

section \<open>Scores\<close>

record ChainScore =
  cs_Slot :: u64
  cs_CumulativeWeight :: u64
  cs_Hash :: string

definition zero_score :: ChainScore where
  "zero_score = \<lparr>cs_Slot = 0, cs_CumulativeWeight = 0, cs_Hash = []\<rparr>"

definition betterScore :: "ChainScore \<Rightarrow> ChainScore \<Rightarrow> bool" where
  "betterScore a b =
    (if cs_CumulativeWeight a \<noteq> cs_CumulativeWeight b then cs_CumulativeWeight b < cs_CumulativeWeight a
     else if cs_Slot a \<noteq> cs_Slot b then cs_Slot b < cs_Slot a
     else cs_Hash a < cs_Hash b)"

definition score_key :: "ChainScore \<Rightarrow> int \<times> int \<times> string" where
  "score_key s = (- uint (cs_CumulativeWeight s), - uint (cs_Slot s), cs_Hash s)"

interpretation fork: keyed_order betterScore score_key
  by unfold_locales (auto simp: betterScore_def score_key_def word_less_def word_uint_eq_iff)

lemma score_key_inject [simp]: "score_key a = score_key b \<longleftrightarrow> a = b"
  by (cases a, cases b) (auto simp: score_key_def word_uint_eq_iff)

section \<open>Reversal in place\<close>

text \<open>\<open>for i, j := 0, len(chain)-1; i < j; i, j = i+1, j-1 { chain[i], chain[j] = chain[j], chain[i] }\<close>\<close>

function swap_loop :: "int \<Rightarrow> int \<Rightarrow> 'a list \<Rightarrow> 'a list" where
  "swap_loop i j xs =
    (if i < j then swap_loop (i + 1) (j - 1) (xs[nat i := xs ! nat j, nat j := xs ! nat i]) else xs)"
  by pat_completeness auto
termination
  by (relation "measure (\<lambda>(i, j, xs). nat (j - i))") auto

declare swap_loop.simps [simp del]

definition reverse_chain :: "'a list \<Rightarrow> 'a list" where
  "reverse_chain xs = swap_loop 0 (int (length xs) - 1) xs"

lemma swap_loop_nth:
  "\<lbrakk>0 \<le> i; i + j = int (length xs) - 1\<rbrakk> \<Longrightarrow> length (swap_loop i j xs) = length xs \<and>
    (\<forall>k < length xs. swap_loop i j xs ! k =
      (if i \<le> int k \<and> int k \<le> j then xs ! (length xs - 1 - k) else xs ! k))"
proof (induction i j xs rule: swap_loop.induct)
  case (1 i j xs)
  show ?case
  proof (cases "i < j")
    case False
    then have "xs ! k = xs ! (length xs - 1 - k)" if "i \<le> int k" "int k \<le> j" for k
    proof -
      from False that 1(2,3) have "length xs - 1 - k = k" by linarith
      then show ?thesis by simp
    qed
    with False show ?thesis by (subst (1 2) swap_loop.simps) auto
  next
    case True
    let ?ys = "xs[nat i := xs ! nat j, nat j := xs ! nat i]"
    have IH: "length (swap_loop (i + 1) (j - 1) ?ys) = length xs"
      "\<And>k. k < length xs \<Longrightarrow> swap_loop (i + 1) (j - 1) ?ys ! k =
        (if i + 1 \<le> int k \<and> int k \<le> j - 1 then ?ys ! (length xs - 1 - k) else ?ys ! k)"
      using 1(1) [OF True] 1(2,3) by auto
    have "(if i + 1 \<le> int k \<and> int k \<le> j - 1 then ?ys ! (length xs - 1 - k) else ?ys ! k) =
        (if i \<le> int k \<and> int k \<le> j then xs ! (length xs - 1 - k) else xs ! k)" if k: "k < length xs" for k
    proof -
      consider "int k = i" | "int k = j" | "i < int k" "int k < j" | "int k < i \<or> j < int k" by linarith
      then show ?thesis
      proof cases
        case 1
        then have "k = nat i" "nat j = length xs - 1 - k" "nat i \<noteq> nat j" using "1.prems" True by linarith+
        with 1 k True show ?thesis by simp
      next
        case 2
        then have "k = nat j" "nat i = length xs - 1 - k" using "1.prems" True by linarith+
        with 2 k True show ?thesis by simp
      next
        case 3
        then have "length xs - 1 - k \<noteq> nat i" "length xs - 1 - k \<noteq> nat j" using "1.prems" k by linarith+
        with 3 show ?thesis by simp
      next
        case 4
        then have "k \<noteq> nat i" "k \<noteq> nat j" using "1.prems" True by linarith+
        with 4 True show ?thesis by auto
      qed
    qed
    with IH True show ?thesis by (subst (1 2) swap_loop.simps) simp
  qed
qed

lemma reverse_chain_rev [simp]: "reverse_chain xs = rev xs"
proof (rule nth_equalityI)
  have nth: "length (reverse_chain xs) = length xs"
    "\<And>k. k < length xs \<Longrightarrow> reverse_chain xs ! k = xs ! (length xs - 1 - k)"
    using swap_loop_nth [of 0 "int (length xs) - 1" xs] by (auto simp: reverse_chain_def)
  show "length (reverse_chain xs) = length (rev xs)" using nth(1) by simp
  show "reverse_chain xs ! k = rev xs ! k" if "k < length (reverse_chain xs)" for k
    using that nth by (simp add: rev_nth)
qed

section \<open>Walks\<close>

type_synonym blocks = "(string, Block) fmap"

partial_function (option) chain_walk :: "blocks \<Rightarrow> string \<Rightarrow> Block list \<Rightarrow> Block list result option" where
  \<comment> \<open>the loop of \<open>chainFromTip\<close>\<close>
  "chain_walk blocks curHash chain =
    (case fmlookup blocks curHash of
      None \<Rightarrow> Some (Inl (ErrNew ''missing block in chain''))
    | Some cur \<Rightarrow>
       (let chain = chain @ [cur] in
        if b_PrevHash cur = ''GENESIS'' then Some (Inr chain)
        else chain_walk blocks (b_PrevHash cur) chain))"

definition chainFromTip :: "blocks \<Rightarrow> string \<Rightarrow> Block list result option" where
  "chainFromTip blocks tipHash =
    (if tipHash = [] then Some (Inl (ErrNew ''empty tip hash''))
     else do {
       r \<leftarrow> chain_walk blocks tipHash [];
       Some (case r of Inl e \<Rightarrow> Inl e | Inr chain \<Rightarrow> Inr (reverse_chain chain))
     })"

partial_function (option) canonical_walk :: "blocks \<Rightarrow> string \<Rightarrow> Block list \<Rightarrow> Block list option" where
  \<comment> \<open>the loop of \<open>rebuildCanonicalChain\<close>, which stops at a missing block\<close>
  "canonical_walk blocks curHash chain =
    (case fmlookup blocks curHash of
      None \<Rightarrow> Some chain
    | Some cur \<Rightarrow>
       (let chain = chain @ [cur] in
        if b_PrevHash cur = ''GENESIS'' then Some chain
        else canonical_walk blocks (b_PrevHash cur) chain))"

section \<open>Depth of a reorganisation\<close>

definition computeReorgDepthAndSlot :: "Block list \<Rightarrow> Block list \<Rightarrow> nat \<times> u64" where
  "computeReorgDepthAndSlot oldChain newChain =
    (let minLen = (if length newChain < length oldChain then length newChain else length oldChain);
         diverge = (case find (\<lambda>i. b_Hash (oldChain ! i) \<noteq> b_Hash (newChain ! i)) [0..<minLen] of
             None \<Rightarrow> minLen | Some i \<Rightarrow> i);
         reorgDepth = length oldChain - diverge;
         divergeSlot = (if diverge < length oldChain then b_Slot (oldChain ! diverge)
           else if diverge < length newChain then b_Slot (newChain ! diverge) else 0)
     in (reorgDepth, divergeSlot))"

section \<open>Rooted chains\<close>

text \<open>\<open>rooted blocks h c\<close>: following parents from \<open>h\<close> gives the chain \<open>c\<close>, listed from the root.\<close>

inductive rooted :: "blocks \<Rightarrow> string \<Rightarrow> Block list \<Rightarrow> bool" for blocks where
  root: "fmlookup blocks h = Some b \<Longrightarrow> b_PrevHash b = ''GENESIS'' \<Longrightarrow> rooted blocks h [b]"
| child: "fmlookup blocks h = Some b \<Longrightarrow> b_PrevHash b \<noteq> ''GENESIS'' \<Longrightarrow> rooted blocks (b_PrevHash b) c \<Longrightarrow>
    rooted blocks h (c @ [b])"

inductive_cases rootedE: "rooted blocks h c"

lemma rooted_simps: "fmlookup blocks h = Some b \<Longrightarrow> rooted blocks h c \<longleftrightarrow>
    (if b_PrevHash b = ''GENESIS'' then c = [b] else \<exists>c'. c = c' @ [b] \<and> rooted blocks (b_PrevHash b) c')"
  by (auto elim: rootedE intro: rooted.intros)

lemma rooted_nonempty: "rooted blocks h c \<Longrightarrow> c \<noteq> []"
  by (induction rule: rooted.induct) auto

lemma rooted_last: "rooted blocks h c \<Longrightarrow> fmlookup blocks h = Some (last c)"
  by (induction rule: rooted.induct) auto

lemma rooted_unique: "rooted blocks h c \<Longrightarrow> rooted blocks h d \<Longrightarrow> c = d"
proof (induction arbitrary: d rule: rooted.induct)
  case (root h b)
  then show ?case using rooted_simps [OF root.hyps(1), of d] by simp
next
  case (child h b c)
  then obtain d' where "d = d' @ [b]" "rooted blocks (b_PrevHash b) d'"
    using rooted_simps [OF child.hyps(1), of d] by auto
  with child.IH show ?case by blast
qed

lemma rooted_hd: "rooted blocks h c \<Longrightarrow> b_PrevHash (hd c) = ''GENESIS''"
  by (induction rule: rooted.induct) (auto simp: hd_append dest: rooted_nonempty)

lemma rooted_set: "rooted blocks h c \<Longrightarrow> b \<in> set c \<Longrightarrow> \<exists>k. fmlookup blocks k = Some b"
  by (induction rule: rooted.induct) auto

lemma rooted_prefix:
  "rooted blocks h e \<Longrightarrow> e = c @ b # d \<Longrightarrow> \<exists>k. fmlookup blocks k = Some b \<and> rooted blocks k (c @ [b])"
proof (induction arbitrary: d rule: rooted.induct)
  case (root h b')
  then show ?case by (auto simp: Cons_eq_append_conv intro!: rooted.root)
next
  case (child h b' c')
  show ?case
  proof (cases d rule: rev_cases)
    case Nil
    with child.prems have "c = c'" "b = b'" by auto
    with child.hyps rooted.child [OF child.hyps] show ?thesis by blast
  next
    case (snoc d' e)
    with child.prems have "c' = c @ b # d'" by simp
    then show ?thesis by (rule child.IH)
  qed
qed

lemma rooted_mono:
  assumes "rooted blocks h c" "\<And>k b. fmlookup blocks k = Some b \<Longrightarrow> fmlookup blocks' k = Some b"
  shows "rooted blocks' h c"
  using assms(1) by (induction rule: rooted.induct) (auto intro: rooted.intros assms(2))

text \<open>The links of a rooted chain.\<close>

lemma rooted_links:
  "rooted blocks h c \<Longrightarrow> \<forall>k b. fmlookup blocks k = Some b \<longrightarrow> b_Hash b = k \<Longrightarrow>
    Suc i < length c \<Longrightarrow> b_PrevHash (c ! Suc i) = b_Hash (c ! i) \<and> b_PrevHash (c ! Suc i) \<noteq> ''GENESIS''"
proof (induction arbitrary: i rule: rooted.induct)
  case (root h b)
  then show ?case by simp
next
  case (child h b c)
  show ?case
  proof (cases "Suc i < length c")
    case True
    then have "(c @ [b]) ! Suc i = c ! Suc i" "(c @ [b]) ! i = c ! i" by (simp_all add: nth_append)
    with child.IH [OF child.prems(1) True] show ?thesis by metis
  next
    case False
    with child.prems have i: "Suc i = length c" by simp
    then have "c ! i = last c" using rooted_nonempty [OF child.hyps(3)]
      by (metis diff_Suc_1 last_conv_nth)
    with i child rooted_last [OF child.hyps(3)] show ?thesis by (simp add: nth_append)
  qed
qed

lemma chain_walk_rooted:
  "rooted blocks h c \<Longrightarrow> chain_walk blocks h acc = Some (Inr (acc @ rev c))"
  by (induction arbitrary: acc rule: rooted.induct) (subst chain_walk.simps; simp add: Let_def)+

lemma canonical_walk_rooted:
  "rooted blocks h c \<Longrightarrow> canonical_walk blocks h acc = Some (acc @ rev c)"
  by (induction arbitrary: acc rule: rooted.induct) (subst canonical_walk.simps; simp add: Let_def)+

abbreviation walk_outcome :: "blocks \<Rightarrow> string \<Rightarrow> Block list \<Rightarrow> Block list result \<Rightarrow> bool" where
  "walk_outcome blocks h acc r \<equiv> (\<exists>c. r = Inr (acc @ rev c) \<and> rooted blocks h c) \<or>
     r = Inl (ErrNew ''missing block in chain'')"

lemma chain_walk_result: "chain_walk blocks h acc = Some r \<Longrightarrow> walk_outcome blocks h acc r"
proof (rule chain_walk.raw_induct [where P = walk_outcome])
  fix walk blocks h acc r
  assume IH: "\<And>blocks h acc r. walk blocks h acc = Some r \<Longrightarrow> walk_outcome blocks h acc r"
    and ret: "(case fmlookup blocks h of
        None \<Rightarrow> Some (Inl (ErrNew ''missing block in chain''))
      | Some cur \<Rightarrow> let chain = acc @ [cur] in
          if b_PrevHash cur = ''GENESIS'' then Some (Inr chain) else walk blocks (b_PrevHash cur) chain) = Some r"
  show "walk_outcome blocks h acc r"
  proof (cases "fmlookup blocks h")
    case None
    with ret show ?thesis by simp
  next
    case (Some b)
    show ?thesis
    proof (cases "b_PrevHash b = ''GENESIS''")
      case True
      with ret Some show ?thesis by (auto intro!: exI [of _ "[b]"] rooted.root)
    next
      case False
      with ret Some have "walk blocks (b_PrevHash b) (acc @ [b]) = Some r" by (simp add: Let_def)
      from IH [OF this] show ?thesis
      proof
        assume "\<exists>c. r = Inr ((acc @ [b]) @ rev c) \<and> rooted blocks (b_PrevHash b) c"
        then obtain c where "r = Inr (acc @ rev (c @ [b]))" "rooted blocks (b_PrevHash b) c" by auto
        with rooted.child [OF Some False] show ?thesis by blast
      qed simp
    qed
  qed
qed

lemma chainFromTip_rooted: "rooted blocks h c \<Longrightarrow> h \<noteq> [] \<Longrightarrow> chainFromTip blocks h = Some (Inr c)"
  by (simp add: chainFromTip_def chain_walk_rooted)

lemma chainFromTip_Inr: "chainFromTip blocks h = Some (Inr c) \<longleftrightarrow> h \<noteq> [] \<and> rooted blocks h c"
proof
  assume r: "chainFromTip blocks h = Some (Inr c)"
  then have h: "h \<noteq> []" by (auto simp: chainFromTip_def)
  with r obtain x where x: "chain_walk blocks h [] = Some x"
    and "(case x of Inl e \<Rightarrow> Inl e | Inr chain \<Rightarrow> Inr (reverse_chain chain)) = (Inr c :: Block list result)"
    by (auto simp: chainFromTip_def bind_eq_Some_conv)
  then obtain w where "chain_walk blocks h [] = Some (Inr w)" "c = rev w"
    by (cases x) auto
  with h chain_walk_result [of blocks h "[]" "Inr w"] show "h \<noteq> [] \<and> rooted blocks h c" by auto
qed (simp add: chainFromTip_rooted)

section \<open>Well-formed sets of blocks\<close>

definition tree_ok :: "blocks \<Rightarrow> bool" where
  "tree_ok blocks \<longleftrightarrow> (\<forall>h b. fmlookup blocks h = Some b \<longrightarrow>
     b_Hash b = h \<and> h \<noteq> [] \<and> h \<noteq> ''GENESIS'' \<and> (\<exists>c. rooted blocks h c))"

lemma tree_okD:
  assumes "tree_ok blocks" "fmlookup blocks h = Some b"
  shows "b_Hash b = h" "h \<noteq> []" "h \<noteq> ''GENESIS''" "\<exists>c. rooted blocks h c"
  using assms by (auto simp: tree_ok_def)

lemma tree_ok_singleton:
  "b_PrevHash b = ''GENESIS'' \<Longrightarrow> b_Hash b = h \<Longrightarrow> h \<noteq> [] \<Longrightarrow> h \<noteq> ''GENESIS'' \<Longrightarrow> tree_ok (fmupd h b fmempty)"
  by (auto simp: tree_ok_def intro!: exI rooted.root split: if_splits)

lemma rooted_insert_child:
  assumes "rooted blocks (b_PrevHash b) c" "b_PrevHash b \<noteq> ''GENESIS''" "fmlookup blocks (b_Hash b) = None"
  shows "rooted (fmupd (b_Hash b) b blocks) (b_Hash b) (c @ [b])"
    and "rooted blocks h d \<Longrightarrow> rooted (fmupd (b_Hash b) b blocks) h d"
proof -
  have mono: "rooted blocks h d \<Longrightarrow> rooted (fmupd (b_Hash b) b blocks) h d" for h d
    by (erule rooted_mono) (use assms(3) in auto)
  show "rooted (fmupd (b_Hash b) b blocks) (b_Hash b) (c @ [b])"
    by (rule rooted.child) (use assms mono in auto)
  show "rooted blocks h d \<Longrightarrow> rooted (fmupd (b_Hash b) b blocks) h d" by (rule mono)
qed

lemma tree_ok_insert:
  assumes "tree_ok blocks" "fmlookup blocks (b_PrevHash b) \<noteq> None"
    and "fmlookup blocks (b_Hash b) = None" "b_Hash b \<noteq> []" "b_Hash b \<noteq> ''GENESIS''"
  shows "tree_ok (fmupd (b_Hash b) b blocks)"
proof -
  from assms(2) obtain p where "fmlookup blocks (b_PrevHash b) = Some p" by auto
  with tree_okD(3,4) [OF assms(1)] obtain c where c: "rooted blocks (b_PrevHash b) c" "b_PrevHash b \<noteq> ''GENESIS''"
    by blast
  show ?thesis
    using assms(1,4,5) rooted_insert_child [OF c assms(3)] unfolding tree_ok_def
    by (auto split: if_splits) blast+
qed

text \<open>
  The reorganisation depth: the two chains share their first blocks, and the depth counts the old
  chain's blocks after them.
\<close>

lemma find_first: "find P [0..<n] = Some i \<longleftrightarrow> i < n \<and> P i \<and> (\<forall>j<i. \<not> P j)"
  by (auto simp: find_Some_iff)

lemma find_none: "find P [0..<n] = None \<longleftrightarrow> (\<forall>j<n. \<not> P j)"
  by (auto simp: find_None_iff)

lemma computeReorg_extension: "computeReorgDepthAndSlot old (old @ c # cs) = (0, b_Slot c)"
proof -
  have "find (\<lambda>i. b_Hash (old ! i) \<noteq> b_Hash ((old @ c # cs) ! i)) [0..<length old] = None"
    unfolding find_none by (simp add: nth_append)
  then show ?thesis by (simp add: computeReorgDepthAndSlot_def Let_def nth_append)
qed

section \<open>Properties\<close>

text \<open>
  C33: \<open>betterScore\<close> is a strict total order on scores, so among the tips of any finite set of forks with
  pairwise different scores exactly one is better than all the others: nodes that know the same
  forks prefer the same one.
\<close>

theorem betterScore_total_order:
  "\<not> betterScore a a \<and> (betterScore a b \<and> betterScore b c \<longrightarrow> betterScore a c) \<and>
    (a = b \<or> betterScore a b \<or> betterScore b a) \<and>
    (finite S \<and> S \<noteq> {} \<longrightarrow> (\<exists>!best. best \<in> S \<and> (\<forall>other\<in>S - {best}. betterScore best other)))"
proof (intro conjI impI)
  show "\<not> betterScore a a" by (rule fork.irrefl)
  show "betterScore a b \<and> betterScore b c \<Longrightarrow> betterScore a c" using fork.trans by blast
  show "a = b \<or> betterScore a b \<or> betterScore b a" using fork.trichotomy [of a b] by auto
  assume S: "finite S \<and> S \<noteq> {}"
  then obtain best where best: "best \<in> S" "\<forall>x\<in>S. score_key best \<le> score_key x"
    using ex_min_if_finite [of "score_key ` S"] by (auto simp: not_less)
  show "\<exists>!best. best \<in> S \<and> (\<forall>other\<in>S - {best}. betterScore best other)"
  proof (rule ex1I [of _ best])
    show "best \<in> S \<and> (\<forall>other\<in>S - {best}. betterScore best other)"
      using best fork.before_key by (metis Diff_iff insertCI order_less_le score_key_inject)
    fix b assume b: "b \<in> S \<and> (\<forall>other\<in>S - {b}. betterScore b other)"
    show "b = best"
    proof (rule ccontr)
      assume "b \<noteq> best"
      with b best have "betterScore b best" by simp
      with best b show False by (simp add: fork.before_key leD)
    qed
  qed
qed

theorem betterScore_total_order_witness:
  "\<exists>!best. best \<in> {\<lparr>cs_Slot = 1, cs_CumulativeWeight = 5, cs_Hash = ''a''\<rparr>, zero_score} \<and>
    (\<forall>other\<in>{\<lparr>cs_Slot = 1, cs_CumulativeWeight = 5, cs_Hash = ''a''\<rparr>, zero_score} - {best}. betterScore best other)"
  using betterScore_total_order [of zero_score zero_score zero_score
      "{\<lparr>cs_Slot = 1, cs_CumulativeWeight = 5, cs_Hash = ''a''\<rparr>, zero_score}"] by blast

text \<open>
  C34: in a well-formed set of blocks every walk returns.  From any stored tip \<open>chainFromTip\<close> gives the
  chain from a block whose parent is \<open>GENESIS\<close> to the tip, each block the parent of the next, and the
  walk of \<open>rebuildCanonicalChain\<close> collects the same blocks.
\<close>

theorem chainFromTip_links:
  assumes "tree_ok blocks" "fmlookup blocks tip = Some b"
  shows "\<exists>c. chainFromTip blocks tip = Some (Inr c) \<and> canonical_walk blocks tip [] = Some (rev c) \<and>
    c \<noteq> [] \<and> last c = b \<and> b_PrevHash (hd c) = ''GENESIS'' \<and>
    (\<forall>i. Suc i < length c \<longrightarrow> b_PrevHash (c ! Suc i) = b_Hash (c ! i))"
proof -
  from tree_okD(2,4) [OF assms] obtain c where c: "rooted blocks tip c" and tip: "tip \<noteq> []" by blast
  have hashes: "\<forall>k b. fmlookup blocks k = Some b \<longrightarrow> b_Hash b = k"
    using assms(1) by (simp add: tree_ok_def)
  have "last c = b" using rooted_last [OF c] assms(2) by simp
  moreover have "chainFromTip blocks tip = Some (Inr c)" using c tip by (rule chainFromTip_rooted)
  moreover have "canonical_walk blocks tip [] = Some (rev c)" using canonical_walk_rooted [OF c, of "[]"] by simp
  moreover have "b_PrevHash (c ! Suc i) = b_Hash (c ! i)" if "Suc i < length c" for i
    using rooted_links [OF c hashes that] by simp
  ultimately show ?thesis using rooted_nonempty [OF c] rooted_hd [OF c] by blast
qed

definition root_block :: Block where
  "root_block = zero_block\<lparr>b_PrevHash := ''GENESIS'', b_Hash := ''g''\<rparr>"

definition next_block :: Block where
  "next_block = zero_block\<lparr>b_Index := 1, b_PrevHash := ''g'', b_Hash := ''h'', b_Slot := 1\<rparr>"

definition two_blocks :: blocks where
  "two_blocks = fmupd ''h'' next_block (fmupd ''g'' root_block fmempty)"

lemma two_blocks_ok: "tree_ok two_blocks"
  using tree_ok_insert [OF tree_ok_singleton [of root_block "''g''"], of next_block]
  by (simp add: two_blocks_def root_block_def next_block_def zero_block_def)

theorem chainFromTip_links_witness:
  "\<exists>c. chainFromTip two_blocks ''h'' = Some (Inr c) \<and> last c = next_block"
  using chainFromTip_links [OF two_blocks_ok, of "''h''" next_block] by (auto simp: two_blocks_def)

text \<open>
  The depth of a reorganisation is the number of blocks of the old chain that the new chain does not
  share.  Below that position the hashes agree, at that position they differ or one of the chains has
  ended, and the reported slot is that of the first block given up, or else of the first new block.
\<close>

theorem computeReorgDepth_prefix:
  assumes "computeReorgDepthAndSlot old new = (depth, slot)"
  shows "depth \<le> length old \<and> (let n = length old - depth in
    n \<le> length new \<and> (\<forall>i<n. b_Hash (old ! i) = b_Hash (new ! i)) \<and>
    (n = length old \<or> n = length new \<or> b_Hash (old ! n) \<noteq> b_Hash (new ! n)) \<and>
    slot = (if depth > 0 then b_Slot (old ! n) else if n < length new then b_Slot (new ! n) else 0))"
proof -
  let ?m = "if length new < length old then length new else length old"
  let ?P = "\<lambda>i. b_Hash (old ! i) \<noteq> b_Hash (new ! i)"
  define n where "n = (case find ?P [0..<?m] of None \<Rightarrow> ?m | Some i \<Rightarrow> i)"
  have n: "n \<le> ?m \<and> (\<forall>i<n. \<not> ?P i) \<and> (n = ?m \<or> ?P n)"
  proof (cases "find ?P [0..<?m]")
    case None
    then have "n = ?m" unfolding n_def by (simp only: option.case)
    with None show ?thesis unfolding find_none by simp
  next
    case (Some i)
    then have "n = i" unfolding n_def by (simp only: option.case)
    with Some show ?thesis unfolding find_first by simp
  qed
  have "computeReorgDepthAndSlot old new = (length old - n,
      if n < length old then b_Slot (old ! n) else if n < length new then b_Slot (new ! n) else 0)"
    unfolding computeReorgDepthAndSlot_def Let_def n_def by (rule refl)
  with assms have depth: "depth = length old - n"
    and slot: "slot = (if n < length old then b_Slot (old ! n) else if n < length new then b_Slot (new ! n) else 0)"
    by simp_all
  have "n \<le> length old" using n by (simp split: if_splits)
  then have "length old - depth = n" using depth by simp
  then show ?thesis using n depth slot unfolding Let_def by (auto split: if_splits)
qed

theorem computeReorgDepth_prefix_witness:
  "computeReorgDepthAndSlot [root_block, next_block] [root_block, next_block\<lparr>b_Hash := ''i''\<rparr>] = (1, 1) \<and>
    b_Hash next_block \<noteq> b_Hash (next_block\<lparr>b_Hash := ''i''\<rparr>)"
proof -
  have r: "computeReorgDepthAndSlot [root_block, next_block] [root_block, next_block\<lparr>b_Hash := ''i''\<rparr>] = (1, 1)"
    by (simp add: computeReorgDepthAndSlot_def root_block_def next_block_def zero_block_def upt_rec)
  from computeReorgDepth_prefix [OF r] r show ?thesis by (simp add: Let_def)
qed

end
