(* ===== verification/Mempool.thy ===== *)
theory Mempool
  imports PoV
begin

text \<open>
  \<open>core/mempool.go\<close>: the pool of pending transactions, a map by hash and a list in priority order, and
  the selection of a block's transactions.  The mutex makes the operations atomic and is not modelled.

  \<open>PopForBlock\<close> filters the list in place: \<open>remaining\<close> is a prefix of the array that the loop is still
  reading.  The model keeps that array (\<open>pop_step\<close> writes to it), and \<open>PopForBlock_greedy\<close> shows
  that it computes the plain selection \<open>greedy\<close>.
\<close>

section \<open>The pool\<close>

record Mempool =
  mp_byHash :: "(string, Transaction) fmap"
  mp_list :: "Transaction list"

definition NewMempool :: Mempool where
  "NewMempool = \<lparr>mp_byHash = fmempty, mp_list = []\<rparr>"

definition tx_before :: "Transaction \<Rightarrow> Transaction \<Rightarrow> bool" where
  \<comment> \<open>the comparison passed to \<open>sort.Slice\<close>\<close>
  "tx_before a b =
    (if tx_Fee a \<noteq> tx_Fee b then tx_Fee b <s tx_Fee a
     else if tx_From a \<noteq> tx_From b then tx_From a < tx_From b
     else tx_Nonce a < tx_Nonce b)"

definition Add :: "golib \<Rightarrow> Mempool \<Rightarrow> Transaction \<Rightarrow> Mempool \<times> failure" where
  "Add G m tx =
    (if tx_Hash tx = [] then (m, Some (ErrNew ''missing tx hash''))
     else case VerifyTransactionSignature G tx of
       Some e \<Rightarrow> (m, Some e)
     | None \<Rightarrow>
       (case fmlookup (mp_byHash m) (tx_Hash tx) of
         Some _ \<Rightarrow> (m, Some (ErrNew ''duplicate tx''))
       | None \<Rightarrow>
         (let m = m\<lparr>mp_byHash := fmupd (tx_Hash tx) tx (mp_byHash m)\<rparr>;
              m = m\<lparr>mp_list := mp_list m @ [tx]\<rparr>;
              m = m\<lparr>mp_list := SortTxs G tx_before (mp_list m)\<rparr>
          in (m, None))))"

definition copyState :: "accounts \<Rightarrow> accounts" where
  "copyState state = range_loop (\<lambda>k v next. fmupd k v next) state fmempty"

text \<open>The variables of \<open>PopForBlock\<close>'s loop; \<open>pl_r\<close> is the length of \<open>remaining\<close>.\<close>

record PopLoop =
  pl_arr :: "Transaction list"
  pl_r :: nat
  pl_out :: "Transaction list"
  pl_state :: accounts
  pl_byHash :: "(string, Transaction) fmap"

definition keep_tx :: "Transaction \<Rightarrow> PopLoop \<Rightarrow> PopLoop" where
  \<comment> \<open>\<open>remaining = append(remaining, tx)\<close>\<close>
  "keep_tx tx s = s\<lparr>pl_arr := (pl_arr s)[pl_r s := tx], pl_r := Suc (pl_r s)\<rparr>"

definition pop_step :: "i64 \<Rightarrow> string \<Rightarrow> nat \<Rightarrow> PopLoop \<Rightarrow> PopLoop" where
  "pop_step limit producer i s =
    (let tx = pl_arr s ! i in
     if sint limit \<le> int (length (pl_out s)) then keep_tx tx s
     else case ApplyTransactions (pl_state s) [tx] producer of
       Inl e \<Rightarrow> keep_tx tx s
     | Inr applied \<Rightarrow> s\<lparr>pl_out := pl_out s @ [tx], pl_state := applied,
         pl_byHash := fmdrop (tx_Hash tx) (pl_byHash s)\<rparr>)"

definition PopForBlock :: "Mempool \<Rightarrow> accounts \<Rightarrow> i64 \<Rightarrow> string \<Rightarrow> Mempool \<times> Transaction list" where
  "PopForBlock m state limit producer =
    (if limit \<le>s 0 then (m, [])
     else if length (mp_list m) = 0 then (m, [])
     else let s = fold (pop_step limit producer) [0..<length (mp_list m)]
         \<lparr>pl_arr = mp_list m, pl_r = 0, pl_out = [], pl_state = copyState state, pl_byHash = mp_byHash m\<rparr>
       in (\<lparr>mp_byHash = pl_byHash s, mp_list = take (pl_r s) (pl_arr s)\<rparr>, pl_out s))"

section \<open>Priority\<close>

definition tx_key :: "Transaction \<Rightarrow> int \<times> string \<times> nat" where
  "tx_key tx = (- sint (tx_Fee tx), tx_From tx, unat (tx_Nonce tx))"

interpretation priority: keyed_order tx_before tx_key
proof
  fix x y :: Transaction
  have "tx_Fee x = tx_Fee y \<longleftrightarrow> sint (tx_Fee x) = sint (tx_Fee y)" by (metis signed_word_eqI)
  then show "tx_before x y \<longleftrightarrow> tx_key x < tx_key y"
    by (auto simp: tx_before_def tx_key_def word_sless_alt word_less_nat_alt)
qed

section \<open>Greedy selection\<close>

primrec greedy :: "('s \<Rightarrow> 'tx list \<Rightarrow> 's result) \<Rightarrow> nat \<Rightarrow> 's \<Rightarrow> 'tx list \<Rightarrow> 'tx list \<times> 'tx list \<times> 's" where
  "greedy run m s [] = ([], [], s)"
| "greedy run m s (x # xs) =
    (if m = 0 then ([], x # xs, s)
     else case run s [x] of
       Inl e \<Rightarrow> (case greedy run m s xs of (c, r, t) \<Rightarrow> (c, x # r, t))
     | Inr s' \<Rightarrow> (case greedy run (m - 1) s' xs of (c, r, t) \<Rightarrow> (x # c, r, t)))"

lemma greedy_0 [simp]: "greedy run 0 s xs = ([], xs, s)"
  by (cases xs) simp_all

context batch
begin

lemma greedy_runs: "greedy run m s xs = (c, r, t) \<Longrightarrow> run s c = Inr t"
proof (induction xs arbitrary: m s c r t)
  case Nil
  then show ?case by (simp add: run_Nil)
next
  case (Cons x xs)
  show ?case
  proof (cases "m = 0")
    case True
    with Cons.prems show ?thesis by (simp add: run_Nil)
  next
    case False
    show ?thesis
    proof (cases "run s [x]")
      case (Inl e)
      with False Cons show ?thesis by (auto split: prod.splits)
    next
      case (Inr s')
      with False Cons.prems obtain c' where "c = x # c'" "greedy run (m - 1) s' xs = (c', r, t)"
        by (auto split: prod.splits)
      with Cons.IH Inr run_append [of s "[x]" c' t] show ?thesis by simp
    qed
  qed
qed

lemma greedy_partition: "greedy run m s xs = (c, r, t) \<Longrightarrow> mset c + mset r = mset xs \<and> length c \<le> m"
proof (induction xs arbitrary: m s c r t)
  case Nil
  then show ?case by simp
next
  case (Cons x xs)
  then show ?case
    by (cases "m = 0"; cases "run s [x]") (fastforce split: prod.splits)+
qed

lemma greedy_sets:
  assumes "greedy run m s xs = (c, r, t)"
  shows "set c \<subseteq> set xs" "set r \<subseteq> set xs"
proof -
  from greedy_partition [OF assms] have "set_mset (mset c + mset r) = set_mset (mset xs)" by simp
  then show "set c \<subseteq> set xs" "set r \<subseteq> set xs" by auto
qed

lemma greedy_sorted:
  "greedy run m s xs = (c, r, t) \<Longrightarrow> sorted_wrt R xs \<Longrightarrow> sorted_wrt R r \<and> sorted_wrt R c"
proof (induction xs arbitrary: m s c r t)
  case Nil
  then show ?case by simp
next
  case (Cons x xs)
  show ?case
  proof (cases "m = 0")
    case True
    with Cons.prems show ?thesis by auto
  next
    case False
    obtain s' m' c' r' where rec: "greedy run m' s' xs = (c', r', t)"
      and cr: "c = x # c' \<and> r = r' \<or> c = c' \<and> r = x # r'"
      using False Cons.prems(1) by (auto split: sum.splits prod.splits)
    from Cons.prems(2) have "\<forall>y\<in>set xs. R x y" and rest: "sorted_wrt R xs" by simp_all
    with greedy_sets [OF rec] have "\<forall>y\<in>set c'. R x y" "\<forall>y\<in>set r'. R x y" by blast+
    with cr Cons.IH [OF rec rest] show ?thesis by auto
  qed
qed

lemma greedy_maximal:
  "\<lbrakk>greedy run m s xs = (c, r, t); length c < m; x \<in> set r\<rbrakk> \<Longrightarrow>
    \<exists>before after s' e. c = before @ after \<and> run s before = Inr s' \<and> run s' [x] = Inl e"
proof (induction xs arbitrary: m s c r t)
  case Nil
  then show ?case by simp
next
  case (Cons y xs)
  then have m: "m \<noteq> 0" by auto
  show ?case
  proof (cases "run s [y]")
    case (Inl e)
    with m Cons.prems(1) obtain r' where rec: "greedy run m s xs = (c, r', t)" and r: "r = y # r'"
      by (auto split: prod.splits)
    show ?thesis
    proof (cases "x = y")
      case True
      with Inl run_Nil show ?thesis by (intro exI [of _ "[]"] exI [of _ c]) auto
    next
      case False
      with r Cons.prems(2,3) Cons.IH [OF rec] show ?thesis by auto
    qed
  next
    case (Inr s')
    with m Cons.prems(1) obtain c' where rec: "greedy run (m - 1) s' xs = (c', r, t)" and c: "c = y # c'"
      by (auto split: prod.splits)
    from c Cons.prems(2) have "length c' < m - 1" by simp
    from Cons.IH [OF rec this Cons.prems(3)] obtain before after u e where
      "c' = before @ after" "run s' before = Inr u" "run u [x] = Inl e" by blast
    with c Inr run_append [of s "[y]" before u] show ?thesis
      by (intro exI [of _ "y # before"] exI [of _ after]) auto
  qed
qed

end

section \<open>The in-place loop computes the greedy selection\<close>

lemma fmap_upd_fold:
  "distinct ks \<Longrightarrow> fmlookup (fold (\<lambda>k. fmupd k (f k)) ks m) x = (if x \<in> set ks then Some (f x) else fmlookup m x)"
  by (induction ks arbitrary: m) auto

lemma copyState_id [simp]: "copyState s = s"
proof (rule fmap_ext)
  fix x
  show "fmlookup (copyState s) x = fmlookup s x"
    using fmap_upd_fold [of "keys_of s" "\<lambda>k. the (fmlookup s k)" fmempty x]
    by (cases "fmlookup s x") (auto simp: copyState_def range_loop_def fmdomI fmlookup_dom_iff)
qed

definition drop_hashes :: "Transaction list \<Rightarrow> (string, Transaction) fmap \<Rightarrow> (string, Transaction) fmap" where
  "drop_hashes txs m = fold (\<lambda>tx. fmdrop (tx_Hash tx)) txs m"

lemma drop_hashes_simps [simp]: "drop_hashes [] m = m"
    "drop_hashes (txs @ [tx]) m = fmdrop (tx_Hash tx) (drop_hashes txs m)"
  by (simp_all add: drop_hashes_def)

lemma fmlookup_drop_hashes:
  "fmlookup (drop_hashes txs m) h = (if h \<in> tx_Hash ` set txs then None else fmlookup m h)"
  by (induction txs rule: rev_induct) auto

text \<open>Keeping a transaction extends the kept prefix and leaves the unread part of the array alone.\<close>

lemma keep_tx_prefix: "pl_r s < length (pl_arr s) \<Longrightarrow>
    take (pl_r (keep_tx tx s)) (pl_arr (keep_tx tx s)) = take (pl_r s) (pl_arr s) @ [tx]"
  by (simp add: keep_tx_def take_Suc_conv_app_nth)

lemma keep_tx_rest: "pl_r s < j \<Longrightarrow> pl_arr (keep_tx tx s) ! j = pl_arr s ! j"
  by (simp add: keep_tx_def)

lemma keep_tx_frame [simp]: "pl_out (keep_tx tx s) = pl_out s" "pl_state (keep_tx tx s) = pl_state s"
    "pl_byHash (keep_tx tx s) = pl_byHash s" "length (pl_arr (keep_tx tx s)) = length (pl_arr s)"
    "pl_r (keep_tx tx s) = Suc (pl_r s)"
  by (simp_all add: keep_tx_def)

lemma pop_loop:
  assumes "i \<le> length xs" "pl_r s \<le> i" "length (pl_arr s) = length xs"
    and "\<forall>j. i \<le> j \<longrightarrow> j < length xs \<longrightarrow> pl_arr s ! j = xs ! j"
    and "int m = max 0 (sint limit - int (length (pl_out s)))"
    and "greedy (\<lambda>s txs. ApplyTransactions s txs producer) m (pl_state s) (drop i xs) = (c, r, t)"
  shows "let s' = fold (pop_step limit producer) [i..<length xs] s in
    take (pl_r s') (pl_arr s') = take (pl_r s) (pl_arr s) @ r \<and> pl_out s' = pl_out s @ c \<and>
    pl_byHash s' = drop_hashes c (pl_byHash s)"
  using assms
proof (induction "length xs - i" arbitrary: i s m c r)
  case 0
  then show ?case by simp
next
  case (Suc n)
  then have i: "i < length xs" by simp
  then have head: "drop i xs = xs ! i # drop (Suc i) xs" by (simp add: Cons_nth_drop_Suc)
  have upt: "[i..<length xs] = i # [Suc i..<length xs]" using i by (rule upt_conv_Cons)
  let ?tx = "xs ! i" and ?g = "greedy (\<lambda>s txs. ApplyTransactions s txs producer)"
  have arr: "pl_arr s ! i = ?tx" using Suc.prems(4) i by simp
  have n: "n = length xs - Suc i" "Suc i \<le> length xs" using Suc.hyps(2) i by simp_all
  have kept: ?case if step: "pop_step limit producer i s = keep_tx ?tx s"
    and rec: "?g m (pl_state s) (drop (Suc i) xs) = (c, r', t)" "r = ?tx # r'" for r'
  proof -
    have r: "pl_r s < length (pl_arr s)" using i Suc.prems(2,3) by simp
    have "\<forall>j. Suc i \<le> j \<longrightarrow> j < length xs \<longrightarrow> pl_arr (keep_tx ?tx s) ! j = xs ! j"
      using Suc.prems(2,4) by (simp add: keep_tx_rest)
    with Suc.hyps(1) [OF n(1), of "keep_tx ?tx s" m c r'] Suc.prems n(2) rec(1) keep_tx_prefix [OF r, of ?tx]
    show ?thesis by (simp add: upt step rec(2) Let_def)
  qed
  show ?case
  proof (cases "m = 0")
    case True
    then have "pop_step limit producer i s = keep_tx ?tx s"
      using Suc.prems(5) arr by (simp add: pop_step_def Let_def)
    moreover have "c = []" "r = ?tx # drop (Suc i) xs" "t = pl_state s"
      using True Suc.prems(6) head by auto
    ultimately show ?thesis using kept True by simp
  next
    case False
    then have room: "\<not> sint limit \<le> int (length (pl_out s))" using Suc.prems(5) by simp
    show ?thesis
    proof (cases "ApplyTransactions (pl_state s) [?tx] producer")
      case (Inl e)
      then have "pop_step limit producer i s = keep_tx ?tx s"
        using room arr by (simp add: pop_step_def Let_def)
      moreover obtain r' where "?g m (pl_state s) (drop (Suc i) xs) = (c, r', t)" "r = ?tx # r'"
        using Suc.prems(6) False Inl head by (auto split: prod.splits)
      ultimately show ?thesis by (rule kept)
    next
      case (Inr u)
      let ?s = "s\<lparr>pl_out := pl_out s @ [?tx], pl_state := u, pl_byHash := fmdrop (tx_Hash ?tx) (pl_byHash s)\<rparr>"
      have step: "pop_step limit producer i s = ?s"
        using room arr Inr by (simp add: pop_step_def Let_def)
      obtain c' where rec: "?g (m - 1) u (drop (Suc i) xs) = (c', r, t)" and c: "c = ?tx # c'"
        using Suc.prems(6) False Inr head by (auto split: prod.splits)
      have "int (m - 1) = max 0 (sint limit - int (length (pl_out ?s)))"
        using Suc.prems(5) False by simp
      with Suc.hyps(1) [OF n(1), of ?s "m - 1" c' r] Suc.prems(2-4) n(2) rec
      show ?thesis by (simp add: upt step c Let_def drop_hashes_def)
    qed
  qed
qed

lemma PopForBlock_greedy:
  assumes "greedy (\<lambda>s txs. ApplyTransactions s txs producer) (nat (sint limit)) state (mp_list m) = (c, r, t)"
  shows "PopForBlock m state limit producer =
    (\<lparr>mp_byHash = drop_hashes c (mp_byHash m), mp_list = r\<rparr>, c)"
proof (cases "sint limit \<le> 0 \<or> mp_list m = []")
  case True
  then have "c = [] \<and> r = mp_list m" using assms by auto
  with True show ?thesis by (auto simp: PopForBlock_def word_sle_eq)
next
  case False
  let ?s0 = "\<lparr>pl_arr = mp_list m, pl_r = 0, pl_out = [], pl_state = copyState state, pl_byHash = mp_byHash m\<rparr>"
  from False pop_loop [of 0 "mp_list m" ?s0 "nat (sint limit)" limit producer c r t] assms
  show ?thesis by (simp add: PopForBlock_def word_sle_eq Let_def)
qed

section \<open>The pool's invariant\<close>

definition mempool_ok :: "golib \<Rightarrow> Mempool \<Rightarrow> bool" where
  "mempool_ok G m \<longleftrightarrow> distinct (map tx_Hash (mp_list m)) \<and>
     (\<forall>h tx. fmlookup (mp_byHash m) h = Some tx \<longleftrightarrow> tx \<in> set (mp_list m) \<and> tx_Hash tx = h) \<and>
     (\<forall>tx\<in>set (mp_list m). VerifyTransactionSignature G tx = None) \<and>
     sorted_wrt (\<lambda>x y. \<not> tx_before y x) (mp_list m)"

lemma mempool_ok_new: "mempool_ok G NewMempool"
  by (simp add: mempool_ok_def NewMempool_def)

lemma mempool_ok_lookup:
  "mempool_ok G m \<Longrightarrow> fmlookup (mp_byHash m) h = Some tx \<longleftrightarrow> tx \<in> set (mp_list m) \<and> tx_Hash tx = h"
  by (simp add: mempool_ok_def)

lemma mempool_ok_lookup_None:
  "mempool_ok G m \<Longrightarrow> fmlookup (mp_byHash m) h = None \<longleftrightarrow> h \<notin> tx_Hash ` set (mp_list m)"
proof (cases "fmlookup (mp_byHash m) h")
  case None
  assume "mempool_ok G m"
  with None mempool_ok_lookup [of G m h] show ?thesis by auto
next
  case (Some tx)
  assume "mempool_ok G m"
  with Some mempool_ok_lookup [of G m h tx] show ?thesis by auto
qed

lemma verified_hash: "VerifyTransactionSignature G tx = None \<Longrightarrow> tx_Hash tx \<noteq> []"
proof -
  assume "VerifyTransactionSignature G tx = None"
  then have "tx_Hash tx = hexEncode (HashTx G tx)" by (auto simp: VerifyTransactionSignature_None)
  moreover have "HashTx G tx \<noteq> []" by (metis length_HashTx list.size(3) zero_neq_numeral)
  ultimately show ?thesis by simp
qed

lemma Add_inserts:
  assumes "sort_slice_correct G" "mempool_ok G m" "Add G m tx = (m', None)"
  shows "mempool_ok G m' \<and> mset (mp_list m') = add_mset tx (mset (mp_list m)) \<and>
    tx_Hash tx \<notin> tx_Hash ` set (mp_list m)"
proof -
  from assms(3) have valid: "VerifyTransactionSignature G tx = None"
    and free: "fmlookup (mp_byHash m) (tx_Hash tx) = None"
    and m': "m' = \<lparr>mp_byHash = fmupd (tx_Hash tx) tx (mp_byHash m), mp_list = SortTxs G tx_before (mp_list m @ [tx])\<rparr>"
    by (auto simp: Add_def Let_def split: if_splits option.splits)
  have new: "tx_Hash tx \<notin> tx_Hash ` set (mp_list m)"
    using free mempool_ok_lookup_None [OF assms(2)] by simp
  have "mset (SortTxs G tx_before (mp_list m @ [tx])) = mset (mp_list m @ [tx])"
    and sorted: "sorted_wrt (\<lambda>x y. \<not> tx_before y x) (SortTxs G tx_before (mp_list m @ [tx]))"
    using assms(1) priority.weak unfolding sort_slice_correct_def by blast+
  then have mset': "mset (mp_list m') = add_mset tx (mset (mp_list m))" by (simp add: m')
  then have "mset (mp_list m') = mset (tx # mp_list m)" by simp
  then have set': "set (mp_list m') = insert tx (set (mp_list m))"
    by (drule_tac mset_eq_setD) simp
  have "mset (map tx_Hash (mp_list m')) = mset (map tx_Hash (tx # mp_list m))" using mset' by simp
  from mset_eq_imp_distinct_iff [OF this] have "distinct (map tx_Hash (mp_list m'))"
    using new assms(2) by (simp add: mempool_ok_def)
  moreover have "fmlookup (mp_byHash m') h = Some u \<longleftrightarrow> u \<in> set (mp_list m') \<and> tx_Hash u = h" for h u
    unfolding set' using mempool_ok_lookup [OF assms(2), of h u] new by (auto simp: m')
  moreover have "\<forall>u\<in>set (mp_list m'). VerifyTransactionSignature G u = None"
    unfolding set' using assms(2) valid by (simp add: mempool_ok_def)
  ultimately show ?thesis
    unfolding mempool_ok_def using sorted mset' new by (simp add: m')
qed

lemma PopForBlock_ok:
  assumes "mempool_ok G m" "PopForBlock m state limit producer = (m', out)"
  shows "mempool_ok G m' \<and> mset out + mset (mp_list m') = mset (mp_list m) \<and>
    int (length out) \<le> max 0 (sint limit) \<and> (\<exists>s. ApplyTransactions state out producer = Inr s) \<and>
    sorted_wrt (\<lambda>x y. \<not> tx_before y x) out"
proof -
  let ?g = "greedy (\<lambda>s txs. ApplyTransactions s txs producer) (nat (sint limit)) state (mp_list m)"
  obtain c r t where g: "?g = (c, r, t)" by (cases ?g) auto
  from PopForBlock_greedy [OF g] assms(2)
  have out: "out = c" and m': "m' = \<lparr>mp_byHash = drop_hashes c (mp_byHash m), mp_list = r\<rparr>" by auto
  have part: "mset c + mset r = mset (mp_list m)" "length c \<le> nat (sint limit)"
    using ledger.greedy_partition [OF g] by auto
  have sorted: "sorted_wrt (\<lambda>x y. \<not> tx_before y x) r \<and> sorted_wrt (\<lambda>x y. \<not> tx_before y x) c"
    using ledger.greedy_sorted [OF g] assms(1) unfolding mempool_ok_def by blast
  have "mset (map tx_Hash (c @ r)) = mset (map tx_Hash (mp_list m))"
    using part(1) by (metis mset_append mset_map)
  from mset_eq_imp_distinct_iff [OF this] have dist: "distinct (map tx_Hash (c @ r))"
    using assms(1) by (simp add: mempool_ok_def)
  have set_eq: "set (mp_list m) = set c \<union> set r"
    using part(1) by (metis set_mset_mset set_mset_union)
  have look: "fmlookup (drop_hashes c (mp_byHash m)) h = Some u \<longleftrightarrow> u \<in> set r \<and> tx_Hash u = h" for h u
  proof -
    have "\<And>v. fmlookup (mp_byHash m) h = Some v \<longleftrightarrow> (v \<in> set c \<or> v \<in> set r) \<and> tx_Hash v = h"
      using assms(1) set_eq unfolding mempool_ok_def by auto
    with dist show ?thesis by (auto simp: fmlookup_drop_hashes)
  qed
  have "mempool_ok G m'"
    using assms(1) dist sorted set_eq look by (auto simp: mempool_ok_def m')
  with part sorted ledger.greedy_runs [OF g] show ?thesis by (auto simp: out m')
qed

section \<open>Properties\<close>

text \<open>
  C32: the pool's invariant.  The map and the list hold the same transactions, no two of them with the
  same hash, all with valid signatures, the list in priority order; a new pool has the invariant and
  \<open>Add\<close> and \<open>PopForBlock\<close> keep it.  (\<open>sort.Slice\<close> is assumed to sort.)
\<close>

theorem mempool_invariant:
  assumes "sort_slice_correct G"
  shows "mempool_ok G NewMempool \<and>
    (\<forall>m tx. mempool_ok G m \<longrightarrow> mempool_ok G (fst (Add G m tx))) \<and>
    (\<forall>m state limit producer. mempool_ok G m \<longrightarrow> mempool_ok G (fst (PopForBlock m state limit producer)))"
proof (intro conjI allI impI)
  show "mempool_ok G NewMempool" by (rule mempool_ok_new)
next
  fix m tx assume ok: "mempool_ok G m"
  show "mempool_ok G (fst (Add G m tx))"
  proof (cases "snd (Add G m tx)")
    case None
    with Add_inserts [OF assms ok, of tx "fst (Add G m tx)"] show ?thesis by (metis prod.collapse)
  next
    case (Some e)
    then have "fst (Add G m tx) = m" by (auto simp: Add_def Let_def split: if_splits option.splits)
    with ok show ?thesis by simp
  qed
next
  fix m state limit producer assume "mempool_ok G m"
  with PopForBlock_ok [of G m state limit producer] show "mempool_ok G (fst (PopForBlock m state limit producer))"
    by (cases "PopForBlock m state limit producer") auto
qed

theorem mempool_invariant_witness:
  "mempool_ok demo_lib (fst (Add demo_lib (fst (Add demo_lib NewMempool (demo_tx ''bob'' 5 1 1))) (demo_tx ''bob'' 7 3 2)))"
  using mempool_invariant [OF demo_sort_correct] by blast

text \<open>
  What \<open>Add\<close> accepts.  In a pool with the invariant, a transaction is accepted exactly when its
  signature verifies and no pending transaction has its hash; it is then in the pool exactly once more
  and the rest of the pool is what it was.  A rejected transaction leaves the pool unchanged.
\<close>

theorem Add_accepts:
  assumes "sort_slice_correct G" "mempool_ok G m" "Add G m tx = (m', err)"
  shows "(err = None \<longleftrightarrow> VerifyTransactionSignature G tx = None \<and> tx_Hash tx \<notin> tx_Hash ` set (mp_list m)) \<and>
    (if err = None then mset (mp_list m') = add_mset tx (mset (mp_list m)) else m' = m)"
proof -
  note hash = verified_hash [of G tx]
  have "err = None \<longleftrightarrow> VerifyTransactionSignature G tx = None \<and> fmlookup (mp_byHash m) (tx_Hash tx) = None"
    using assms(3) hash by (auto simp: Add_def Let_def split: if_splits option.splits)
  moreover have "m' = m" if "err \<noteq> None"
    using that assms(3) by (auto simp: Add_def Let_def split: if_splits option.splits)
  moreover have "mset (mp_list m') = add_mset tx (mset (mp_list m))" if "err = None"
    using Add_inserts [OF assms(1,2)] assms(3) that by blast
  ultimately show ?thesis
    using mempool_ok_lookup_None [OF assms(2), of "tx_Hash tx"] by simp
qed

theorem Add_accepts_witness:
  "snd (Add demo_lib NewMempool (demo_tx ''bob'' 5 1 1)) = None"
proof -
  let ?r = "Add demo_lib NewMempool (demo_tx ''bob'' 5 1 1)"
  have "?r = (fst ?r, snd ?r)" by simp
  from Add_accepts [OF demo_sort_correct mempool_ok_new this] show ?thesis
    by (simp add: NewMempool_def)
qed

text \<open>
  C31: the transactions selected for a block apply.  \<open>PopForBlock\<close> splits the pool into the selected
  transactions and those that stay, selects at most \<open>max\<close>, in priority order, and the selected ones
  apply as one batch to the state for the same producer.  While there is room, a transaction stays only
  if it fails in a state that some prefix of the selection leads to.
\<close>

theorem PopForBlock_applies:
  assumes "mempool_ok G m" "PopForBlock m state limit producer = (m', out)"
  shows "mset out + mset (mp_list m') = mset (mp_list m) \<and> int (length out) \<le> max 0 (sint limit) \<and>
    sorted_wrt (\<lambda>x y. \<not> tx_before y x) out \<and> (\<exists>s. ApplyTransactions state out producer = Inr s) \<and>
    (int (length out) < sint limit \<longrightarrow> (\<forall>tx\<in>set (mp_list m'). \<exists>before after s e.
      out = before @ after \<and> ApplyTransactions state before producer = Inr s \<and>
      ApplyTransactions s [tx] producer = Inl e))"
proof -
  let ?g = "greedy (\<lambda>s txs. ApplyTransactions s txs producer) (nat (sint limit)) state (mp_list m)"
  obtain c r t where g: "?g = (c, r, t)" by (cases ?g) auto
  from PopForBlock_greedy [OF g] assms(2) have out: "out = c" "mp_list m' = r" by auto
  have "\<exists>before after s e. out = before @ after \<and> ApplyTransactions state before producer = Inr s \<and>
      ApplyTransactions s [tx] producer = Inl e"
    if "int (length out) < sint limit" "tx \<in> set (mp_list m')" for tx
    using ledger.greedy_maximal [OF g, of tx] that by (auto simp: out zless_nat_eq_int_zless)
  with PopForBlock_ok [OF assms] show ?thesis by blast
qed

definition demo_pool :: Mempool where
  "demo_pool = fst (Add demo_lib NewMempool (demo_tx ''bob'' 30 2 5))"

lemma demo_pool_list: "mp_list demo_pool = [demo_tx ''bob'' 30 2 5]" "mempool_ok demo_lib demo_pool"
proof -
  have "tx_Hash (demo_tx ''bob'' 30 2 5) \<noteq> []" by (rule verified_hash [of demo_lib]) simp
  then have added: "Add demo_lib NewMempool (demo_tx ''bob'' 30 2 5) =
      (\<lparr>mp_byHash = fmupd (tx_Hash (demo_tx ''bob'' 30 2 5)) (demo_tx ''bob'' 30 2 5) fmempty,
        mp_list = [demo_tx ''bob'' 30 2 5]\<rparr>, None)"
    by (simp add: Add_def NewMempool_def Let_def)
  then show "mp_list demo_pool = [demo_tx ''bob'' 30 2 5]" by (simp add: demo_pool_def)
  from Add_inserts [OF demo_sort_correct mempool_ok_new added] show "mempool_ok demo_lib demo_pool"
    by (simp add: demo_pool_def added)
qed

theorem PopForBlock_applies_witness:
  "PopForBlock demo_pool rich 10 ''carol'' = (fst (PopForBlock demo_pool rich 10 ''carol''), [demo_tx ''bob'' 30 2 5]) \<and>
    (\<exists>s. ApplyTransactions rich [demo_tx ''bob'' 30 2 5] ''carol'' = Inr s)"
proof -
  have g: "greedy (\<lambda>s txs. ApplyTransactions s txs ''carol'') (nat (sint (10::i64))) rich (mp_list demo_pool) =
      ([demo_tx ''bob'' 30 2 5], [], paid ''carol'' (demo_tx ''bob'' 30 2 5) rich)"
    by (simp add: demo_pool_list rich_applied)
  note pop = PopForBlock_greedy [OF g]
  from PopForBlock_applies [OF demo_pool_list(2) pop] pop show ?thesis by simp
qed

end
