(* ===== verification/Ports.thy ===== *)
theory Ports
  imports Domain
begin

text \<open>
  \<open>ports/storage.go\<close>: the interfaces of the two stores that a chain may hold.  An interface value is the
  state of its implementation together with the methods.  The clock's only use is one reading when a
  chain is created, and the logger has no effect on the chain; \<open>SimulatedClock\<close> is
  \<open>adapters/clock_simulated.go\<close>.
\<close>

record 'bs BlockStore =
  bs_state :: 'bs
  bs_SaveBlock :: "'bs \<Rightarrow> Block \<Rightarrow> 'bs \<times> failure"
  bs_GetBlockByHash :: "'bs \<Rightarrow> string \<Rightarrow> Block option"
  bs_GetBlockByHeight :: "'bs \<Rightarrow> u64 \<Rightarrow> Block option"
  bs_GetTip :: "'bs \<Rightarrow> Block option"
  bs_GetRange :: "'bs \<Rightarrow> u64 \<Rightarrow> u64 \<Rightarrow> Block list result option"

record 'ss SnapshotStore =
  ss_state :: 'ss
  ss_SaveEpochSnapshot :: "'ss \<Rightarrow> u64 \<Rightarrow> string \<Rightarrow> stakes \<Rightarrow> 'ss \<times> failure"
  ss_LoadLatestSnapshot :: "'ss \<Rightarrow> 'ss \<times> (u64 \<times> string \<times> stakes) option result"
  ss_LoadSnapshotByEpoch :: "'ss \<Rightarrow> u64 \<Rightarrow> 'ss \<times> (string \<times> stakes) option result"

definition SaveBlock :: "'bs BlockStore \<Rightarrow> Block \<Rightarrow> 'bs BlockStore \<times> failure" where
  "SaveBlock st b = (case bs_SaveBlock st (bs_state st) b of (s, err) \<Rightarrow> (st\<lparr>bs_state := s\<rparr>, err))"

definition SaveEpochSnapshot :: "'ss SnapshotStore \<Rightarrow> u64 \<Rightarrow> string \<Rightarrow> stakes \<Rightarrow> 'ss SnapshotStore \<times> failure" where
  "SaveEpochSnapshot st epoch root stakes =
    (case ss_SaveEpochSnapshot st (ss_state st) epoch root stakes of (s, err) \<Rightarrow> (st\<lparr>ss_state := s\<rparr>, err))"

section \<open>The simulated clock\<close>

record SimulatedClock =
  sc_now :: i64
  sc_step :: i64

definition NewSimulatedClock :: "i64 \<Rightarrow> i64 \<Rightarrow> SimulatedClock" where
  "NewSimulatedClock start step = \<lparr>sc_now = start, sc_step = step\<rparr>"

definition UnixNano :: "SimulatedClock \<Rightarrow> SimulatedClock \<times> i64" where
  "UnixNano c = (let c = c\<lparr>sc_now := sc_now c + sc_step c\<rparr> in (c, sc_now c))"

lemma UnixNano_steps: "((fst \<circ> UnixNano) ^^ n) (NewSimulatedClock start step) =
    \<lparr>sc_now = start + word_of_nat n * step, sc_step = step\<rparr>"
  by (induction n) (simp_all add: NewSimulatedClock_def UnixNano_def Let_def algebra_simps)

end
