(* ===== verification/Chain.thy ===== *)
theory Chain
  imports BlockTree Mempool Ports
begin

text \<open>
  \<open>core/blockchain.go\<close>, the state of a node and the operations that keep its canonical chain: epoch
  snapshots, scores of tips, the guards on a reorganisation, the replay of the ledger, finality.

  Reading a snapshot creates it when it is missing, so operations that only look, such as \<open>scoreTip\<close>,
  return a changed chain; \<open>only_snapshots\<close> says that nothing but the snapshots (and their
  store) changes, and \<open>stake_view\<close> is the stake that a lookup will see.  Operations that walk the tree
  of blocks return an \<open>option\<close>.
\<close>

section \<open>State\<close>

record ChainConfig =
  cfg_MaxReorgDepth :: i64
  cfg_FinalitySlots :: u64
  cfg_MinReorgWeightDeltaP :: i64
  cfg_EpochLength :: u64
  cfg_DeterministicPoH :: bool
  cfg_PoHSeed :: i64
  cfg_MaxBlockTxs :: i64

record ReorgMetrics =
  rm_Info :: u64
  rm_Warn :: u64
  rm_Error :: u64
  rm_Critical :: u64

record EquivocationProof =
  ep_Slot :: u64
  ep_Validator :: string
  ep_BlockA :: string
  ep_BlockB :: string

record EpochSnapshot =
  es_Epoch :: u64
  es_TotalStake :: u64
  es_Validators :: stakes

record ('bs, 'ss) Blockchain =
  bc_Chain :: "Block list"
  bc_Blocks :: blocks
  bc_Parents :: "(string, string) fmap"
  bc_CanonicalTip :: string
  bc_Validators :: validators
  bc_Stats :: "stats_map option"
  bc_poh :: "PoH option"
  bc_State :: accounts
  bc_Genesis :: accounts
  bc_SlotProduced :: "(u64, string) fmap"
  bc_SlotProducers :: "(u64, (string, string) fmap) fmap"
  bc_Equivocations :: "EquivocationProof list"
  bc_LastProcessedSlot :: u64
  bc_FinalizedSlot :: u64
  bc_Config :: ChainConfig
  bc_ReorgStats :: ReorgMetrics
  bc_currentEpoch :: u64
  bc_snapshots :: "(u64, EpochSnapshot) fmap"
  bc_blockStore :: "'bs BlockStore option"
  bc_snapshotStore :: "'ss SnapshotStore option"
  bc_Mempool :: "Mempool option"

section \<open>Snapshots\<close>

definition chainTipSlot :: "('bs, 'ss) Blockchain \<Rightarrow> u64" where
  "chainTipSlot bc = (if bc_Chain bc = [] then 0 else b_Slot (bc_Chain bc ! (length (bc_Chain bc) - 1)))"

definition epochForSlot :: "u64 \<Rightarrow> ('bs, 'ss) Blockchain \<Rightarrow> u64" where
  "epochForSlot slot bc = (if cfg_EpochLength (bc_Config bc) = 0 then 0 else slot div cfg_EpochLength (bc_Config bc))"

definition new_snapshot :: "u64 \<Rightarrow> u64 \<Rightarrow> validators \<Rightarrow> stats_map option \<Rightarrow> EpochSnapshot" where
  \<comment> \<open>the loop of \<open>ensureSnapshot\<close>\<close>
  "new_snapshot epoch epochSlot vs stats = range_loop (\<lambda>name v snap.
      if v_Stake v <s MinStake then snap
      else if IsJailed stats (v_Name v) epochSlot then snap
      else let snap = snap\<lparr>es_Validators := fmupd (v_Name v) (v_Stake v) (es_Validators snap)\<rparr>
        in snap\<lparr>es_TotalStake := es_TotalStake snap + v_Stake v\<rparr>) vs
     \<lparr>es_Epoch = epoch, es_TotalStake = 0, es_Validators = fmempty\<rparr>"

definition ensureSnapshot :: "golib \<Rightarrow> u64 \<Rightarrow> ('bs, 'ss) Blockchain \<Rightarrow> ('bs, 'ss) Blockchain" where
  "ensureSnapshot G epoch bc =
    (case fmlookup (bc_snapshots bc) epoch of
      Some _ \<Rightarrow> bc
    | None \<Rightarrow>
      (let epochSlot = epoch * cfg_EpochLength (bc_Config bc);
           snap = new_snapshot epoch epochSlot (bc_Validators bc) (bc_Stats bc);
           bc = bc\<lparr>bc_snapshots := fmupd epoch snap (bc_snapshots bc)\<rparr>;
           bc = bc\<lparr>bc_currentEpoch := epoch\<rparr>
       in case bc_snapshotStore bc of
            None \<Rightarrow> bc
          | Some st \<Rightarrow> bc\<lparr>bc_snapshotStore := Some (fst (SaveEpochSnapshot st epoch (StateRoot G (bc_State bc))
              (es_Validators snap)))\<rparr>))"

definition ensureSnapshotForSlot :: "golib \<Rightarrow> u64 \<Rightarrow> ('bs, 'ss) Blockchain \<Rightarrow> ('bs, 'ss) Blockchain" where
  "ensureSnapshotForSlot G slot bc = (let epoch = epochForSlot slot bc in ensureSnapshot G epoch bc)"

definition snapshotForSlot :: "golib \<Rightarrow> u64 \<Rightarrow> ('bs, 'ss) Blockchain \<Rightarrow> ('bs, 'ss) Blockchain \<times> EpochSnapshot option" where
  "snapshotForSlot G slot bc =
    (let epoch = epochForSlot slot bc; bc = ensureSnapshot G epoch bc in (bc, fmlookup (bc_snapshots bc) epoch))"

definition GetEpochSnapshot :: "golib \<Rightarrow> u64 \<Rightarrow> ('bs, 'ss) Blockchain \<Rightarrow> ('bs, 'ss) Blockchain \<times> EpochSnapshot" where
  "GetEpochSnapshot G slot bc =
    (case snapshotForSlot G slot bc of
      (bc, None) \<Rightarrow> (bc, \<lparr>es_Epoch = 0, es_TotalStake = 0, es_Validators = fmempty\<rparr>)
    | (bc, Some snap) \<Rightarrow> (bc, \<lparr>es_Epoch = es_Epoch snap, es_TotalStake = es_TotalStake snap,
        es_Validators = range_loop (\<lambda>k v out. fmupd k v out) (es_Validators snap) fmempty\<rparr>))"

definition GetAllEpochSnapshots :: "('bs, 'ss) Blockchain \<Rightarrow> EpochSnapshot list" where
  \<comment> \<open>\<open>sort.Slice\<close> on the distinct keys of a map is the sorted list of its keys\<close>
  "GetAllEpochSnapshots bc = map (\<lambda>e. let s = the (fmlookup (bc_snapshots bc) e) in
      \<lparr>es_Epoch = es_Epoch s, es_TotalStake = es_TotalStake s,
       es_Validators = range_loop (\<lambda>k v out. fmupd k v out) (es_Validators s) fmempty\<rparr>) (keys_of (bc_snapshots bc))"

definition snapshotStake :: "golib \<Rightarrow> u64 \<Rightarrow> string \<Rightarrow> ('bs, 'ss) Blockchain \<Rightarrow> ('bs, 'ss) Blockchain \<times> u64" where
  "snapshotStake G slot validator bc =
    (case snapshotForSlot G slot bc of
      (bc, None) \<Rightarrow> (bc, 0)
    | (bc, Some snap) \<Rightarrow> (bc, get_or 0 (es_Validators snap) validator))"

definition leaderForSlot :: "golib \<Rightarrow> u64 \<Rightarrow> ('bs, 'ss) Blockchain \<Rightarrow> ('bs, 'ss) Blockchain \<times> string" where
  "leaderForSlot G slot bc =
    (case snapshotForSlot G slot bc of
      (bc, None) \<Rightarrow> (bc, ''genesis'')
    | (bc, Some snap) \<Rightarrow> (bc, LeaderFromSnapshot G slot (es_Validators snap)))"

definition activeStake :: "golib \<Rightarrow> ('bs, 'ss) Blockchain \<Rightarrow> ('bs, 'ss) Blockchain \<times> u64" where
  "activeStake G bc =
    (case snapshotForSlot G (chainTipSlot bc) bc of
      (bc, None) \<Rightarrow> (bc, 0)
    | (bc, Some snap) \<Rightarrow> (bc, es_TotalStake snap))"

section \<open>Scores of tips\<close>

partial_function (option) score_walk :: "golib \<Rightarrow> ('bs, 'ss) Blockchain \<Rightarrow> Block \<Rightarrow> u64 \<Rightarrow> (('bs, 'ss) Blockchain \<times> u64) option" where
  \<comment> \<open>the loop of \<open>scoreTip\<close>\<close>
  "score_walk G bc cur weight =
    (let (bc, stake) = snapshotStake G (b_Slot cur) (b_Validator cur) bc;
         weight = weight + stake
     in if b_PrevHash cur = ''GENESIS'' then Some (bc, weight)
        else case fmlookup (bc_Blocks bc) (b_PrevHash cur) of
          None \<Rightarrow> Some (bc, weight)
        | Some parent \<Rightarrow> score_walk G bc parent weight)"

definition scoreTip :: "golib \<Rightarrow> string \<Rightarrow> ('bs, 'ss) Blockchain \<Rightarrow> (('bs, 'ss) Blockchain \<times> ChainScore) option" where
  "scoreTip G tipHash bc =
    (case fmlookup (bc_Blocks bc) tipHash of
      None \<Rightarrow> Some (bc, zero_score)
    | Some block \<Rightarrow> do {
        (bc, weight) \<leftarrow> score_walk G bc block 0;
        Some (bc, \<lparr>cs_Slot = b_Slot block, cs_CumulativeWeight = weight, cs_Hash = b_Hash block\<rparr>)
      })"

definition weightDeltaSatisfied :: "golib \<Rightarrow> u64 \<Rightarrow> u64 \<Rightarrow> ('bs, 'ss) Blockchain \<Rightarrow> ('bs, 'ss) Blockchain \<times> bool" where
  "weightDeltaSatisfied G oldWeight newWeight bc =
    (if cfg_MinReorgWeightDeltaP (bc_Config bc) \<le>s 0 then (bc, True)
     else if newWeight \<le> oldWeight then (bc, False)
     else let (bc, active) = activeStake G bc;
              minDelta = (active * cfg_MinReorgWeightDeltaP (bc_Config bc)) div 100;
              minDelta = (if minDelta = 0 then 1 else minDelta)
          in (bc, oldWeight + minDelta \<le> newWeight))"

definition weightDeltaRequired :: "golib \<Rightarrow> u64 \<Rightarrow> u64 \<Rightarrow> ('bs, 'ss) Blockchain \<Rightarrow> ('bs, 'ss) Blockchain \<times> u64 \<times> u64" where
  "weightDeltaRequired G oldWeight newWeight bc =
    (let (bc, active) = activeStake G bc;
         minDelta = (active * cfg_MinReorgWeightDeltaP (bc_Config bc)) div 100;
         minDelta = (if minDelta = 0 then 1 else minDelta);
         actual = (if oldWeight < newWeight then newWeight - oldWeight else 0)
     in (bc, minDelta, actual))"

section \<open>The canonical chain\<close>

definition insertBlock :: "Block \<Rightarrow> ('bs, 'ss) Blockchain \<Rightarrow> ('bs, 'ss) Blockchain" where
  "insertBlock block bc =
    (let bc = bc\<lparr>bc_Blocks := fmupd (b_Hash block) block (bc_Blocks bc)\<rparr>
     in bc\<lparr>bc_Parents := fmupd (b_Hash block) (b_PrevHash block) (bc_Parents bc)\<rparr>)"

definition validatorRewardAddress :: "golib \<Rightarrow> validators \<Rightarrow> string \<Rightarrow> string" where
  "validatorRewardAddress G vs name =
    (case fmlookup vs name of
      None \<Rightarrow> []
    | Some v \<Rightarrow>
      (if v_PubKey v = [] then []
       else case AddressFromPubKey G (v_PubKey v) of Inl e \<Rightarrow> [] | Inr addr \<Rightarrow> addr))"

primrec replay :: "golib \<Rightarrow> validators \<Rightarrow> Block list \<Rightarrow> accounts \<Rightarrow> accounts result" where
  \<comment> \<open>the loop that \<open>rebuildStateFromCanonical\<close> and \<open>stateAtTip\<close> share\<close>
  "replay G vs [] state = Inr state"
| "replay G vs (b # bs) state =
    (case ApplyTransactions state (b_Transactions b) (validatorRewardAddress G vs (b_Validator b)) of
      Inl e \<Rightarrow> Inl e
    | Inr next \<Rightarrow> replay G vs bs next)"

definition rebuildSlotMap :: "('bs, 'ss) Blockchain \<Rightarrow> ('bs, 'ss) Blockchain" where
  "rebuildSlotMap bc = bc\<lparr>bc_SlotProduced :=
     fold (\<lambda>b m. fmupd (b_Slot b) (b_Validator b) m) (drop 1 (bc_Chain bc)) fmempty\<rparr>"

definition rebuildStateFromCanonical :: "golib \<Rightarrow> ('bs, 'ss) Blockchain \<Rightarrow> ('bs, 'ss) Blockchain" where
  "rebuildStateFromCanonical G bc =
    (case replay G (bc_Validators bc) (drop 1 (bc_Chain bc)) (copyState (bc_Genesis bc)) of
      Inl e \<Rightarrow> bc
    | Inr state \<Rightarrow> bc\<lparr>bc_State := state\<rparr>)"

definition rebuildCanonicalChain :: "golib \<Rightarrow> ('bs, 'ss) Blockchain \<Rightarrow> ('bs, 'ss) Blockchain option" where
  "rebuildCanonicalChain G bc =
    (if bc_CanonicalTip bc = [] then Some (bc\<lparr>bc_Chain := []\<rparr>)
     else do {
       chain \<leftarrow> canonical_walk (bc_Blocks bc) (bc_CanonicalTip bc) [];
       let bc = bc\<lparr>bc_Chain := reverse_chain chain\<rparr>;
       let bc = rebuildSlotMap bc;
       Some (rebuildStateFromCanonical G bc)
     })"

definition updateFinality :: "('bs, 'ss) Blockchain \<Rightarrow> ('bs, 'ss) Blockchain" where
  "updateFinality bc =
    (let tipSlot = chainTipSlot bc in
     if tipSlot < cfg_FinalitySlots (bc_Config bc) then bc
     else let finalized = tipSlot - cfg_FinalitySlots (bc_Config bc) in
       if bc_FinalizedSlot bc < finalized then bc\<lparr>bc_FinalizedSlot := finalized\<rparr> else bc)"

definition stateAtTip :: "golib \<Rightarrow> string \<Rightarrow> ('bs, 'ss) Blockchain \<Rightarrow> accounts result option" where
  "stateAtTip G tipHash bc = do {
     r \<leftarrow> chainFromTip (bc_Blocks bc) tipHash;
     Some (case r of
       Inl e \<Rightarrow> Inl e
     | Inr chain \<Rightarrow> replay G (bc_Validators bc) (drop 1 chain) (copyState (bc_Genesis bc)))
   }"

definition count_reorg :: "(ReorgMetrics \<Rightarrow> ReorgMetrics) \<Rightarrow> ('bs, 'ss) Blockchain \<Rightarrow> ('bs, 'ss) Blockchain" where
  "count_reorg f bc = bc\<lparr>bc_ReorgStats := f (bc_ReorgStats bc)\<rparr>"

definition updateCanonical :: "golib \<Rightarrow> string \<Rightarrow> ('bs, 'ss) Blockchain \<Rightarrow> (('bs, 'ss) Blockchain \<times> bool) option" where
  "updateCanonical G tipHash bc =
    (if bc_CanonicalTip bc = [] then do {
       bc \<leftarrow> rebuildCanonicalChain G (bc\<lparr>bc_CanonicalTip := tipHash\<rparr>);
       Some (updateFinality bc, True)
     } else do {
       (bc, currentScore) \<leftarrow> scoreTip G (bc_CanonicalTip bc) bc;
       (bc, newScore) \<leftarrow> scoreTip G tipHash bc;
       if \<not> betterScore newScore currentScore then Some (bc, False)
       else do {
         r \<leftarrow> chainFromTip (bc_Blocks bc) tipHash;
         case r of
           Inl e \<Rightarrow> Some (bc, False)
         | Inr newChain \<Rightarrow>
           (let (reorgDepth, divergeSlot) = computeReorgDepthAndSlot (bc_Chain bc) newChain in
            if 0 < bc_FinalizedSlot bc \<and> divergeSlot \<le> bc_FinalizedSlot bc
            then Some (count_reorg (\<lambda>m. m\<lparr>rm_Critical := rm_Critical m + 1\<rparr>) bc, False)
            else if sint (cfg_MaxReorgDepth (bc_Config bc)) < int reorgDepth
            then Some (count_reorg (\<lambda>m. m\<lparr>rm_Error := rm_Error m + 1\<rparr>) bc, False)
            else let (bc, ok) = weightDeltaSatisfied G (cs_CumulativeWeight currentScore) (cs_CumulativeWeight newScore) bc in
              if \<not> ok
              then let (bc, required, actual) = weightDeltaRequired G (cs_CumulativeWeight currentScore) (cs_CumulativeWeight newScore) bc
                in Some (count_reorg (\<lambda>m. m\<lparr>rm_Error := rm_Error m + 1\<rparr>) bc, False)
              else let bc = (if 0 < reorgDepth
                         then if 1 < reorgDepth then count_reorg (\<lambda>m. m\<lparr>rm_Warn := rm_Warn m + 1\<rparr>) bc
                           else count_reorg (\<lambda>m. m\<lparr>rm_Info := rm_Info m + 1\<rparr>) bc
                         else bc);
                       bc = bc\<lparr>bc_CanonicalTip := tipHash\<rparr>;
                       bc = bc\<lparr>bc_Chain := newChain\<rparr>;
                       bc = rebuildSlotMap bc;
                       bc = rebuildStateFromCanonical G bc
                   in Some (updateFinality bc, True))
       }
     })"

section \<open>Reading snapshots changes only snapshots\<close>

definition snap_view :: "('bs, 'ss) Blockchain \<Rightarrow> u64 \<Rightarrow> EpochSnapshot" where
  "snap_view bc epoch = (case fmlookup (bc_snapshots bc) epoch of
      Some s \<Rightarrow> s
    | None \<Rightarrow> new_snapshot epoch (epoch * cfg_EpochLength (bc_Config bc)) (bc_Validators bc) (bc_Stats bc))"

definition stake_view :: "('bs, 'ss) Blockchain \<Rightarrow> u64 \<Rightarrow> string \<Rightarrow> u64" where
  "stake_view bc slot name = get_or 0 (es_Validators (snap_view bc (epochForSlot slot bc))) name"

definition leader_view :: "golib \<Rightarrow> ('bs, 'ss) Blockchain \<Rightarrow> u64 \<Rightarrow> string" where
  "leader_view G bc slot = LeaderFromSnapshot G slot (es_Validators (snap_view bc (epochForSlot slot bc)))"

definition active_view :: "('bs, 'ss) Blockchain \<Rightarrow> u64" where
  "active_view bc = es_TotalStake (snap_view bc (epochForSlot (chainTipSlot bc) bc))"

definition only_snapshots :: "('bs, 'ss) Blockchain \<Rightarrow> ('bs, 'ss) Blockchain \<Rightarrow> bool" where
  "only_snapshots bc bc' \<longleftrightarrow>
     bc' = bc\<lparr>bc_currentEpoch := bc_currentEpoch bc', bc_snapshots := bc_snapshots bc',
       bc_snapshotStore := bc_snapshotStore bc'\<rparr> \<and>
     (\<forall>e. snap_view bc' e = snap_view bc e) \<and>
     (\<forall>e s. fmlookup (bc_snapshots bc) e = Some s \<longrightarrow> fmlookup (bc_snapshots bc') e = Some s)"

lemma only_snapshots_frame:
  assumes "only_snapshots bc bc'"
  shows "bc_Chain bc' = bc_Chain bc" "bc_Blocks bc' = bc_Blocks bc" "bc_Parents bc' = bc_Parents bc"
    "bc_CanonicalTip bc' = bc_CanonicalTip bc" "bc_Validators bc' = bc_Validators bc"
    "bc_Stats bc' = bc_Stats bc" "bc_poh bc' = bc_poh bc" "bc_State bc' = bc_State bc"
    "bc_Genesis bc' = bc_Genesis bc" "bc_SlotProduced bc' = bc_SlotProduced bc"
    "bc_SlotProducers bc' = bc_SlotProducers bc" "bc_Equivocations bc' = bc_Equivocations bc"
    "bc_LastProcessedSlot bc' = bc_LastProcessedSlot bc" "bc_FinalizedSlot bc' = bc_FinalizedSlot bc"
    "bc_Config bc' = bc_Config bc" "bc_ReorgStats bc' = bc_ReorgStats bc"
    "bc_blockStore bc' = bc_blockStore bc" "bc_Mempool bc' = bc_Mempool bc"
proof -
  from assms have eq: "bc' = bc\<lparr>bc_currentEpoch := bc_currentEpoch bc', bc_snapshots := bc_snapshots bc',
      bc_snapshotStore := bc_snapshotStore bc'\<rparr>"
    by (simp add: only_snapshots_def)
  show "bc_Chain bc' = bc_Chain bc" "bc_Blocks bc' = bc_Blocks bc" "bc_Parents bc' = bc_Parents bc"
    "bc_CanonicalTip bc' = bc_CanonicalTip bc" "bc_Validators bc' = bc_Validators bc"
    "bc_Stats bc' = bc_Stats bc" "bc_poh bc' = bc_poh bc" "bc_State bc' = bc_State bc"
    "bc_Genesis bc' = bc_Genesis bc" "bc_SlotProduced bc' = bc_SlotProduced bc"
    "bc_SlotProducers bc' = bc_SlotProducers bc" "bc_Equivocations bc' = bc_Equivocations bc"
    "bc_LastProcessedSlot bc' = bc_LastProcessedSlot bc" "bc_FinalizedSlot bc' = bc_FinalizedSlot bc"
    "bc_Config bc' = bc_Config bc" "bc_ReorgStats bc' = bc_ReorgStats bc"
    "bc_blockStore bc' = bc_blockStore bc" "bc_Mempool bc' = bc_Mempool bc"
    by (subst eq, simp)+
qed

lemma only_snapshots_views:
  assumes "only_snapshots bc bc'"
  shows "snap_view bc' e = snap_view bc e" "epochForSlot slot bc' = epochForSlot slot bc"
    "stake_view bc' slot n = stake_view bc slot n" "leader_view G bc' slot = leader_view G bc slot"
    "chainTipSlot bc' = chainTipSlot bc" "active_view bc' = active_view bc"
    "fmlookup (bc_snapshots bc) e = Some s \<Longrightarrow> fmlookup (bc_snapshots bc') e = Some s"
proof -
  note frame = only_snapshots_frame [OF assms]
  show view: "snap_view bc' e = snap_view bc e" for e using assms by (simp add: only_snapshots_def)
  show ep: "epochForSlot slot bc' = epochForSlot slot bc" for slot by (simp add: epochForSlot_def frame)
  show tip: "chainTipSlot bc' = chainTipSlot bc" by (simp add: chainTipSlot_def frame)
  show "stake_view bc' slot n = stake_view bc slot n" "leader_view G bc' slot = leader_view G bc slot"
    "active_view bc' = active_view bc"
    by (simp_all add: stake_view_def leader_view_def active_view_def view ep tip)
  show "fmlookup (bc_snapshots bc) e = Some s \<Longrightarrow> fmlookup (bc_snapshots bc') e = Some s"
    using assms by (simp add: only_snapshots_def)
qed

lemma only_snapshots_refl [simp]: "only_snapshots bc bc"
  by (simp add: only_snapshots_def)

lemma only_snapshots_trans:
  assumes "only_snapshots a b" "only_snapshots b c"
  shows "only_snapshots a c"
proof -
  have "b = a\<lparr>bc_currentEpoch := bc_currentEpoch b, bc_snapshots := bc_snapshots b, bc_snapshotStore := bc_snapshotStore b\<rparr>"
    "c = b\<lparr>bc_currentEpoch := bc_currentEpoch c, bc_snapshots := bc_snapshots c, bc_snapshotStore := bc_snapshotStore c\<rparr>"
    using assms by (simp_all add: only_snapshots_def)
  then have "c = a\<lparr>bc_currentEpoch := bc_currentEpoch c, bc_snapshots := bc_snapshots c, bc_snapshotStore := bc_snapshotStore c\<rparr>"
    by (cases a; cases b; cases c) simp
  with assms show ?thesis by (simp add: only_snapshots_def)
qed

lemma ensureSnapshot_only:
  "only_snapshots bc (ensureSnapshot G e bc)" "fmlookup (bc_snapshots (ensureSnapshot G e bc)) e = Some (snap_view bc e)"
  by (auto simp: ensureSnapshot_def only_snapshots_def snap_view_def Let_def split: option.splits)

lemma snapshotForSlot_view:
  "snapshotForSlot G slot bc = (ensureSnapshot G (epochForSlot slot bc) bc, Some (snap_view bc (epochForSlot slot bc)))"
  by (simp add: snapshotForSlot_def Let_def ensureSnapshot_only)

lemma snapshotStake_view:
  "snapshotStake G slot n bc = (ensureSnapshot G (epochForSlot slot bc) bc, stake_view bc slot n)"
  by (simp add: snapshotStake_def snapshotForSlot_view stake_view_def)

lemma leaderForSlot_view:
  "leaderForSlot G slot bc = (ensureSnapshot G (epochForSlot slot bc) bc, leader_view G bc slot)"
  by (simp add: leaderForSlot_def snapshotForSlot_view leader_view_def)

lemma activeStake_view:
  "activeStake G bc = (ensureSnapshot G (epochForSlot (chainTipSlot bc) bc) bc, active_view bc)"
  by (simp add: activeStake_def snapshotForSlot_view active_view_def)

text \<open>The stakes that a new snapshot holds are those of the validators that may lead, and add up to its total.\<close>

lemma new_snapshot_fold:
  assumes "distinct ns" "\<forall>n\<in>set ns. v_Name (f n) = n" "\<forall>n\<in>set ns. fmlookup (es_Validators s) n = None"
  shows "let r = fold (\<lambda>n snap. if v_Stake (f n) <s MinStake then snap
        else if IsJailed stats (v_Name (f n)) slot then snap
        else let snap = snap\<lparr>es_Validators := fmupd (v_Name (f n)) (v_Stake (f n)) (es_Validators snap)\<rparr>
          in snap\<lparr>es_TotalStake := es_TotalStake snap + v_Stake (f n)\<rparr>) ns s in
    es_Epoch r = es_Epoch s \<and>
    (\<forall>n. fmlookup (es_Validators r) n = (if n \<in> set ns \<and> may_lead stats slot (f n) then Some (v_Stake (f n))
        else fmlookup (es_Validators s) n)) \<and>
    es_TotalStake r = es_TotalStake s + sum_list (map (\<lambda>n. v_Stake (f n)) (filter (\<lambda>n. may_lead stats slot (f n)) ns))"
  using assms
proof (induction ns arbitrary: s)
  case Nil
  then show ?case by simp
next
  case (Cons n ns)
  show ?case
  proof (cases "may_lead stats slot (f n)")
    case True
    let ?s = "s\<lparr>es_Validators := fmupd n (v_Stake (f n)) (es_Validators s), es_TotalStake := es_TotalStake s + v_Stake (f n)\<rparr>"
    have "\<forall>m\<in>set ns. fmlookup (es_Validators ?s) m = None" using Cons.prems by auto
    with Cons.IH [of ?s] Cons.prems True show ?thesis
      by (auto simp: may_lead_def Let_def add.assoc)
  next
    case False
    with Cons.IH [of s] Cons.prems show ?thesis
      by (auto simp: may_lead_def Let_def)
  qed
qed

lemma new_snapshot_active:
  assumes "\<forall>n v. fmlookup vs n = Some v \<longrightarrow> v_Name v = n"
  shows "es_Validators (new_snapshot e slot vs stats) = active_stakes stats slot vs"
    and "es_TotalStake (new_snapshot e slot vs stats) = word_of_nat (total_weight (active_stakes stats slot vs))"
proof -
  let ?f = "\<lambda>n. the (fmlookup vs n)"
  have names: "\<forall>n\<in>set (keys_of vs). v_Name (?f n) = n" using assms by (auto simp: fmlookup_dom_iff)
  note spec = new_snapshot_fold [OF distinct_keys_of names, of "\<lparr>es_Epoch = e, es_TotalStake = 0, es_Validators = fmempty\<rparr>" stats slot]
  have look: "fmlookup (es_Validators (new_snapshot e slot vs stats)) n =
      (if n \<in> fset (fmdom vs) \<and> may_lead stats slot (?f n) then Some (v_Stake (?f n)) else None)" for n
    using spec by (simp add: new_snapshot_def range_loop_def Let_def)
  show "es_Validators (new_snapshot e slot vs stats) = active_stakes stats slot vs"
  proof (rule fmap_ext)
    fix n
    show "fmlookup (es_Validators (new_snapshot e slot vs stats)) n = fmlookup (active_stakes stats slot vs) n"
      unfolding look by (cases "fmlookup vs n") (auto simp: active_stakes_def fmdomI)
  qed
  have "es_TotalStake (new_snapshot e slot vs stats) =
      sum_list (map (\<lambda>n. v_Stake (?f n)) (keys_of (active_stakes stats slot vs)))"
    using spec by (simp add: new_snapshot_def range_loop_def Let_def keys_active)
  also have "map (\<lambda>n. v_Stake (?f n)) (keys_of (active_stakes stats slot vs)) =
      map (get_or 0 (active_stakes stats slot vs)) (keys_of (active_stakes stats slot vs))"
    using lookup_active by (auto simp: map_eq_conv)
  finally show "es_TotalStake (new_snapshot e slot vs stats) = word_of_nat (total_weight (active_stakes stats slot vs))"
    by (simp add: total_weight_def word_sum_stakes)
qed

section \<open>Scores of rooted chains\<close>

definition chain_weight :: "('bs, 'ss) Blockchain \<Rightarrow> Block list \<Rightarrow> u64" where
  "chain_weight bc c = sum_list (map (\<lambda>b. stake_view bc (b_Slot b) (b_Validator b)) c)"

lemma chain_weight_simps [simp]: "chain_weight bc [] = 0"
    "chain_weight bc (c @ d) = chain_weight bc c + chain_weight bc d"
    "chain_weight bc (b # c) = stake_view bc (b_Slot b) (b_Validator b) + chain_weight bc c"
  by (simp_all add: chain_weight_def)

lemma chain_weight_only: "only_snapshots bc bc' \<Longrightarrow> chain_weight bc' c = chain_weight bc c"
  by (simp add: chain_weight_def only_snapshots_views)

definition score_of :: "('bs, 'ss) Blockchain \<Rightarrow> Block list \<Rightarrow> ChainScore" where
  "score_of bc c = \<lparr>cs_Slot = b_Slot (last c), cs_CumulativeWeight = chain_weight bc c, cs_Hash = b_Hash (last c)\<rparr>"

lemma score_of_only: "only_snapshots bc bc' \<Longrightarrow> score_of bc' c = score_of bc c"
  by (simp add: score_of_def chain_weight_only)

lemma score_walk_rooted:
  "rooted (bc_Blocks bc) h c \<Longrightarrow> fmlookup (bc_Blocks bc) h = Some b \<Longrightarrow>
    \<exists>bc'. score_walk G bc b w = Some (bc', w + chain_weight bc c) \<and> only_snapshots bc bc'"
proof (induction c arbitrary: bc h b w rule: rev_induct)
  case Nil
  then show ?case using rooted_nonempty by blast
next
  case (snoc x c)
  have x: "x = b" using rooted_last [OF snoc.prems(1)] snoc.prems(2) by simp
  let ?bc = "ensureSnapshot G (epochForSlot (b_Slot b) bc) bc"
  note only = ensureSnapshot_only(1) [of bc G "epochForSlot (b_Slot b) bc"]
  note frame = only_snapshots_frame [OF only]
  show ?case
  proof (cases "b_PrevHash b = ''GENESIS''")
    case True
    with rooted_simps [OF snoc.prems(2)] snoc.prems(1) have "c = []" by simp
    with True x only show ?thesis
      by (subst score_walk.simps) (simp add: snapshotStake_view)
  next
    case False
    with rooted_simps [OF snoc.prems(2)] snoc.prems(1) x have c: "rooted (bc_Blocks ?bc) (b_PrevHash b) c"
      by (simp add: frame)
    then obtain p where p: "fmlookup (bc_Blocks ?bc) (b_PrevHash b) = Some p" using rooted_last by blast
    from snoc.IH [OF c p, of "w + stake_view bc (b_Slot b) (b_Validator b)"] obtain bc'
      where bc': "score_walk G ?bc p (w + stake_view bc (b_Slot b) (b_Validator b)) =
          Some (bc', w + stake_view bc (b_Slot b) (b_Validator b) + chain_weight ?bc c)"
        "only_snapshots ?bc bc'" by blast
    have "score_walk G bc b w = Some (bc', w + chain_weight bc (c @ [x]))"
      using False p bc'(1) x by (subst score_walk.simps)
        (simp add: snapshotStake_view chain_weight_only [OF only] ac_simps)
    with only_snapshots_trans [OF only bc'(2)] show ?thesis by blast
  qed
qed

lemma scoreTip_rooted:
  assumes "rooted (bc_Blocks bc) h c"
  shows "\<exists>bc'. scoreTip G h bc = Some (bc', score_of bc c) \<and> only_snapshots bc bc'"
  using score_walk_rooted [OF assms rooted_last [OF assms], of G 0] rooted_last [OF assms]
  by (auto simp: scoreTip_def score_of_def)

section \<open>Adopting a tip\<close>

definition canonical_ok :: "('bs, 'ss) Blockchain \<Rightarrow> bool" where
  "canonical_ok bc \<longleftrightarrow> tree_ok (bc_Blocks bc) \<and> bc_CanonicalTip bc \<noteq> [] \<and>
     rooted (bc_Blocks bc) (bc_CanonicalTip bc) (bc_Chain bc)"

lemma canonical_okD:
  assumes "canonical_ok bc"
  shows "tree_ok (bc_Blocks bc)" "bc_CanonicalTip bc \<noteq> []" "rooted (bc_Blocks bc) (bc_CanonicalTip bc) (bc_Chain bc)"
    "bc_Chain bc \<noteq> []"
  using assms rooted_nonempty by (auto simp: canonical_ok_def)

definition min_delta :: "('bs, 'ss) Blockchain \<Rightarrow> u64" where
  "min_delta bc = max 1 ((active_view bc * cfg_MinReorgWeightDeltaP (bc_Config bc)) div 100)"

definition delta_ok :: "('bs, 'ss) Blockchain \<Rightarrow> u64 \<Rightarrow> u64 \<Rightarrow> bool" where
  "delta_ok bc old new \<longleftrightarrow> cfg_MinReorgWeightDeltaP (bc_Config bc) \<le>s 0 \<or> old < new \<and> old + min_delta bc \<le> new"

definition adoptable :: "('bs, 'ss) Blockchain \<Rightarrow> Block list \<Rightarrow> bool" where
  "adoptable bc new \<longleftrightarrow> betterScore (score_of bc new) (score_of bc (bc_Chain bc)) \<and>
     (case computeReorgDepthAndSlot (bc_Chain bc) new of (depth, slot) \<Rightarrow>
       (bc_FinalizedSlot bc = 0 \<or> bc_FinalizedSlot bc < slot) \<and> int depth \<le> sint (cfg_MaxReorgDepth (bc_Config bc)) \<and>
       delta_ok bc (chain_weight bc (bc_Chain bc)) (chain_weight bc new))"

text \<open>\<open>minor bc bc'\<close>: at most the snapshots and the counters of reorganisations differ.\<close>

definition minor :: "('bs, 'ss) Blockchain \<Rightarrow> ('bs, 'ss) Blockchain \<Rightarrow> bool" where
  "minor bc bc' \<longleftrightarrow> only_snapshots (bc\<lparr>bc_ReorgStats := bc_ReorgStats bc'\<rparr>) bc'"

lemma minor_frame:
  assumes "minor bc bc'"
  shows "bc_Chain bc' = bc_Chain bc" "bc_Blocks bc' = bc_Blocks bc" "bc_Parents bc' = bc_Parents bc"
    "bc_CanonicalTip bc' = bc_CanonicalTip bc" "bc_Validators bc' = bc_Validators bc"
    "bc_Stats bc' = bc_Stats bc" "bc_poh bc' = bc_poh bc" "bc_State bc' = bc_State bc"
    "bc_Genesis bc' = bc_Genesis bc" "bc_SlotProduced bc' = bc_SlotProduced bc"
    "bc_SlotProducers bc' = bc_SlotProducers bc" "bc_Equivocations bc' = bc_Equivocations bc"
    "bc_LastProcessedSlot bc' = bc_LastProcessedSlot bc" "bc_FinalizedSlot bc' = bc_FinalizedSlot bc"
    "bc_Config bc' = bc_Config bc" "bc_blockStore bc' = bc_blockStore bc" "bc_Mempool bc' = bc_Mempool bc"
  using only_snapshots_frame [OF assms [unfolded minor_def]] by simp_all

lemma snap_view_ReorgStats [simp]: "snap_view (bc\<lparr>bc_ReorgStats := m\<rparr>) e = snap_view bc e"
  by (simp add: snap_view_def split: option.split)

lemma minor_count:
  assumes "only_snapshots bc bc'"
  shows "minor bc (count_reorg f bc')"
proof -
  let ?m = "f (bc_ReorgStats bc')"
  have "bc' = bc\<lparr>bc_currentEpoch := bc_currentEpoch bc', bc_snapshots := bc_snapshots bc',
       bc_snapshotStore := bc_snapshotStore bc'\<rparr>" using assms by (simp add: only_snapshots_def)
  then have eq: "bc'\<lparr>bc_ReorgStats := ?m\<rparr> = bc\<lparr>bc_ReorgStats := ?m, bc_currentEpoch := bc_currentEpoch bc',
       bc_snapshots := bc_snapshots bc', bc_snapshotStore := bc_snapshotStore bc'\<rparr>"
    by (cases bc; cases bc') simp
  have views: "\<forall>e. snap_view (bc'\<lparr>bc_ReorgStats := ?m\<rparr>) e = snap_view (bc\<lparr>bc_ReorgStats := ?m\<rparr>) e"
    using only_snapshots_views(1) [OF assms] by simp
  have "only_snapshots (bc\<lparr>bc_ReorgStats := ?m\<rparr>) (bc'\<lparr>bc_ReorgStats := ?m\<rparr>)"
    unfolding only_snapshots_def using eq views only_snapshots_views(7) [OF assms] by auto
  then show ?thesis by (simp add: minor_def count_reorg_def)
qed

lemma minor_only: "only_snapshots bc bc' \<Longrightarrow> minor bc bc'"
  using minor_count [of bc bc' "\<lambda>m. m"] by (simp add: count_reorg_def)

lemma minor_views:
  assumes "minor bc bc'"
  shows "stake_view bc' slot n = stake_view bc slot n" "chain_weight bc' c = chain_weight bc c"
    "score_of bc' c = score_of bc c" "snap_view bc' e = snap_view bc e"
    "fmlookup (bc_snapshots bc) e = Some s \<Longrightarrow> fmlookup (bc_snapshots bc') e = Some s"
proof -
  note o = assms [unfolded minor_def]
  have st: "stake_view bc' slot n = stake_view bc slot n" for slot n
    using only_snapshots_views(3) [OF o] by (simp add: stake_view_def epochForSlot_def)
  then show "stake_view bc' slot n = stake_view bc slot n" .
  show "chain_weight bc' c = chain_weight bc c" "score_of bc' c = score_of bc c"
    by (simp_all add: chain_weight_def score_of_def st)
  show "snap_view bc' e = snap_view bc e"
    "fmlookup (bc_snapshots bc) e = Some s \<Longrightarrow> fmlookup (bc_snapshots bc') e = Some s"
    using only_snapshots_views(1,7) [OF o] by simp_all
qed

lemma weightDeltaSatisfied_view:
  "\<exists>bc'. weightDeltaSatisfied G old new bc = (bc', delta_ok bc old new) \<and> only_snapshots bc bc'"
proof -
  note only = ensureSnapshot_only(1) [of bc G "epochForSlot (chainTipSlot bc) bc"]
  have "(if x = 0 then 1 else x) = max 1 x" for x :: u64
    by (auto simp: max_def linorder_not_le word_less_1)
  then show ?thesis
    using only only_snapshots_frame(15) [OF only]
    by (auto simp: weightDeltaSatisfied_def activeStake_view delta_ok_def min_delta_def Let_def not_le)
qed

definition adopt :: "golib \<Rightarrow> string \<Rightarrow> Block list \<Rightarrow> ('bs, 'ss) Blockchain \<Rightarrow> ('bs, 'ss) Blockchain" where
  "adopt G tip chain bc = updateFinality (rebuildStateFromCanonical G (rebuildSlotMap
     (bc\<lparr>bc_CanonicalTip := tip, bc_Chain := chain\<rparr>)))"

text \<open>
  \<open>fork_choice\<close>: what \<open>updateCanonical\<close> reads before it decides: the scores of both tips, the chain of the new one and
  the verdict on the weights.  Reading them creates at most snapshots.
\<close>

lemma fork_choice:
  assumes "canonical_ok bc" "rooted (bc_Blocks bc) tip new" "tip \<noteq> []"
  obtains bc1 bc2 bc3 where "scoreTip G (bc_CanonicalTip bc) bc = Some (bc1, score_of bc (bc_Chain bc))"
    "scoreTip G tip bc1 = Some (bc2, score_of bc new)" "chainFromTip (bc_Blocks bc) tip = Some (Inr new)"
    "weightDeltaSatisfied G (chain_weight bc (bc_Chain bc)) (chain_weight bc new) bc2 =
      (bc3, delta_ok bc (chain_weight bc (bc_Chain bc)) (chain_weight bc new))" "only_snapshots bc bc2" "only_snapshots bc bc3"
proof -
  obtain bc1 where s1: "scoreTip G (bc_CanonicalTip bc) bc = Some (bc1, score_of bc (bc_Chain bc))"
    and o1: "only_snapshots bc bc1" using scoreTip_rooted [OF canonical_okD(3) [OF assms(1)]] by blast
  have "rooted (bc_Blocks bc1) tip new" using assms(2) only_snapshots_frame(2) [OF o1] by simp
  from scoreTip_rooted [OF this, of G] obtain bc2
    where s2: "scoreTip G tip bc1 = Some (bc2, score_of bc new)" and o2: "only_snapshots bc1 bc2"
    by (auto simp: score_of_only [OF o1])
  note o = only_snapshots_trans [OF o1 o2]
  from weightDeltaSatisfied_view [of G "chain_weight bc (bc_Chain bc)" "chain_weight bc new" bc2] obtain bc3
    where w: "weightDeltaSatisfied G (chain_weight bc (bc_Chain bc)) (chain_weight bc new) bc2 =
      (bc3, delta_ok bc (chain_weight bc (bc_Chain bc)) (chain_weight bc new))" and o3: "only_snapshots bc2 bc3"
    by (auto simp: delta_ok_def min_delta_def only_snapshots_views [OF o] only_snapshots_frame [OF o])
  from that [OF s1 s2 chainFromTip_rooted [OF assms(2,3)] w o only_snapshots_trans [OF o o3]] show thesis .
qed

lemma weightDeltaRequired_only: "only_snapshots bc (fst (weightDeltaRequired G old new bc))"
  by (simp add: weightDeltaRequired_def activeStake_view Let_def ensureSnapshot_only)

lemma score_weight: "cs_CumulativeWeight (score_of bc c) = chain_weight bc c"
  by (simp add: score_of_def)

text \<open>The branches of \<open>updateCanonical\<close>, over what it read.\<close>

lemma updateCanonical_branches:
  assumes "canonical_ok bc" "rooted (bc_Blocks bc) tip new" "tip \<noteq> []"
    and "computeReorgDepthAndSlot (bc_Chain bc) new = (depth, slot)"
  defines "old \<equiv> chain_weight bc (bc_Chain bc)" and "weight \<equiv> chain_weight bc new"
  obtains bc2 bc3 where "only_snapshots bc bc2" "only_snapshots bc bc3"
    "updateCanonical G tip bc =
      (if \<not> betterScore (score_of bc new) (score_of bc (bc_Chain bc)) then Some (bc2, False)
       else if 0 < bc_FinalizedSlot bc \<and> slot \<le> bc_FinalizedSlot bc
       then Some (count_reorg (\<lambda>m. m\<lparr>rm_Critical := rm_Critical m + 1\<rparr>) bc2, False)
       else if sint (cfg_MaxReorgDepth (bc_Config bc)) < int depth
       then Some (count_reorg (\<lambda>m. m\<lparr>rm_Error := rm_Error m + 1\<rparr>) bc2, False)
       else if \<not> delta_ok bc old weight
       then Some (count_reorg (\<lambda>m. m\<lparr>rm_Error := rm_Error m + 1\<rparr>) (fst (weightDeltaRequired G old weight bc3)), False)
       else Some (adopt G tip new (if 0 < depth
           then if 1 < depth then count_reorg (\<lambda>m. m\<lparr>rm_Warn := rm_Warn m + 1\<rparr>) bc3
             else count_reorg (\<lambda>m. m\<lparr>rm_Info := rm_Info m + 1\<rparr>) bc3
           else bc3), True))"
proof -
  obtain bc1 bc2 bc3 where s: "scoreTip G (bc_CanonicalTip bc) bc = Some (bc1, score_of bc (bc_Chain bc))"
    "scoreTip G tip bc1 = Some (bc2, score_of bc new)" "chainFromTip (bc_Blocks bc) tip = Some (Inr new)"
    "weightDeltaSatisfied G old weight bc2 = (bc3, delta_ok bc old weight)" and o: "only_snapshots bc bc2" "only_snapshots bc bc3"
    using fork_choice [OF assms(1-3), where G = G] unfolding old_def weight_def by metis
  have "bc_CanonicalTip bc \<noteq> []" using canonical_okD(2) [OF assms(1)] .
  then have "updateCanonical G tip bc =
      (if \<not> betterScore (score_of bc new) (score_of bc (bc_Chain bc)) then Some (bc2, False)
       else if 0 < bc_FinalizedSlot bc \<and> slot \<le> bc_FinalizedSlot bc
       then Some (count_reorg (\<lambda>m. m\<lparr>rm_Critical := rm_Critical m + 1\<rparr>) bc2, False)
       else if sint (cfg_MaxReorgDepth (bc_Config bc)) < int depth
       then Some (count_reorg (\<lambda>m. m\<lparr>rm_Error := rm_Error m + 1\<rparr>) bc2, False)
       else if \<not> delta_ok bc old weight
       then Some (count_reorg (\<lambda>m. m\<lparr>rm_Error := rm_Error m + 1\<rparr>) (fst (weightDeltaRequired G old weight bc3)), False)
       else Some (adopt G tip new (if 0 < depth
           then if 1 < depth then count_reorg (\<lambda>m. m\<lparr>rm_Warn := rm_Warn m + 1\<rparr>) bc3
             else count_reorg (\<lambda>m. m\<lparr>rm_Info := rm_Info m + 1\<rparr>) bc3
           else bc3), True))"
    by (simp add: updateCanonical_def score_weight s(1-3) s(4) [unfolded old_def weight_def] assms(4) old_def weight_def
        only_snapshots_frame [OF o(1)] adopt_def Let_def split: prod.splits)
  from that [OF o this] show thesis .
qed

lemma updateCanonical_run:
  assumes "canonical_ok bc" "rooted (bc_Blocks bc) tip new" "tip \<noteq> []"
  shows "\<exists>bc1. minor bc bc1 \<and> updateCanonical G tip bc =
    Some (if adoptable bc new then (adopt G tip new bc1, True) else (bc1, False))"
proof -
  obtain depth slot where d: "computeReorgDepthAndSlot (bc_Chain bc) new = (depth, slot)" by fastforce
  show ?thesis
  proof (rule updateCanonical_branches [OF assms d, of G])
    fix bc2 bc3
    let ?ow = "chain_weight bc (bc_Chain bc)" and ?nw = "chain_weight bc new"
    assume o: "only_snapshots bc bc2" "only_snapshots bc bc3"
    assume run: "updateCanonical G tip bc = (if \<not> betterScore (score_of bc new) (score_of bc (bc_Chain bc)) then Some (bc2, False)
       else if 0 < bc_FinalizedSlot bc \<and> slot \<le> bc_FinalizedSlot bc
       then Some (count_reorg (\<lambda>m. m\<lparr>rm_Critical := rm_Critical m + 1\<rparr>) bc2, False)
       else if sint (cfg_MaxReorgDepth (bc_Config bc)) < int depth
       then Some (count_reorg (\<lambda>m. m\<lparr>rm_Error := rm_Error m + 1\<rparr>) bc2, False)
       else if \<not> delta_ok bc ?ow ?nw
       then Some (count_reorg (\<lambda>m. m\<lparr>rm_Error := rm_Error m + 1\<rparr>) (fst (weightDeltaRequired G ?ow ?nw bc3)), False)
       else Some (adopt G tip new (if 0 < depth
           then if 1 < depth then count_reorg (\<lambda>m. m\<lparr>rm_Warn := rm_Warn m + 1\<rparr>) bc3
             else count_reorg (\<lambda>m. m\<lparr>rm_Info := rm_Info m + 1\<rparr>) bc3
           else bc3), True))"
    have m: "minor bc bc2" "minor bc bc3" "minor bc (count_reorg f bc2)" "minor bc (count_reorg f bc3)"
      "minor bc (count_reorg f (fst (weightDeltaRequired G ?ow ?nw bc3)))" for f
      using minor_only minor_count o only_snapshots_trans [OF o(2) weightDeltaRequired_only] by blast+
    show ?thesis
      using m unfolding run by (auto simp: adoptable_def d word_neq_0_conv not_le intro: exI)
  qed
qed

lemma updateFinality_frame:
  "bc_Chain (updateFinality bc) = bc_Chain bc" "bc_Blocks (updateFinality bc) = bc_Blocks bc"
  "bc_CanonicalTip (updateFinality bc) = bc_CanonicalTip bc" "bc_State (updateFinality bc) = bc_State bc"
  "bc_Validators (updateFinality bc) = bc_Validators bc" "bc_Stats (updateFinality bc) = bc_Stats bc"
  "bc_Config (updateFinality bc) = bc_Config bc" "bc_snapshots (updateFinality bc) = bc_snapshots bc"
  "bc_poh (updateFinality bc) = bc_poh bc" "bc_Genesis (updateFinality bc) = bc_Genesis bc"
  "bc_Mempool (updateFinality bc) = bc_Mempool bc" "bc_SlotProducers (updateFinality bc) = bc_SlotProducers bc"
  "bc_LastProcessedSlot (updateFinality bc) = bc_LastProcessedSlot bc" "bc_SlotProduced (updateFinality bc) = bc_SlotProduced bc"
  "bc_blockStore (updateFinality bc) = bc_blockStore bc" "bc_Equivocations (updateFinality bc) = bc_Equivocations bc" "bc_Parents (updateFinality bc) = bc_Parents bc"
  by (simp_all add: updateFinality_def Let_def)

lemma rebuildState_frame:
  "bc_Chain (rebuildStateFromCanonical G bc) = bc_Chain bc" "bc_Blocks (rebuildStateFromCanonical G bc) = bc_Blocks bc"
  "bc_CanonicalTip (rebuildStateFromCanonical G bc) = bc_CanonicalTip bc"
  "bc_Validators (rebuildStateFromCanonical G bc) = bc_Validators bc" "bc_Stats (rebuildStateFromCanonical G bc) = bc_Stats bc"
  "bc_Config (rebuildStateFromCanonical G bc) = bc_Config bc" "bc_snapshots (rebuildStateFromCanonical G bc) = bc_snapshots bc"
  "bc_poh (rebuildStateFromCanonical G bc) = bc_poh bc" "bc_Genesis (rebuildStateFromCanonical G bc) = bc_Genesis bc"
  "bc_Mempool (rebuildStateFromCanonical G bc) = bc_Mempool bc" "bc_FinalizedSlot (rebuildStateFromCanonical G bc) = bc_FinalizedSlot bc"
  "bc_SlotProducers (rebuildStateFromCanonical G bc) = bc_SlotProducers bc"
  "bc_LastProcessedSlot (rebuildStateFromCanonical G bc) = bc_LastProcessedSlot bc"
  "bc_SlotProduced (rebuildStateFromCanonical G bc) = bc_SlotProduced bc"
  "bc_blockStore (rebuildStateFromCanonical G bc) = bc_blockStore bc" "bc_Equivocations (rebuildStateFromCanonical G bc) = bc_Equivocations bc" "bc_Parents (rebuildStateFromCanonical G bc) = bc_Parents bc"
  by (simp_all add: rebuildStateFromCanonical_def split: sum.split)

lemma adopt_frame:
  "bc_Chain (adopt G tip c bc) = c" "bc_Blocks (adopt G tip c bc) = bc_Blocks bc"
  "bc_CanonicalTip (adopt G tip c bc) = tip" "bc_Validators (adopt G tip c bc) = bc_Validators bc"
  "bc_Stats (adopt G tip c bc) = bc_Stats bc" "bc_Config (adopt G tip c bc) = bc_Config bc"
  "bc_snapshots (adopt G tip c bc) = bc_snapshots bc" "bc_poh (adopt G tip c bc) = bc_poh bc"
  "bc_Genesis (adopt G tip c bc) = bc_Genesis bc" "bc_Mempool (adopt G tip c bc) = bc_Mempool bc"
  "bc_SlotProducers (adopt G tip c bc) = bc_SlotProducers bc"
  "bc_LastProcessedSlot (adopt G tip c bc) = bc_LastProcessedSlot bc"
  "bc_blockStore (adopt G tip c bc) = bc_blockStore bc" "bc_Equivocations (adopt G tip c bc) = bc_Equivocations bc"
  "bc_Parents (adopt G tip c bc) = bc_Parents bc"
  by (simp_all add: adopt_def updateFinality_frame rebuildState_frame rebuildSlotMap_def)

lemma FinalizedSlot_updateFinality: "bc_FinalizedSlot (updateFinality bc) =
    (if chainTipSlot bc < cfg_FinalitySlots (bc_Config bc) then bc_FinalizedSlot bc
     else max (bc_FinalizedSlot bc) (chainTipSlot bc - cfg_FinalitySlots (bc_Config bc)))"
  by (auto simp: updateFinality_def Let_def max_def)

lemma FinalizedSlot_adopt: "bc_FinalizedSlot bc \<le> bc_FinalizedSlot (adopt G tip c bc)"
  by (simp add: adopt_def FinalizedSlot_updateFinality rebuildState_frame rebuildSlotMap_def)

lemma FinalizedSlot_tip:
  assumes "c \<noteq> []"
  shows "bc_FinalizedSlot (adopt G tip c bc) = (if b_Slot (last c) < cfg_FinalitySlots (bc_Config bc) then bc_FinalizedSlot bc
    else max (bc_FinalizedSlot bc) (b_Slot (last c) - cfg_FinalitySlots (bc_Config bc)))"
proof -
  have "chainTipSlot (rebuildStateFromCanonical G (rebuildSlotMap (bc\<lparr>bc_CanonicalTip := tip, bc_Chain := c\<rparr>))) = b_Slot (last c)"
    using assms by (simp add: chainTipSlot_def rebuildState_frame rebuildSlotMap_def last_conv_nth)
  then show ?thesis
    by (simp add: adopt_def FinalizedSlot_updateFinality rebuildState_frame rebuildSlotMap_def)
qed

lemma State_adopt: "bc_State (adopt G tip c bc) =
    (case replay G (bc_Validators bc) (drop 1 c) (bc_Genesis bc) of Inl e \<Rightarrow> bc_State bc | Inr s \<Rightarrow> s)"
  by (auto simp: adopt_def updateFinality_frame rebuildStateFromCanonical_def rebuildSlotMap_def split: sum.split)

lemma updateCanonical_cases:
  assumes "canonical_ok bc" "fmlookup (bc_Blocks bc) tip = Some b"
  obtains new bc1 where "rooted (bc_Blocks bc) tip new" "minor bc bc1"
    "updateCanonical G tip bc = Some (if adoptable bc new then (adopt G tip new bc1, True) else (bc1, False))"
proof -
  note ok = canonical_okD [OF assms(1)]
  from tree_okD(2,4) [OF ok(1) assms(2)] obtain new where new: "rooted (bc_Blocks bc) tip new" and tip: "tip \<noteq> []" by blast
  with updateCanonical_run [OF assms(1) new tip, of G] that show thesis by blast
qed

lemma canonical_ok_adopt:
  "canonical_ok bc \<Longrightarrow> minor bc bc1 \<Longrightarrow> rooted (bc_Blocks bc) tip new \<Longrightarrow> tip \<noteq> [] \<Longrightarrow> canonical_ok (adopt G tip new bc1)"
  by (simp add: canonical_ok_def adopt_frame minor_frame)

lemma canonical_ok_minor: "canonical_ok bc \<Longrightarrow> minor bc bc1 \<Longrightarrow> canonical_ok bc1"
  by (simp add: canonical_ok_def minor_frame)

lemma canonical_ok_insert:
  assumes "canonical_ok bc" "fmlookup (bc_Blocks bc) (b_PrevHash b) \<noteq> None"
    and "fmlookup (bc_Blocks bc) (b_Hash b) = None" "b_Hash b \<noteq> []" "b_Hash b \<noteq> ''GENESIS''"
  shows "canonical_ok (insertBlock b bc)"
proof -
  note ok = canonical_okD [OF assms(1)]
  have "rooted (fmupd (b_Hash b) b (bc_Blocks bc)) (bc_CanonicalTip bc) (bc_Chain bc)"
    by (rule rooted_mono [OF ok(3)]) (use assms(3) in auto)
  with ok tree_ok_insert [OF ok(1) assms(2-5)] show ?thesis
    by (simp add: canonical_ok_def insertBlock_def Let_def)
qed

text \<open>Two rooted chains that agree on a hash agree on the block.\<close>

lemma same_hash_same_block:
  assumes "tree_ok blocks" "rooted blocks h c" "rooted blocks k d" "i < length c" "i < length d"
    and "b_Hash (c ! i) = b_Hash (d ! i)"
  shows "c ! i = d ! i"
proof -
  obtain m n where "fmlookup blocks m = Some (c ! i)" "fmlookup blocks n = Some (d ! i)"
    using rooted_set [OF assms(2), of "c ! i"] rooted_set [OF assms(3), of "d ! i"] assms(4,5) by auto
  with tree_okD(1) [OF assms(1)] assms(6) show ?thesis by (metis option.inject)
qed

section \<open>Replay\<close>

lemma replay_append: "replay G vs (xs @ ys) s = Inr t \<longleftrightarrow> (\<exists>u. replay G vs xs s = Inr u \<and> replay G vs ys u = Inr t)"
  by (induction xs arbitrary: s) (auto split: sum.splits)

definition burned :: "golib \<Rightarrow> validators \<Rightarrow> Block list \<Rightarrow> i64" where
  "burned G vs bs = sum_list (map (\<lambda>b. if validatorRewardAddress G vs (b_Validator b) = []
     then fees (b_Transactions b) else 0) bs)"

lemma replay_money: "replay G vs bs s = Inr t \<Longrightarrow> money t = money s - burned G vs bs"
proof (induction bs arbitrary: s)
  case Nil
  then show ?case by (simp add: burned_def)
next
  case (Cons b bs)
  then obtain u where u: "ApplyTransactions s (b_Transactions b) (validatorRewardAddress G vs (b_Validator b)) = Inr u"
    "replay G vs bs u = Inr t" by (auto split: sum.splits)
  with Cons.IH [OF u(2)] apply_from_total [OF u(1) [unfolded ApplyTransactions_def]] show ?case
    by (simp add: burned_def)
qed

lemma replay_nonce: "replay G vs bs s = Inr t \<Longrightarrow> ac_Nonce (account_at t a) =
    ac_Nonce (account_at s a) + word_of_nat (length (sent_by a (concat (map b_Transactions bs))))"
proof (induction bs arbitrary: s)
  case Nil
  then show ?case by simp
next
  case (Cons b bs)
  then obtain u where u: "ApplyTransactions s (b_Transactions b) (validatorRewardAddress G vs (b_Validator b)) = Inr u"
    "replay G vs bs u = Inr t" by (auto split: sum.splits)
  with Cons.IH [OF u(2)] nonces_consecutive [OF u(1) [unfolded ApplyTransactions_def], of a] show ?case
    by (simp add: sent_by_def)
qed

section \<open>A small concrete chain\<close>

text \<open>
  A root block, a block of slot 1 on the canonical chain, and two candidates for slot 2: \<open>i\<close> by the
  validator with stake 200, \<open>j\<close> by the one with stake 12.
\<close>

definition child_block :: "string \<Rightarrow> string \<Rightarrow> u64 \<Rightarrow> string \<Rightarrow> Block" where
  "child_block h prev slot name = zero_block\<lparr>b_Index := slot, b_PrevHash := prev, b_Slot := slot,
     b_Validator := name, b_Hash := h\<rparr>"

definition demo_config :: ChainConfig where
  "demo_config = \<lparr>cfg_MaxReorgDepth = 2, cfg_FinalitySlots = 2, cfg_MinReorgWeightDeltaP = 10,
     cfg_EpochLength = 50, cfg_DeterministicPoH = True, cfg_PoHSeed = 3, cfg_MaxBlockTxs = 100\<rparr>"

definition demo_blocks :: blocks where
  "demo_blocks = fmupd ''j'' (child_block ''j'' ''h'' 2 ''bob'') (fmupd ''i'' (child_block ''i'' ''h'' 2 ''alice'')
     (fmupd ''h'' (child_block ''h'' ''g'' 1 ''alice'') (fmupd ''g'' root_block fmempty)))"

definition demo_bc :: "(unit, unit) Blockchain" where
  "demo_bc = \<lparr>bc_Chain = [root_block, child_block ''h'' ''g'' 1 ''alice''], bc_Blocks = demo_blocks, bc_Parents = fmempty,
     bc_CanonicalTip = ''h'', bc_Validators = demo_validators, bc_Stats = Some fmempty, bc_poh = None,
     bc_State = rich, bc_Genesis = rich, bc_SlotProduced = fmempty, bc_SlotProducers = fmempty,
     bc_Equivocations = [], bc_LastProcessedSlot = 0, bc_FinalizedSlot = 1, bc_Config = demo_config,
     bc_ReorgStats = \<lparr>rm_Info = 0, rm_Warn = 0, rm_Error = 0, rm_Critical = 0\<rparr>, bc_currentEpoch = 0,
     bc_snapshots = fmempty, bc_blockStore = None, bc_snapshotStore = None, bc_Mempool = None\<rparr>"

lemma child_block_simps [simp]:
  "b_Index (child_block h p sl n) = sl" "b_PrevHash (child_block h p sl n) = p" "b_Slot (child_block h p sl n) = sl"
  "b_Validator (child_block h p sl n) = n" "b_Hash (child_block h p sl n) = h"
  "b_Transactions (child_block h p sl n) = []"
  by (simp_all add: child_block_def zero_block_def)

lemma root_block_simps [simp]:
  "b_PrevHash root_block = ''GENESIS''" "b_Hash root_block = ''g''" "b_Slot root_block = 0" "b_Validator root_block = []"
  by (simp_all add: root_block_def zero_block_def)

lemma demo_tree: "tree_ok demo_blocks"
  unfolding demo_blocks_def
  using tree_ok_insert [OF tree_ok_insert [OF tree_ok_insert [OF tree_ok_singleton [of root_block "''g''"],
      of "child_block ''h'' ''g'' 1 ''alice''"], of "child_block ''i'' ''h'' 2 ''alice''"],
      of "child_block ''j'' ''h'' 2 ''bob''"]
  by simp

lemma demo_rooted:
  "rooted demo_blocks ''h'' [root_block, child_block ''h'' ''g'' 1 ''alice'']"
  "rooted demo_blocks ''i'' [root_block, child_block ''h'' ''g'' 1 ''alice'', child_block ''i'' ''h'' 2 ''alice'']"
  "rooted demo_blocks ''j'' [root_block, child_block ''h'' ''g'' 1 ''alice'', child_block ''j'' ''h'' 2 ''bob'']"
proof -
  have g: "rooted demo_blocks ''g'' [root_block]"
    by (rule rooted.root) (simp_all add: demo_blocks_def)
  show h: "rooted demo_blocks ''h'' [root_block, child_block ''h'' ''g'' 1 ''alice'']"
    using rooted.child [of demo_blocks "''h''" "child_block ''h'' ''g'' 1 ''alice''" "[root_block]"] g
    by (simp add: demo_blocks_def)
  show "rooted demo_blocks ''i'' [root_block, child_block ''h'' ''g'' 1 ''alice'', child_block ''i'' ''h'' 2 ''alice'']"
    using rooted.child [of demo_blocks "''i''" "child_block ''i'' ''h'' 2 ''alice''" "[root_block, child_block ''h'' ''g'' 1 ''alice'']"] h
    by (simp add: demo_blocks_def)
  show "rooted demo_blocks ''j'' [root_block, child_block ''h'' ''g'' 1 ''alice'', child_block ''j'' ''h'' 2 ''bob'']"
    using rooted.child [of demo_blocks "''j''" "child_block ''j'' ''h'' 2 ''bob''" "[root_block, child_block ''h'' ''g'' 1 ''alice'']"] h
    by (simp add: demo_blocks_def)
qed

lemma demo_bc_ok: "canonical_ok demo_bc"
  using demo_tree demo_rooted(1) by (simp add: canonical_ok_def demo_bc_def)

lemma demo_may_lead: "10 \<le> sint s \<Longrightarrow> may_lead (Some fmempty) slot (demo_validator n s)"
  by (simp add: may_lead_def IsJailed_def word_sless_alt)

lemma demo_active: "active_stakes (Some fmempty) slot demo_validators = fmupd ''alice'' 200 (fmupd ''bob'' 12 fmempty)"
  using demo_may_lead by (intro fmap_ext) (auto simp: active_stakes_def demo_validators_def)

lemma demo_views:
  "stake_view demo_bc slot n = (if n = ''alice'' then 200 else if n = ''bob'' then 12 else 0)"
  "active_view demo_bc = 212" "min_delta demo_bc = 21"
proof -
  have names: "\<forall>n v. fmlookup demo_validators n = Some v \<longrightarrow> v_Name v = n"
    using validators_okD(2) [OF demo_validators_ok] by blast
  note snap = new_snapshot_active [OF names]
  show "stake_view demo_bc slot n = (if n = ''alice'' then 200 else if n = ''bob'' then 12 else 0)"
    by (simp add: stake_view_def snap_view_def snap demo_active demo_bc_def)
  have "total_weight (fmupd ''alice'' 200 (fmupd ''bob'' 12 fmempty)) = 212"
    by (simp add: total_weight_def)
  then show active: "active_view demo_bc = 212"
    by (simp add: active_view_def snap_view_def snap demo_active demo_bc_def)
  show "min_delta demo_bc = 21"
    unfolding min_delta_def active by (simp add: demo_bc_def demo_config_def)
qed

lemma demo_fields:
  "bc_Chain demo_bc = [root_block, child_block ''h'' ''g'' 1 ''alice'']" "bc_Blocks demo_bc = demo_blocks"
  "bc_CanonicalTip demo_bc = ''h''" "bc_FinalizedSlot demo_bc = 1" "bc_Config demo_bc = demo_config"
  "cfg_MaxReorgDepth demo_config = 2" "cfg_MinReorgWeightDeltaP demo_config = 10"
  "cfg_EpochLength demo_config = 50" "bc_Validators demo_bc = demo_validators" "bc_Stats demo_bc = Some fmempty"
  "bc_snapshots demo_bc = fmempty" "bc_Genesis demo_bc = rich" "bc_State demo_bc = rich"
  by (simp_all add: demo_bc_def demo_config_def)

lemma demo_depth: "computeReorgDepthAndSlot [root_block, child_block ''h'' ''g'' 1 ''alice'']
    [root_block, child_block ''h'' ''g'' 1 ''alice'', c] = (0, b_Slot c)"
  using computeReorg_extension [of "[root_block, child_block ''h'' ''g'' 1 ''alice'']" c "[]"] by simp

lemma demo_weights:
  "chain_weight demo_bc [root_block, child_block ''h'' ''g'' 1 ''alice''] = 200"
  "chain_weight demo_bc [root_block, child_block ''h'' ''g'' 1 ''alice'', child_block ''i'' ''h'' 2 ''alice''] = 400"
  "chain_weight demo_bc [root_block, child_block ''h'' ''g'' 1 ''alice'', child_block ''j'' ''h'' 2 ''bob''] = 212"
  by (simp_all add: demo_views)

lemma demo_adoptable:
  "adoptable demo_bc [root_block, child_block ''h'' ''g'' 1 ''alice'', child_block ''i'' ''h'' 2 ''alice'']"
  unfolding adoptable_def demo_fields demo_depth delta_ok_def demo_weights score_of_def betterScore_def demo_views(3)
  by simp

section \<open>Properties\<close>

text \<open>
  C7: what \<open>updateCanonical\<close> does with a stored tip.  From a well-formed chain it returns; it adopts the
  tip exactly when its score is better, the reorganisation leaves finalized slots alone and is not
  deeper than allowed, and the weight grows enough.  Adopting makes the tip's chain canonical; otherwise
  chain, ledger and finality stay.  The result is well-formed, and no existing epoch snapshot changes.
\<close>

theorem updateCanonical_decides:
  assumes "canonical_ok bc" "fmlookup (bc_Blocks bc) tip = Some b"
  shows "\<exists>bc' adopted new. chainFromTip (bc_Blocks bc) tip = Some (Inr new) \<and>
    updateCanonical G tip bc = Some (bc', adopted) \<and> canonical_ok bc' \<and> (adopted \<longleftrightarrow> adoptable bc new) \<and>
    (if adopted then bc_CanonicalTip bc' = tip \<and> bc_Chain bc' = new \<and> bc_FinalizedSlot bc \<le> bc_FinalizedSlot bc'
     else bc_CanonicalTip bc' = bc_CanonicalTip bc \<and> bc_Chain bc' = bc_Chain bc \<and>
       bc_State bc' = bc_State bc \<and> bc_FinalizedSlot bc' = bc_FinalizedSlot bc) \<and>
    (\<forall>e s. fmlookup (bc_snapshots bc) e = Some s \<longrightarrow> fmlookup (bc_snapshots bc') e = Some s)"
proof -
  obtain new bc1 where new: "rooted (bc_Blocks bc) tip new" and m: "minor bc bc1"
    and run: "updateCanonical G tip bc = Some (if adoptable bc new then (adopt G tip new bc1, True) else (bc1, False))"
    using updateCanonical_cases [OF assms] by blast
  have tip: "tip \<noteq> []" using tree_okD(2) [OF canonical_okD(1) [OF assms(1)] assms(2)] .
  have walk: "chainFromTip (bc_Blocks bc) tip = Some (Inr new)" using new tip by (rule chainFromTip_rooted)
  note frame = minor_frame [OF m] minor_views(5) [OF m]
  show ?thesis
  proof (cases "adoptable bc new")
    case True
    have "bc_FinalizedSlot bc \<le> bc_FinalizedSlot (adopt G tip new bc1)"
      using FinalizedSlot_adopt [of bc1 G tip new] by (simp add: frame)
    then show ?thesis
      using True walk run canonical_ok_adopt [OF assms(1) m new tip, of G] frame
      by (intro exI [of _ "adopt G tip new bc1"] exI [of _ True] exI [of _ new]) (auto simp: adopt_frame)
  next
    case False
    then show ?thesis
      using walk run canonical_ok_minor [OF assms(1) m] frame
      by (intro exI [of _ bc1] exI [of _ False] exI [of _ new]) auto
  qed
qed

theorem updateCanonical_decides_witness:
  "\<exists>bc'. updateCanonical demo_lib ''i'' demo_bc = Some (bc', True) \<and> canonical_ok bc' \<and> bc_CanonicalTip bc' = ''i''"
proof -
  have stored: "fmlookup (bc_Blocks demo_bc) ''i'' = Some (child_block ''i'' ''h'' 2 ''alice'')"
    by (simp add: demo_bc_def demo_blocks_def)
  have walk: "chainFromTip (bc_Blocks demo_bc) ''i'' =
      Some (Inr [root_block, child_block ''h'' ''g'' 1 ''alice'', child_block ''i'' ''h'' 2 ''alice''])"
    by (rule chainFromTip_rooted) (simp_all add: demo_bc_def demo_rooted)
  from updateCanonical_decides [OF demo_bc_ok stored, of demo_lib] walk demo_adoptable show ?thesis by auto
qed

lemma adoptable_keeps:
  assumes "canonical_ok bc" "rooted (bc_Blocks bc) tip new" "adoptable bc new"
  obtains n where "n \<le> length new" "n \<le> length (bc_Chain bc)" "take n new = take n (bc_Chain bc)"
    "int (length (bc_Chain bc)) \<le> int n + sint (cfg_MaxReorgDepth (bc_Config bc))"
    "\<And>i. 0 < bc_FinalizedSlot bc \<Longrightarrow> sorted (map b_Slot (bc_Chain bc)) \<Longrightarrow> i < length (bc_Chain bc) \<Longrightarrow>
      b_Slot (bc_Chain bc ! i) \<le> bc_FinalizedSlot bc \<Longrightarrow> i < n"
proof -
  let ?old = "bc_Chain bc"
  note ok = canonical_okD [OF assms(1)]
  obtain depth slot where d: "computeReorgDepthAndSlot ?old new = (depth, slot)" by fastforce
  from assms(3) have guard: "0 < bc_FinalizedSlot bc \<Longrightarrow> bc_FinalizedSlot bc < slot"
      "int depth \<le> sint (cfg_MaxReorgDepth (bc_Config bc))"
    by (auto simp: adoptable_def d)
  define n where "n = length ?old - depth"
  from computeReorgDepth_prefix [OF d] have n: "depth \<le> length ?old" "n \<le> length new"
    "\<forall>i<n. b_Hash (?old ! i) = b_Hash (new ! i)" "depth > 0 \<Longrightarrow> slot = b_Slot (?old ! n)"
    by (simp_all add: n_def Let_def)
  have same: "new ! i = ?old ! i" if "i < n" for i
    using same_hash_same_block [OF ok(1) ok(3) assms(2), of i] n that by (simp add: n_def)
  have "take n new = take n ?old"
    by (rule nth_equalityI) (use n(1,2) same in \<open>auto simp: n_def\<close>)
  moreover have "i < n" if "0 < bc_FinalizedSlot bc" "sorted (map b_Slot ?old)" "i < length ?old"
    "b_Slot (?old ! i) \<le> bc_FinalizedSlot bc" for i
  proof (rule ccontr)
    assume "\<not> i < n"
    with that(3) have "n \<le> i" "depth > 0" by (auto simp: n_def)
    with sorted_nth_mono [OF that(2), of n i] that(3) n(4) have "slot \<le> b_Slot (?old ! i)" by simp
    with that(4) guard(1) [OF that(1)] show False by simp
  qed
  ultimately show thesis using n(1,2) guard(2) by (intro that [of n]) (auto simp: n_def)
qed

text \<open>
  C8: finality.  When some slot is finalized and the slots of the canonical chain do not decrease, no
  result of \<open>updateCanonical\<close> gives up a block at or below the finalized slot: it stays at the same
  position of the canonical chain.  At most \<open>MaxReorgDepth\<close> blocks are given up.
\<close>

theorem finalized_blocks_stay:
  assumes "canonical_ok bc" "fmlookup (bc_Blocks bc) tip = Some b" "0 < bc_FinalizedSlot bc"
    and "sorted (map b_Slot (bc_Chain bc))" "0 \<le> sint (cfg_MaxReorgDepth (bc_Config bc))"
    and "updateCanonical G tip bc = Some (bc', adopted)"
  shows "(\<forall>i < length (bc_Chain bc). b_Slot (bc_Chain bc ! i) \<le> bc_FinalizedSlot bc \<longrightarrow>
      i < length (bc_Chain bc') \<and> bc_Chain bc' ! i = bc_Chain bc ! i) \<and>
    (\<exists>kept. int (length (bc_Chain bc)) \<le> int kept + sint (cfg_MaxReorgDepth (bc_Config bc)) \<and>
      take kept (bc_Chain bc') = take kept (bc_Chain bc))"
proof -
  let ?old = "bc_Chain bc"
  obtain new bc1 where new: "rooted (bc_Blocks bc) tip new" and m: "minor bc bc1"
    and run: "updateCanonical G tip bc = Some (if adoptable bc new then (adopt G tip new bc1, True) else (bc1, False))"
    using updateCanonical_cases [OF assms(1,2)] by blast
  show ?thesis
  proof (cases "adoptable bc new")
    case False
    with run assms(6) have "bc_Chain bc' = ?old" by (simp add: minor_frame [OF m])
    with assms(5) show ?thesis by (auto intro: exI [of _ "length ?old"])
  next
    case True
    with run assms(6) have chain: "bc_Chain bc' = new" by (auto simp: adopt_frame)
    from adoptable_keeps [OF assms(1) new True] obtain n where n: "n \<le> length new" "take n new = take n ?old"
      "int (length ?old) \<le> int n + sint (cfg_MaxReorgDepth (bc_Config bc))"
      "\<And>i. i < length ?old \<Longrightarrow> b_Slot (?old ! i) \<le> bc_FinalizedSlot bc \<Longrightarrow> i < n"
      using assms(3,4) by metis
    have "i < length new \<and> new ! i = ?old ! i" if "i < n" for i
      using that n(1) arg_cong [OF n(2), of "\<lambda>xs. xs ! i"] by simp
    with n chain show ?thesis by blast
  qed
qed

theorem finalized_blocks_stay_witness:
  "\<exists>bc'. updateCanonical demo_lib ''i'' demo_bc = Some (bc', True) \<and> bc_Chain bc' ! 1 = child_block ''h'' ''g'' 1 ''alice''"
proof -
  have stored: "fmlookup (bc_Blocks demo_bc) ''i'' = Some (child_block ''i'' ''h'' 2 ''alice'')"
    by (simp add: demo_bc_def demo_blocks_def)
  obtain new bc1 where "updateCanonical demo_lib ''i'' demo_bc =
      Some (if adoptable demo_bc new then (adopt demo_lib ''i'' new bc1, True) else (bc1, False))"
    and "rooted (bc_Blocks demo_bc) ''i'' new"
    using updateCanonical_cases [OF demo_bc_ok stored] by blast
  moreover from this(2) have "new = [root_block, child_block ''h'' ''g'' 1 ''alice'', child_block ''i'' ''h'' 2 ''alice'']"
    using rooted_unique demo_rooted(2) by (metis demo_fields(2))
  ultimately have run: "updateCanonical demo_lib ''i'' demo_bc = Some (adopt demo_lib ''i'' new bc1, True)"
    using demo_adoptable by simp
  have slots: "sorted (map b_Slot (bc_Chain demo_bc))" "0 < bc_FinalizedSlot demo_bc"
    "0 \<le> sint (cfg_MaxReorgDepth (bc_Config demo_bc))"
    by (simp_all add: demo_fields)
  note stay = finalized_blocks_stay [OF demo_bc_ok stored slots(2,1,3) run, THEN conjunct1, rule_format, of 1]
  have "bc_Chain (adopt demo_lib ''i'' new bc1) ! 1 = bc_Chain demo_bc ! 1" using stay by (simp add: demo_fields)
  with run show ?thesis by (simp add: demo_fields)
qed

text \<open>
  C35: the weight guard also applies to blocks that extend the canonical chain, without any
  reorganisation.  With a positive \<open>MinReorgWeightDeltaP\<close>, a block on top of the tip is never adopted
  when its producer's stake is below the required delta (that percentage of the active stake); the
  chain and the ledger stay where they were.
\<close>

theorem small_leader_never_extends:
  assumes "canonical_ok bc" "fmlookup (bc_Blocks bc) tip = Some b" "b_PrevHash b = bc_CanonicalTip bc"
    and "0 <s cfg_MinReorgWeightDeltaP (bc_Config bc)"
    and "stake_view bc (b_Slot b) (b_Validator b) < min_delta bc"
    and "unat (chain_weight bc (bc_Chain bc)) + unat (min_delta bc) < 2 ^ 64"
  shows "\<exists>bc'. updateCanonical G tip bc = Some (bc', False) \<and> bc_Chain bc' = bc_Chain bc \<and> bc_State bc' = bc_State bc"
proof -
  note ok = canonical_okD [OF assms(1)]
  let ?w = "chain_weight bc (bc_Chain bc)" and ?s = "stake_view bc (b_Slot b) (b_Validator b)"
  have "fmlookup (bc_Blocks bc) (bc_CanonicalTip bc) = Some (last (bc_Chain bc))" by (rule rooted_last [OF ok(3)])
  then have tip: "tip \<noteq> []" "bc_CanonicalTip bc \<noteq> ''GENESIS''"
    using tree_okD(2) [OF ok(1) assms(2)] tree_okD(3) [OF ok(1)] by blast+
  have new: "rooted (bc_Blocks bc) tip (bc_Chain bc @ [b])"
    by (rule rooted.child) (use assms(2,3) ok(3) tip in auto)
  obtain bc1 where m: "minor bc bc1" and run: "updateCanonical G tip bc =
      Some (if adoptable bc (bc_Chain bc @ [b]) then (adopt G tip (bc_Chain bc @ [b]) bc1, True) else (bc1, False))"
    using updateCanonical_run [OF assms(1) new tip(1)] by blast
  have s: "unat ?s < unat (min_delta bc)" using assms(5) by (simp add: word_less_nat_alt)
  have "unat (?w + min_delta bc) = unat ?w + unat (min_delta bc)" "unat (?w + ?s) = unat ?w + unat ?s"
    using assms(6) s by (simp_all add: unat_word_ariths)
  with s have "\<not> ?w + min_delta bc \<le> ?w + ?s" by (simp add: word_le_nat_alt)
  moreover have "\<not> cfg_MinReorgWeightDeltaP (bc_Config bc) \<le>s 0"
    using assms(4) by (simp add: word_sle_eq word_sless_alt)
  ultimately have "\<not> adoptable bc (bc_Chain bc @ [b])"
    by (simp add: adoptable_def delta_ok_def computeReorg_extension)
  with run minor_frame [OF m] show ?thesis by (intro exI [of _ bc1]) simp
qed

theorem small_leader_never_extends_witness:
  "\<exists>bc'. updateCanonical demo_lib ''j'' demo_bc = Some (bc', False) \<and> bc_Chain bc' = bc_Chain demo_bc"
proof -
  have "fmlookup (bc_Blocks demo_bc) ''j'' = Some (child_block ''j'' ''h'' 2 ''bob'')"
    by (simp add: demo_bc_def demo_blocks_def)
  from small_leader_never_extends [OF demo_bc_ok this, of demo_lib] show ?thesis
    by (auto simp: demo_fields demo_views demo_weights word_sless_alt)
qed

text \<open>
  C29: the snapshot of an epoch agrees with the registry.  A snapshot created now holds exactly the stakes
  of the validators that may lead in the epoch's first slot, and its total is their sum; so when these
  stakes add up to an \<open>int\<close>, the chain's leader for that slot is the one \<open>DeterministicLeader\<close>
  elects from the registry.
\<close>

theorem fresh_snapshot_leader:
  assumes "\<forall>n v. fmlookup (bc_Validators bc) n = Some v \<longrightarrow> v_Name v = n"
    and "fmlookup (bc_snapshots bc) (epochForSlot slot bc) = None"
    and "slot = epochForSlot slot bc * cfg_EpochLength (bc_Config bc)"
    and "total_weight (active_stakes (bc_Stats bc) slot (bc_Validators bc)) < 2 ^ 63"
  shows "\<exists>bc' snap. snapshotForSlot G slot bc = (bc', Some snap) \<and>
    es_Validators snap = active_stakes (bc_Stats bc) slot (bc_Validators bc) \<and>
    es_TotalStake snap = word_of_nat (total_weight (es_Validators snap)) \<and>
    snd (leaderForSlot G slot bc) = DeterministicLeader G slot (bc_Validators bc) (bc_Stats bc)"
proof -
  let ?snap = "snap_view bc (epochForSlot slot bc)"
  have snap: "?snap = new_snapshot (epochForSlot slot bc) slot (bc_Validators bc) (bc_Stats bc)"
    using assms(2,3) by (simp add: snap_view_def)
  note act = new_snapshot_active [OF assms(1)]
  have "es_Validators ?snap = active_stakes (bc_Stats bc) slot (bc_Validators bc)"
    "es_TotalStake ?snap = word_of_nat (total_weight (es_Validators ?snap))"
    unfolding snap act by simp_all
  moreover from this(1) have "snd (leaderForSlot G slot bc) = DeterministicLeader G slot (bc_Validators bc) (bc_Stats bc)"
    using DeterministicLeader_snapshot [OF assms(4)] by (simp add: leaderForSlot_view leader_view_def)
  ultimately show ?thesis by (auto simp: snapshotForSlot_view)
qed

theorem fresh_snapshot_leader_witness:
  "snd (leaderForSlot demo_lib 50 demo_bc) = DeterministicLeader demo_lib 50 demo_validators (Some fmempty)"
proof -
  have "\<forall>n v. fmlookup (bc_Validators demo_bc) n = Some v \<longrightarrow> v_Name v = n"
    using validators_okD(2) [OF demo_validators_ok] by (simp add: demo_fields)
  from fresh_snapshot_leader [OF this, of 50 demo_lib] show ?thesis
    by (auto simp: demo_fields epochForSlot_def demo_active total_weight_def)
qed

text \<open>
  The ledger of the canonical chain.  Replaying a chain on the genesis accounts keeps the money
  (modulo \<open>2^64\<close>) except for the fees of blocks whose producer has no reward address, and raises every
  account's nonce by the number of its transactions in the chain; \<open>adopt\<close>ing a tip sets the state to this
  replay, or leaves it when the replay fails.
\<close>

theorem canonical_state_replays:
  assumes "replay G (bc_Validators bc) (drop 1 chain) (bc_Genesis bc) = Inr s"
  shows "bc_State (adopt G tip chain bc) = s \<and>
    money s = money (bc_Genesis bc) - burned G (bc_Validators bc) (drop 1 chain) \<and>
    ac_Nonce (account_at s a) = ac_Nonce (account_at (bc_Genesis bc) a) +
      word_of_nat (length (sent_by a (concat (map b_Transactions (drop 1 chain)))))"
  using assms replay_money [OF assms] replay_nonce [OF assms] by (simp add: State_adopt)

theorem canonical_state_replays_witness:
  "bc_State (adopt demo_lib ''i'' [root_block, child_block ''h'' ''g'' 1 ''alice''] demo_bc) = rich"
  using canonical_state_replays [of demo_lib demo_bc "[root_block, child_block ''h'' ''g'' 1 ''alice'']" rich]
  by (simp add: demo_fields ApplyTransactions_def)

end
