(* ===== verification/Production.thy ===== *)
theory Production
  imports Chain
begin

text \<open>
  \<open>core/blockchain.go\<close>: creating a chain, producing and accepting blocks, counting missed slots, and
  equivocation.  \<open>AddBlock\<close> and \<open>AddBlockExternal\<close> take the entropy of the block's signature as
  the number \<open>rnd\<close>.  The lemmas follow a block from its draft to the chain; the theories \<open>Adding\<close>,
  \<open>External\<close> and \<open>Penalties\<close> hold the properties.
\<close>

section \<open>Creating a chain\<close>

definition genesis_block :: "golib \<Rightarrow> i64 \<Rightarrow> Block" where
  \<comment> \<open>\<open>createGenesisBlock\<close>, for a generator seeded with \<open>seed\<close>\<close>
  "genesis_block G seed =
    (let pohSeed = HashPoHSeed G (Int63 G seed);
         pohHash = PoHHashHex pohSeed;
         genesis = \<lparr>b_Index = 0, b_PrevHash = ''GENESIS'', b_Slot = 0, b_Tick = 0, b_Validator = ''genesis'',
           b_TxRoot = TxRoot G [], b_StateRoot = StateRoot G fmempty, b_PoHHash = pohHash,
           b_Signature = [], b_Hash = [], b_Transactions = []\<rparr>
     in genesis\<lparr>b_Hash := hash_of_block G genesis\<rparr>)"

lemma genesis_block_fields:
  "b_Index (genesis_block G seed) = 0" "b_PrevHash (genesis_block G seed) = ''GENESIS''"
  "b_Slot (genesis_block G seed) = 0" "b_Tick (genesis_block G seed) = 0" "b_Validator (genesis_block G seed) = ''genesis''"
  "b_Transactions (genesis_block G seed) = []" "b_PoHHash (genesis_block G seed) = PoHHashHex (HashPoHSeed G (Int63 G seed))"
  "ParsePoHHashHex (b_PoHHash (genesis_block G seed)) = Inr (HashPoHSeed G (Int63 G seed))"
  by (simp_all add: genesis_block_def ParsePoHHashHex_Inr PoHHashHex_def Let_def)

lemma genesis_block_hash: "b_Hash (genesis_block G seed) = hash_of_block G (genesis_block G seed)"
  by (simp add: genesis_block_def Let_def)

definition default_config :: "ChainConfig \<Rightarrow> ChainConfig" where
  "default_config cfg =
    (let cfg = (if cfg_MaxReorgDepth cfg = 0 then cfg\<lparr>cfg_MaxReorgDepth := 2\<rparr> else cfg);
         cfg = (if cfg_FinalitySlots cfg = 0 then cfg\<lparr>cfg_FinalitySlots := 2\<rparr> else cfg);
         cfg = (if cfg_EpochLength cfg = 0 then cfg\<lparr>cfg_EpochLength := SlotsPerEpoch\<rparr> else cfg)
     in if cfg_MaxBlockTxs cfg = 0 then cfg\<lparr>cfg_MaxBlockTxs := 100\<rparr> else cfg)"

definition NewBlockchain :: "golib \<Rightarrow> ChainConfig \<Rightarrow> i64 option \<Rightarrow> ('bs, 'ss) Blockchain option" where
  \<comment> \<open>\<open>clock\<close> is what the clock reads, \<open>None\<close> for a nil clock\<close>
  "NewBlockchain G cfg clock =
    (let bc = \<lparr>bc_Chain = [], bc_Blocks = fmempty, bc_Parents = fmempty, bc_CanonicalTip = [],
           bc_Validators = fmempty, bc_Stats = Some fmempty, bc_poh = None, bc_State = fmempty,
           bc_Genesis = fmempty, bc_SlotProduced = fmempty, bc_SlotProducers = fmempty,
           bc_Equivocations = [], bc_LastProcessedSlot = 0, bc_FinalizedSlot = 0,
           bc_Config = default_config cfg,
           bc_ReorgStats = \<lparr>rm_Info = 0, rm_Warn = 0, rm_Error = 0, rm_Critical = 0\<rparr>, bc_currentEpoch = 0,
           bc_snapshots = fmempty, bc_blockStore = None, bc_snapshotStore = None, bc_Mempool = None\<rparr>;
         seed = (if cfg_DeterministicPoH (bc_Config bc) then cfg_PoHSeed (bc_Config bc)
           else case clock of Some now \<Rightarrow> now | None \<Rightarrow> 0);
         genesis = genesis_block G seed;
         pohSeed = (case ParsePoHHashHex (b_PoHHash genesis) of Inr h \<Rightarrow> h | Inl e \<Rightarrow> Digest (replicate 32 0));
         bc = bc\<lparr>bc_poh := Some (NewPoH pohSeed)\<rparr>;
         bc = insertBlock genesis bc;
         bc = bc\<lparr>bc_CanonicalTip := b_Hash genesis\<rparr>
     in do {
       bc \<leftarrow> rebuildCanonicalChain G bc;
       let bc = updateFinality bc;
       Some (bc\<lparr>bc_Mempool := Some NewMempool\<rparr>)
     })"

definition SetBalance :: "string \<Rightarrow> i64 \<Rightarrow> ('bs, 'ss) Blockchain \<Rightarrow> ('bs, 'ss) Blockchain" where
  "SetBalance address amount bc =
    (if amount <s 0 then bc
     else let acct = account_at (bc_State bc) address;
              acct = acct\<lparr>ac_Balance := amount\<rparr>;
              bc = bc\<lparr>bc_State := fmupd address acct (bc_State bc)\<rparr>
          in if length (bc_Chain bc) \<le> 1 then bc\<lparr>bc_Genesis := fmupd address acct (bc_Genesis bc)\<rparr> else bc)"

definition AddTx :: "golib \<Rightarrow> Transaction \<Rightarrow> ('bs, 'ss) Blockchain \<Rightarrow> ('bs, 'ss) Blockchain \<times> failure" where
  "AddTx G tx bc =
    (let m = (case bc_Mempool bc of None \<Rightarrow> NewMempool | Some m \<Rightarrow> m);
         (m, err) = Mempool.Add G m tx
     in (bc\<lparr>bc_Mempool := Some m\<rparr>, err))"

definition SelectTxsForBlock :: "i64 \<Rightarrow> string \<Rightarrow> ('bs, 'ss) Blockchain \<Rightarrow> ('bs, 'ss) Blockchain \<times> Transaction list" where
  "SelectTxsForBlock limit producerAddr bc =
    (case bc_Mempool bc of
      None \<Rightarrow> (bc, [])
    | Some m \<Rightarrow> (let (m, txs) = PopForBlock m (bc_State bc) limit producerAddr in (bc\<lparr>bc_Mempool := Some m\<rparr>, txs)))"

definition AddValidatorTo :: "string \<Rightarrow> i64 \<Rightarrow> string \<Rightarrow> PrivateKey option \<Rightarrow> ('bs, 'ss) Blockchain \<Rightarrow> ('bs, 'ss) Blockchain \<times> failure" where
  \<comment> \<open>the method \<open>AddValidator\<close> of \<open>Blockchain\<close>\<close>
  "AddValidatorTo name stake pubKey priv bc =
    (let ((vs, stats), err) = AddValidator (bc_Validators bc) (bc_Stats bc) name stake pubKey priv
     in (bc\<lparr>bc_Validators := vs, bc_Stats := stats\<rparr>, err))"

definition SetStorage :: "'bs BlockStore option \<Rightarrow> 'ss SnapshotStore option \<Rightarrow> ('bs, 'ss) Blockchain \<Rightarrow> ('bs, 'ss) Blockchain" where
  "SetStorage blockStore snapshotStore bc =
    (let bc = bc\<lparr>bc_blockStore := blockStore\<rparr> in bc\<lparr>bc_snapshotStore := snapshotStore\<rparr>)"

section \<open>Missed slots and equivocation\<close>

definition ensureStats :: "string \<Rightarrow> ('bs, 'ss) Blockchain \<Rightarrow> ('bs, 'ss) Blockchain \<times> ValidatorStats" where
  "ensureStats name bc =
    (let st = (case bc_Stats bc of None \<Rightarrow> fmempty | Some st \<Rightarrow> st) in
     case fmlookup st name of
       Some s \<Rightarrow> (bc\<lparr>bc_Stats := Some st\<rparr>, s)
     | None \<Rightarrow> (bc\<lparr>bc_Stats := Some (fmupd name zero_stats st)\<rparr>, zero_stats))"

definition set_stats :: "string \<Rightarrow> ValidatorStats \<Rightarrow> ('bs, 'ss) Blockchain \<Rightarrow> ('bs, 'ss) Blockchain" where
  \<comment> \<open>a write through the pointer that \<open>ensureStats\<close> returned\<close>
  "set_stats name s bc = bc\<lparr>bc_Stats := map_option (fmupd name s) (bc_Stats bc)\<rparr>"

definition slash :: "string \<Rightarrow> ('bs, 'ss) Blockchain \<Rightarrow> ('bs, 'ss) Blockchain" where
  \<comment> \<open>\<open>consensus.SlashValidator(bc.Validators, name, consensus.SlashPenalty)\<close>\<close>
  "slash name bc = bc\<lparr>bc_Validators := SlashValidator (bc_Validators bc) name SlashPenalty\<rparr>"

definition slash_percent :: "string \<Rightarrow> ('bs, 'ss) Blockchain \<Rightarrow> ('bs, 'ss) Blockchain" where
  "slash_percent name bc = bc\<lparr>bc_Validators := SlashValidatorPercent (bc_Validators bc) name SlashPercent\<rparr>"

definition missed_step :: "golib \<Rightarrow> u64 \<Rightarrow> ('bs, 'ss) Blockchain \<Rightarrow> ('bs, 'ss) Blockchain" where
  \<comment> \<open>the body of the loop in \<open>processMissedSlots\<close>\<close>
  "missed_step G slot bc =
    (let (bc, leader) = leaderForSlot G slot bc in
     if leader = ''genesis'' then bc
     else let producedBy = get_or [] (bc_SlotProduced bc) slot in
       if producedBy \<noteq> leader
       then let (bc, stats) = ensureStats leader bc;
                stats = stats\<lparr>vs_MissedSlots := vs_MissedSlots stats + 1\<rparr>;
                bc = set_stats leader stats bc
            in if MaxMissedSlots < vs_MissedSlots stats
               then let bc = slash_percent leader bc;
                        stats = stats\<lparr>vs_MissedSlots := 0\<rparr>;
                        stats = stats\<lparr>vs_JailedUntilEpoch := slot div SlotsPerEpoch + JailEpochs\<rparr>
                    in set_stats leader stats bc
               else bc
       else bc)"

definition processMissedSlots :: "golib \<Rightarrow> u64 \<Rightarrow> ('bs, 'ss) Blockchain \<Rightarrow> ('bs, 'ss) Blockchain option" where
  "processMissedSlots G targetSlot bc =
    (if targetSlot \<le> bc_LastProcessedSlot bc then Some bc
     else do {
       bc \<leftarrow> for_incl (bc_LastProcessedSlot bc + 1) targetSlot (missed_step G) bc;
       Some (bc\<lparr>bc_LastProcessedSlot := targetSlot\<rparr>)
     })"

definition handleEquivocation :: "string \<Rightarrow> u64 \<Rightarrow> string \<Rightarrow> string \<Rightarrow> ('bs, 'ss) Blockchain \<Rightarrow> ('bs, 'ss) Blockchain" where
  "handleEquivocation validator slot h1 h2 bc =
    (let equivocation = \<lparr>ep_Slot = slot, ep_Validator = validator, ep_BlockA = h1, ep_BlockB = h2\<rparr>;
         bc = bc\<lparr>bc_Equivocations := bc_Equivocations bc @ [equivocation]\<rparr>;
         (bc, stats) = ensureStats validator bc;
         stats = stats\<lparr>vs_Slashed := True\<rparr>;
         bc = slash_percent validator bc;
         stats = stats\<lparr>vs_JailedUntilEpoch := slot div SlotsPerEpoch + JailEpochs\<rparr>
     in set_stats validator stats bc)"

definition registerSlotProducer :: "Block \<Rightarrow> ('bs, 'ss) Blockchain \<Rightarrow> ('bs, 'ss) Blockchain \<times> failure" where
  "registerSlotProducer block bc =
    (let slotMap = get_or fmempty (bc_SlotProducers bc) (b_Slot block);
         bc = bc\<lparr>bc_SlotProducers := fmupd (b_Slot block) slotMap (bc_SlotProducers bc)\<rparr>;
         record_it = bc\<lparr>bc_SlotProducers := fmupd (b_Slot block) (fmupd (b_Validator block) (b_Hash block) slotMap)
           (bc_SlotProducers bc)\<rparr>
     in case fmlookup slotMap (b_Validator block) of
          Some existing \<Rightarrow>
            (if existing \<noteq> b_Hash block
             then (handleEquivocation (b_Validator block) (b_Slot block) existing (b_Hash block) bc, Some ErrEquivocation)
             else (record_it, None))
        | None \<Rightarrow> (record_it, None))"

section \<open>Accepting and producing blocks\<close>

definition verifyBlockOnAccept :: "golib \<Rightarrow> Block \<Rightarrow> Block \<Rightarrow> accounts \<Rightarrow> ('bs, 'ss) Blockchain \<Rightarrow> ('bs, 'ss) Blockchain \<times> failure" where
  "verifyBlockOnAccept G prev block state bc =
    (if b_PrevHash block \<noteq> b_Hash prev then (bc, Some (ErrNew ''invalid prev hash for block''))
     else case snapshotForSlot G (b_Slot block) bc of
       (bc, None) \<Rightarrow> (bc, Some (ErrNew ''missing epoch snapshot for block''))
     | (bc, Some snap) \<Rightarrow>
       (case VerifyLeaderSnapshot G (b_Slot block) (b_Validator block) (es_Validators snap) of
         Some e \<Rightarrow> (bc, Some e)
       | None \<Rightarrow>
         (case VerifyTransactions G (b_Transactions block) of
           Some e \<Rightarrow> (bc, Some e)
         | None \<Rightarrow>
           (if TxRoot G (b_Transactions block) \<noteq> b_TxRoot block then (bc, Some (ErrNew ''invalid tx root for block''))
            else case ApplyTransactions state (b_Transactions block)
                (validatorRewardAddress G (bc_Validators bc) (b_Validator block)) of
              Inl e \<Rightarrow> (bc, Some e)
            | Inr nextState \<Rightarrow>
              (if StateRoot G nextState \<noteq> b_StateRoot block then (bc, Some (ErrNew ''invalid state root for block''))
               else case fmlookup (bc_Validators bc) (b_Validator block) of
                 None \<Rightarrow> (bc, Some (ErrNew ''unknown validator for block''))
               | Some v \<Rightarrow> (bc, VerifyBlockSignature G block (v_PubKey v)))))))"

definition draft_block :: "golib \<Rightarrow> Block \<Rightarrow> u64 \<Rightarrow> PoH \<Rightarrow> string \<Rightarrow> Transaction list \<Rightarrow> accounts \<Rightarrow> Block" where
  \<comment> \<open>the block literal of \<open>AddBlock\<close> and \<open>AddBlockExternal\<close>, with the roots computed just before it\<close>
  "draft_block G parent slot poh validator txs nextState =
    (let txRoot = TxRoot G txs; stateRoot = StateRoot G nextState; pohHash = PoHHashHex (p_Hash poh) in
     \<lparr>b_Index = b_Index parent + 1, b_PrevHash = b_Hash parent, b_Slot = slot, b_Tick = p_CurrentTick poh,
      b_Validator = validator, b_TxRoot = txRoot, b_StateRoot = stateRoot, b_PoHHash = pohHash,
      b_Signature = [], b_Hash = [], b_Transactions = txs\<rparr>)"

definition save_block :: "Block \<Rightarrow> ('bs, 'ss) Blockchain \<Rightarrow> ('bs, 'ss) Blockchain \<times> failure" where
  "save_block block bc =
    (case bc_blockStore bc of
      None \<Rightarrow> (bc, None)
    | Some st \<Rightarrow> (let (st, err) = SaveBlock st block in (bc\<lparr>bc_blockStore := Some st\<rparr>, err)))"

definition commit_block :: "golib \<Rightarrow> Block \<Rightarrow> string \<Rightarrow> ('bs, 'ss) Blockchain \<Rightarrow> (('bs, 'ss) Blockchain \<times> failure) option" where
  \<comment> \<open>the end of \<open>AddBlock\<close> and \<open>AddBlockExternal\<close>, from \<open>registerSlotProducer\<close> on\<close>
  "commit_block G block validator bc =
    (let (bc, eqErr) = registerSlotProducer block bc;
         bc = insertBlock block bc
     in do {
       (bc, adopted) \<leftarrow> updateCanonical G (b_Hash block) bc;
       let bc = bc\<lparr>bc_Validators := RewardValidator (bc_Validators bc) validator\<rparr>;
       bc \<leftarrow> processMissedSlots G (chainTipSlot bc) bc;
       Some (bc, eqErr)
     })"

definition seal_block :: "golib \<Rightarrow> nat \<Rightarrow> Block \<Rightarrow> accounts \<Rightarrow> Block \<Rightarrow> string \<Rightarrow> ('bs, 'ss) Blockchain
    \<Rightarrow> (('bs, 'ss) Blockchain \<times> string \<times> failure) option" where
  \<comment> \<open>from the look-up of the signing key on; the string is the new block's hash, empty on an early return\<close>
  "seal_block G rnd parent parentState block validator bc =
    (case fmlookup (bc_Validators bc) validator of
      None \<Rightarrow> Some (slash validator bc, [], Some (ErrNew ''missing validator signing key''))
    | Some v \<Rightarrow>
      (if v_PrivKey v = None
       then Some (slash validator bc, [], Some (ErrNew ''missing validator signing key''))
       else case SignBlock G rnd (v_PrivKey v) (Some block) of
         (_, Some e) \<Rightarrow> Some (slash validator bc, [], Some e)
       | (sealed, None) \<Rightarrow>
         (let block = the sealed in
          case verifyBlockOnAccept G parent block parentState bc of
            (bc, Some e) \<Rightarrow> Some (slash validator bc, [], Some e)
          | (bc, None) \<Rightarrow>
            (case save_block block bc of
              (bc, Some e) \<Rightarrow> Some (bc, [], Some e)
            | (bc, None) \<Rightarrow> do {
                (bc, eqErr) \<leftarrow> commit_block G block validator bc;
                Some (bc, b_Hash block, eqErr)
              }))))"

definition next_slot :: "golib \<Rightarrow> PoH \<Rightarrow> ('bs, 'ss) Blockchain \<Rightarrow> ('bs, 'ss) Blockchain \<times> PoH \<times> u64 \<times> string \<times> string" where
  \<comment> \<open>tick the clock to the next slot and find its leader and the leader's reward address\<close>
  "next_slot G poh bc =
    (let (poh, _) = Tick G poh TicksPerSlot;
         bc = bc\<lparr>bc_poh := Some poh\<rparr>;
         slot = Slot poh;
         bc = ensureSnapshotForSlot G slot bc;
         (bc, validator) = leaderForSlot G slot bc;
         producerAddr = validatorRewardAddress G (bc_Validators bc) validator
     in (bc, poh, slot, validator, producerAddr))"

definition AddBlock :: "golib \<Rightarrow> nat \<Rightarrow> Transaction list \<Rightarrow> ('bs, 'ss) Blockchain \<Rightarrow> (('bs, 'ss) Blockchain \<times> failure) option" where
  "AddBlock G rnd txs bc =
    (if bc_Validators bc = fmempty then Some (bc, Some (ErrNew ''no validators available''))
     else case bc_poh bc of
       None \<Rightarrow> Some (bc, Some (ErrNew ''poh not initialized''))
     | Some poh \<Rightarrow>
       (let prev = get_or zero_block (bc_Blocks bc) (bc_CanonicalTip bc);
            (bc, poh, slot, validator, producerAddr) = next_slot G poh bc;
            (bc, txs) = (if length txs = 0 \<and> bc_Mempool bc \<noteq> None
              then SelectTxsForBlock (cfg_MaxBlockTxs (bc_Config bc)) producerAddr bc else (bc, txs))
        in case VerifyTransactions G txs of
             Some e \<Rightarrow> Some (slash validator bc, Some e)
           | None \<Rightarrow>
             (case ApplyTransactions (bc_State bc) txs producerAddr of
               Inl e \<Rightarrow> Some (slash validator bc, Some e)
             | Inr nextState \<Rightarrow> do {
                 (bc, hash, err) \<leftarrow> seal_block G rnd prev (bc_State bc)
                   (draft_block G prev slot poh validator txs nextState) validator bc;
                 Some (bc, err)
               })))"

definition AddBlockExternal :: "golib \<Rightarrow> nat \<Rightarrow> string \<Rightarrow> Transaction list \<Rightarrow> ('bs, 'ss) Blockchain
    \<Rightarrow> (('bs, 'ss) Blockchain \<times> string \<times> failure) option" where
  "AddBlockExternal G rnd prevHash txs bc =
    (if bc_Validators bc = fmempty then Some (bc, [], Some (ErrNew ''no validators available''))
     else case bc_poh bc of
       None \<Rightarrow> Some (bc, [], Some (ErrNew ''poh not initialized''))
     | Some poh \<Rightarrow>
       (case fmlookup (bc_Blocks bc) prevHash of
         None \<Rightarrow> Some (bc, [], Some (ErrNew ''unknown parent hash''))
       | Some parent \<Rightarrow>
         (let (bc, poh, slot, validator, producerAddr) = next_slot G poh bc in
          case VerifyTransactions G txs of
            Some e \<Rightarrow> Some (slash validator bc, [], Some e)
          | None \<Rightarrow> do {
              r \<leftarrow> stateAtTip G prevHash bc;
              case r of
                Inl e \<Rightarrow> Some (bc, [], Some e)
              | Inr parentState \<Rightarrow>
                (case ApplyTransactions parentState txs producerAddr of
                  Inl e \<Rightarrow> Some (slash validator bc, [], Some e)
                | Inr nextState \<Rightarrow> seal_block G rnd parent parentState
                    (draft_block G parent slot poh validator txs nextState) validator bc)
            })))"

section \<open>A block on its way into the chain\<close>

definition acceptable :: "golib \<Rightarrow> ('bs, 'ss) Blockchain \<Rightarrow> Block \<Rightarrow> Block \<Rightarrow> accounts \<Rightarrow> bool" where
  "acceptable G bc prev block state \<longleftrightarrow>
     b_PrevHash block = b_Hash prev \<and> leader_view G bc (b_Slot block) = b_Validator block \<and>
     (\<forall>tx\<in>set (b_Transactions block). VerifyTransactionSignature G tx = None) \<and>
     TxRoot G (b_Transactions block) = b_TxRoot block \<and>
     (\<exists>next. ApplyTransactions state (b_Transactions block)
         (validatorRewardAddress G (bc_Validators bc) (b_Validator block)) = Inr next \<and>
       StateRoot G next = b_StateRoot block) \<and>
     (\<exists>v. fmlookup (bc_Validators bc) (b_Validator block) = Some v \<and> VerifyBlockSignature G block (v_PubKey v) = None)"

lemma verifyBlockOnAccept_run:
  "\<exists>bc' err. verifyBlockOnAccept G prev block state bc = (bc', err) \<and> only_snapshots bc bc' \<and>
    (err = None \<longleftrightarrow> acceptable G bc prev block state)"
proof (cases "b_PrevHash block = b_Hash prev")
  case False
  then show ?thesis by (simp add: verifyBlockOnAccept_def acceptable_def)
next
  case True
  let ?bc = "ensureSnapshot G (epochForSlot (b_Slot block) bc) bc"
  note only = ensureSnapshot_only(1) [of bc G "epochForSlot (b_Slot block) bc"]
  note frame = only_snapshots_frame [OF only]
  have "fst (verifyBlockOnAccept G prev block state bc) = ?bc"
    by (simp add: verifyBlockOnAccept_def snapshotForSlot_view True split: option.split sum.split)
  then obtain err where run: "verifyBlockOnAccept G prev block state bc = (?bc, err)"
    by (metis prod.collapse)
  then have "err = None \<longleftrightarrow> acceptable G bc prev block state"
    by (auto simp: verifyBlockOnAccept_def snapshotForSlot_view True acceptable_def frame leader_view_def
        VerifyLeaderSnapshot_None VerifyTransactions_None split: option.splits sum.splits if_splits)
  with run only show ?thesis by blast
qed

lemma leader_view_poh [simp]: "leader_view G (bc\<lparr>bc_poh := x\<rparr>) s = leader_view G bc s"
    "epochForSlot s (bc\<lparr>bc_poh := x\<rparr>) = epochForSlot s bc"
  by (simp_all add: leader_view_def snap_view_def epochForSlot_def split: option.split)

lemma ensureSnapshot_again: "fmlookup (bc_snapshots bc) e = Some s \<Longrightarrow> ensureSnapshot G e bc = bc"
  by (simp add: ensureSnapshot_def)

lemma next_slot_run: "next_slot G p bc =
    (let q = fst (Tick G p TicksPerSlot); slot = Slot q; leader = leader_view G bc slot
     in (ensureSnapshot G (epochForSlot slot bc) (bc\<lparr>bc_poh := Some q\<rparr>), q, slot, leader,
       validatorRewardAddress G (bc_Validators bc) leader))"
proof -
  define q where "q = fst (Tick G p TicksPerSlot)"
  define bc1 where "bc1 = ensureSnapshot G (epochForSlot (Slot q) bc) (bc\<lparr>bc_poh := Some q\<rparr>)"
  have only: "only_snapshots (bc\<lparr>bc_poh := Some q\<rparr>) bc1" unfolding bc1_def by (rule ensureSnapshot_only)
  have again: "ensureSnapshot G (epochForSlot (Slot q) bc) bc1 = bc1"
    unfolding bc1_def by (rule ensureSnapshot_again [OF ensureSnapshot_only(2)])
  obtain out where tick: "Tick G p TicksPerSlot = (q, out)" by (metis prod.collapse q_def)
  have "next_slot G p bc = (case leaderForSlot G (Slot q) bc1 of (b, validator) \<Rightarrow>
      (b, q, Slot q, validator, validatorRewardAddress G (bc_Validators b) validator))"
    by (simp add: next_slot_def ensureSnapshotForSlot_def Let_def bc1_def tick)
  also have "\<dots> = (bc1, q, Slot q, leader_view G bc (Slot q), validatorRewardAddress G (bc_Validators bc) (leader_view G bc (Slot q)))"
    using only_snapshots_views(2,4) [OF only] only_snapshots_frame(5) [OF only]
    by (simp add: leaderForSlot_view again)
  finally show ?thesis by (simp add: q_def bc1_def Let_def)
qed

text \<open>What a sealing step leaves alone, and what it returns.\<close>

lemma registerSlotProducer_frame:
  assumes "registerSlotProducer b bc = (bc', err)"
  shows "bc_Chain bc' = bc_Chain bc" "bc_Blocks bc' = bc_Blocks bc" "bc_CanonicalTip bc' = bc_CanonicalTip bc"
    "bc_State bc' = bc_State bc" "bc_Config bc' = bc_Config bc" "bc_snapshots bc' = bc_snapshots bc"
    "bc_FinalizedSlot bc' = bc_FinalizedSlot bc" "bc_poh bc' = bc_poh bc" "bc_LastProcessedSlot bc' = bc_LastProcessedSlot bc"
    "bc_Genesis bc' = bc_Genesis bc" "bc_Mempool bc' = bc_Mempool bc" "bc_Parents bc' = bc_Parents bc"
    "bc_blockStore bc' = bc_blockStore bc" "registry_from (bc_Validators bc) (bc_Validators bc')"
  using assms by (auto simp: registerSlotProducer_def handleEquivocation_def ensureStats_def set_stats_def
      slash_percent_def registry_froms Let_def split: option.splits if_splits prod.splits)

lemma canonical_ok_cong:
  "bc_Chain bc' = bc_Chain bc \<Longrightarrow> bc_Blocks bc' = bc_Blocks bc \<Longrightarrow> bc_CanonicalTip bc' = bc_CanonicalTip bc \<Longrightarrow>
    canonical_ok bc' = canonical_ok bc"
  by (simp add: canonical_ok_def)

text \<open>Counting missed slots keeps chain, blocks and ledger.\<close>

definition books_only :: "('bs, 'ss) Blockchain \<Rightarrow> ('bs, 'ss) Blockchain \<Rightarrow> bool" where
  "books_only bc bc' \<longleftrightarrow> bc_Chain bc' = bc_Chain bc \<and> bc_Blocks bc' = bc_Blocks bc \<and> bc_Parents bc' = bc_Parents bc \<and>
     bc_CanonicalTip bc' = bc_CanonicalTip bc \<and> bc_State bc' = bc_State bc \<and> bc_Genesis bc' = bc_Genesis bc \<and>
     bc_FinalizedSlot bc' = bc_FinalizedSlot bc \<and> bc_poh bc' = bc_poh bc \<and> bc_Config bc' = bc_Config bc \<and>
     bc_SlotProduced bc' = bc_SlotProduced bc \<and> bc_Mempool bc' = bc_Mempool bc \<and>
     bc_SlotProducers bc' = bc_SlotProducers bc \<and> bc_Equivocations bc' = bc_Equivocations bc \<and>
     bc_blockStore bc' = bc_blockStore bc \<and> registry_from (bc_Validators bc) (bc_Validators bc') \<and>
     (\<forall>e s. fmlookup (bc_snapshots bc) e = Some s \<longrightarrow> fmlookup (bc_snapshots bc') e = Some s)"

lemma books_only_refl [simp]: "books_only bc bc"
  by (simp add: books_only_def)

lemma books_only_trans: "books_only a b \<Longrightarrow> books_only b c \<Longrightarrow> books_only a c"
  unfolding books_only_def by (metis registry_from_trans)

lemma books_only_snapshots: "only_snapshots bc bc' \<Longrightarrow> books_only bc bc'"
  by (simp add: books_only_def only_snapshots_frame only_snapshots_views(7))

lemma missed_step_books: "books_only bc (missed_step G slot bc) \<and>
    bc_LastProcessedSlot (missed_step G slot bc) = bc_LastProcessedSlot bc"
proof -
  let ?bc = "ensureSnapshot G (epochForSlot slot bc) bc"
  note only = ensureSnapshot_only(1) [of bc G "epochForSlot slot bc"]
  have "books_only ?bc (missed_step G slot bc) \<and> bc_LastProcessedSlot (missed_step G slot bc) = bc_LastProcessedSlot ?bc"
    by (auto simp: missed_step_def leaderForSlot_view ensureStats_def set_stats_def slash_percent_def books_only_def registry_froms Let_def
        split: option.splits)
  with books_only_snapshots [OF only] books_only_trans only_snapshots_frame(13) [OF only] show ?thesis by metis
qed

lemma missed_fold_books: "books_only bc (fold (missed_step G) slots bc) \<and>
    bc_LastProcessedSlot (fold (missed_step G) slots bc) = bc_LastProcessedSlot bc"
proof (induction slots arbitrary: bc)
  case Nil
  show ?case by simp
next
  case (Cons s slots)
  with missed_step_books [of bc G s] show ?case by (auto intro: books_only_trans)
qed

lemma processMissedSlots_run:
  assumes "target \<noteq> - 1"
  shows "processMissedSlots G target bc = Some (if target \<le> bc_LastProcessedSlot bc then bc
    else (fold (missed_step G) (slots_between (bc_LastProcessedSlot bc + 1) target) bc)\<lparr>bc_LastProcessedSlot := target\<rparr>)"
  using assms by (simp add: processMissedSlots_def for_incl_fold)

lemma processMissedSlots_books:
  assumes "processMissedSlots G target bc = Some bc'"
  shows "books_only bc bc'"
proof (cases "target \<le> bc_LastProcessedSlot bc")
  case True
  with assms show ?thesis by (simp add: processMissedSlots_def)
next
  case False
  with assms obtain b where "for_incl (bc_LastProcessedSlot bc + 1) target (missed_step G) bc = Some b"
    by (auto simp: processMissedSlots_def bind_eq_Some_conv)
  then have "target \<noteq> - 1" by (rule for_incl_returns)
  with assms False have "bc' = (fold (missed_step G) (slots_between (bc_LastProcessedSlot bc + 1) target) bc)\<lparr>bc_LastProcessedSlot := target\<rparr>"
    by (simp add: processMissedSlots_run)
  with missed_fold_books [of bc G "slots_between (bc_LastProcessedSlot bc + 1) target"] show ?thesis
    by (simp add: books_only_def)
qed

section \<open>Sealing a block\<close>

text \<open>
  \<open>untouched bc bc'\<close>: the chain, its blocks, the ledger and the register of producers are the same, and
  a well-formed pool stays well formed.
\<close>

definition pool_ok :: "golib \<Rightarrow> ('bs, 'ss) Blockchain \<Rightarrow> bool" where
  "pool_ok G bc \<longleftrightarrow> (case bc_Mempool bc of None \<Rightarrow> True | Some m \<Rightarrow> mempool_ok G m)"

definition untouched :: "('bs, 'ss) Blockchain \<Rightarrow> ('bs, 'ss) Blockchain \<Rightarrow> bool" where
  "untouched bc bc' \<longleftrightarrow> bc_Chain bc' = bc_Chain bc \<and> bc_Blocks bc' = bc_Blocks bc \<and> bc_Parents bc' = bc_Parents bc \<and>
     (\<forall>G. pool_ok G bc \<longrightarrow> pool_ok G bc') \<and>
     bc_CanonicalTip bc' = bc_CanonicalTip bc \<and> bc_State bc' = bc_State bc \<and> bc_Genesis bc' = bc_Genesis bc \<and>
     bc_FinalizedSlot bc' = bc_FinalizedSlot bc \<and> bc_SlotProducers bc' = bc_SlotProducers bc \<and>
     bc_Equivocations bc' = bc_Equivocations bc \<and> bc_Config bc' = bc_Config bc \<and>
     bc_LastProcessedSlot bc' = bc_LastProcessedSlot bc \<and>
     (bc_blockStore bc = None \<longrightarrow> bc_blockStore bc' = None) \<and> registry_from (bc_Validators bc) (bc_Validators bc') \<and>
     (\<forall>e s. fmlookup (bc_snapshots bc) e = Some s \<longrightarrow> fmlookup (bc_snapshots bc') e = Some s)"

lemma untouched_refl [simp]: "untouched bc bc"
  by (simp add: untouched_def)

lemma untouched_trans: "untouched a b \<Longrightarrow> untouched b c \<Longrightarrow> untouched a c"
  unfolding untouched_def by (metis registry_from_trans)

lemma untouched_only: "only_snapshots bc bc' \<Longrightarrow> untouched bc bc'"
  by (simp add: untouched_def pool_ok_def only_snapshots_frame only_snapshots_views(7))

lemma untouched_slash: "untouched bc bc' \<Longrightarrow> untouched bc (slash v bc')"
  by (erule untouched_trans) (simp add: untouched_def pool_ok_def slash_def registry_froms)

lemma slash_poh [simp]: "bc_poh (slash v bc) = bc_poh bc"
  by (simp add: slash_def)

lemma untouched_poh [simp]: "untouched bc (bc\<lparr>bc_poh := x\<rparr>)"
  by (simp add: untouched_def pool_ok_def)

lemma untouched_save: "save_block b bc = (bc', err) \<Longrightarrow> untouched bc bc'"
  by (auto simp: save_block_def untouched_def pool_ok_def Let_def split: option.splits prod.splits)

lemma untouched_select: "SelectTxsForBlock limit addr bc = (bc', txs) \<Longrightarrow> untouched bc bc'"
  by (auto simp: SelectTxsForBlock_def untouched_def pool_ok_def Let_def dest: PopForBlock_ok split: option.splits prod.splits)

lemma canonical_ok_untouched: "untouched bc bc' \<Longrightarrow> canonical_ok bc' = canonical_ok bc"
  by (rule canonical_ok_cong) (simp_all add: untouched_def)

text \<open>
  The outcome of sealing: an error that leaves everything but stores and stakes alone, or a signed block
  that passed \<open>verifyBlockOnAccept\<close> and was committed.
\<close>

lemma seal_block_unsigned:
  assumes "\<And>v k sig. fmlookup (bc_Validators bc) validator = Some v \<Longrightarrow> v_PrivKey v = Some k \<Longrightarrow>
    SignASN1 G rnd k (str_bytes (hash_of_block G block)) \<noteq> Inr sig"
  shows "\<exists>e. seal_block G rnd parent state block validator bc = Some (slash validator bc, [], Some e)"
proof (cases "fmlookup (bc_Validators bc) validator")
  case (Some v)
  show ?thesis
  proof (cases "v_PrivKey v")
    case key: (Some k)
    with assms [OF Some key] obtain e where "SignASN1 G rnd k (str_bytes (hash_of_block G block)) = Inl e"
      by (cases "SignASN1 G rnd k (str_bytes (hash_of_block G block))") auto
    with Some key show ?thesis by (simp add: seal_block_def SignBlock_def Let_def)
  qed (simp add: Some seal_block_def)
qed (simp add: seal_block_def)

lemma seal_block_signed:
  assumes "fmlookup (bc_Validators bc) validator = Some v" "v_PrivKey v = Some k"
    and "SignASN1 G rnd k (str_bytes (hash_of_block G block)) = Inr sig"
    and "b = block\<lparr>b_Signature := sig, b_Hash := hash_of_block G block\<rparr>"
  shows "seal_block G rnd parent state block validator bc =
    (case verifyBlockOnAccept G parent b state bc of
      (bc, Some e) \<Rightarrow> Some (slash validator bc, [], Some e)
    | (bc, None) \<Rightarrow> (case save_block b bc of
        (bc, Some e) \<Rightarrow> Some (bc, [], Some e)
      | (bc, None) \<Rightarrow> do { (bc, eqErr) \<leftarrow> commit_block G b validator bc; Some (bc, b_Hash b, eqErr) }))"
proof -
  have "SignBlock G rnd (Some k) (Some block) = (Some b, None)" using assms(3,4) by (simp add: SignBlock_def Let_def)
  with assms(1,2) show ?thesis by (simp add: seal_block_def)
qed

lemma save_block_frame:
  assumes "save_block b bc = (bc', err)"
  shows "bc_poh bc' = bc_poh bc" "bc_Mempool bc' = bc_Mempool bc" "bc_Validators bc' = bc_Validators bc"
  using assms by (auto simp: save_block_def Let_def split: option.splits prod.splits)

lemma slash_frame [simp]: "bc_poh (slash v bc) = bc_poh bc" "bc_Mempool (slash v bc) = bc_Mempool bc"
  by (simp_all add: slash_def)

lemma seal_block_cases:
  assumes "seal_block G rnd parent state block validator bc = r"
  obtains (rejected) bc' e where "r = Some (bc', [], Some e)" "untouched bc bc'" "bc_poh bc' = bc_poh bc" "bc_Mempool bc' = bc_Mempool bc"
  | (committed) v k sig bc1 block' where "fmlookup (bc_Validators bc) validator = Some v" "v_PrivKey v = Some k"
      "SignASN1 G rnd k (str_bytes (hash_of_block G block)) = Inr sig"
      "block' = block\<lparr>b_Signature := sig, b_Hash := hash_of_block G block\<rparr>"
      "acceptable G bc parent block' state" "untouched bc bc1" "bc_poh bc1 = bc_poh bc" "bc_Mempool bc1 = bc_Mempool bc"
      "bc_Validators bc1 = bc_Validators bc"
      "r = (do { (bc', eqErr) \<leftarrow> commit_block G block' validator bc1; Some (bc', b_Hash block', eqErr) })"
proof (cases "\<exists>v k sig. fmlookup (bc_Validators bc) validator = Some v \<and> v_PrivKey v = Some k \<and>
    SignASN1 G rnd k (str_bytes (hash_of_block G block)) = Inr sig")
  case False
  with seal_block_unsigned [of bc validator G rnd block parent state] assms obtain e where "r = Some (slash validator bc, [], Some e)"
    by blast
  then show thesis using rejected [OF _ untouched_slash [OF untouched_refl]] by simp
next
  case True
  then obtain v k sig where signed: "fmlookup (bc_Validators bc) validator = Some v" "v_PrivKey v = Some k"
    "SignASN1 G rnd k (str_bytes (hash_of_block G block)) = Inr sig" by blast
  define b where "b = block\<lparr>b_Signature := sig, b_Hash := hash_of_block G block\<rparr>"
  note run = seal_block_signed [OF signed b_def, of parent state, unfolded assms]
  obtain bc1 err where v: "verifyBlockOnAccept G parent b state bc = (bc1, err)" and o: "only_snapshots bc bc1"
    and acc: "err = None \<longleftrightarrow> acceptable G bc parent b state"
    using verifyBlockOnAccept_run by blast
  obtain bc2 serr where save: "save_block b bc1 = (bc2, serr)" by (metis prod.collapse)
  note f1 = only_snapshots_frame [OF o] and f2 = save_block_frame [OF save]
  have u: "untouched bc bc2" using untouched_trans [OF untouched_only [OF o] untouched_save [OF save]] .
  consider e where "err = Some e" | e where "err = None" "serr = Some e" | "err = None" "serr = None" by fastforce
  then show thesis
  proof cases
    case (1 e)
    then have "r = Some (slash validator bc1, [], Some e)" using run v by simp
    then show thesis using rejected [OF _ untouched_slash [OF untouched_only [OF o]]] f1 by simp
  next
    case (2 e)
    then have "r = Some (bc2, [], Some e)" using run v save by simp
    then show thesis using u f1 f2 rejected [of bc2 e] by simp
  next
    case 3
    then have "r = (do { (bc', eqErr) \<leftarrow> commit_block G b validator bc2; Some (bc', b_Hash b, eqErr) })" using run v save by simp
    then show thesis using 3 acc u f1 f2 by (intro committed [OF signed b_def]) simp_all
  qed
qed

lemma register_canonical_ok:
  "registerSlotProducer b bc = (bc', err) \<Longrightarrow> canonical_ok bc' = canonical_ok bc"
  by (rule canonical_ok_cong) (simp_all add: registerSlotProducer_frame)

text \<open>
  \<open>keeps_final bc bc'\<close>: finality only grows, and the canonical blocks that were final stay where they are.
\<close>

definition keeps_final :: "('bs, 'ss) Blockchain \<Rightarrow> ('bs, 'ss) Blockchain \<Rightarrow> bool" where
  "keeps_final bc bc' \<longleftrightarrow> bc_FinalizedSlot bc \<le> bc_FinalizedSlot bc' \<and>
     (0 < bc_FinalizedSlot bc \<longrightarrow> sorted (map b_Slot (bc_Chain bc)) \<longrightarrow>
       (\<forall>i < length (bc_Chain bc). b_Slot (bc_Chain bc ! i) \<le> bc_FinalizedSlot bc \<longrightarrow>
         i < length (bc_Chain bc') \<and> bc_Chain bc' ! i = bc_Chain bc ! i))"

lemma keeps_final_same: "bc_Chain bc' = bc_Chain bc \<Longrightarrow> bc_FinalizedSlot bc' = bc_FinalizedSlot bc \<Longrightarrow> keeps_final bc bc'"
  by (simp add: keeps_final_def)

lemma keeps_final_trans:
  assumes "keeps_final a b" "keeps_final b c" "sorted (map b_Slot (bc_Chain b))"
  shows "keeps_final a c"
proof -
  have "i < length (bc_Chain c) \<and> bc_Chain c ! i = bc_Chain a ! i"
    if "0 < bc_FinalizedSlot a" "sorted (map b_Slot (bc_Chain a))" "i < length (bc_Chain a)" "b_Slot (bc_Chain a ! i) \<le> bc_FinalizedSlot a" for i
  proof -
    from assms(1) that have i: "i < length (bc_Chain b)" "bc_Chain b ! i = bc_Chain a ! i" "bc_FinalizedSlot a \<le> bc_FinalizedSlot b"
      by (simp_all add: keeps_final_def)
    with that(1,4) have "0 < bc_FinalizedSlot b" "b_Slot (bc_Chain b ! i) \<le> bc_FinalizedSlot b" by auto
    with assms(2,3) i(1,2) show ?thesis by (simp add: keeps_final_def)
  qed
  with assms(1,2) show ?thesis by (auto simp: keeps_final_def)
qed

lemma keeps_final_adopt:
  assumes "canonical_ok bc" "rooted (bc_Blocks bc) tip new" "adoptable bc new" "minor bc bc1"
  shows "keeps_final bc (adopt G tip new bc1)"
proof -
  from adoptable_keeps [OF assms(1-3)] obtain n where n: "n \<le> length new" "take n new = take n (bc_Chain bc)"
    "\<And>i. 0 < bc_FinalizedSlot bc \<Longrightarrow> sorted (map b_Slot (bc_Chain bc)) \<Longrightarrow> i < length (bc_Chain bc) \<Longrightarrow>
      b_Slot (bc_Chain bc ! i) \<le> bc_FinalizedSlot bc \<Longrightarrow> i < n" by metis
  have "i < length new \<and> new ! i = bc_Chain bc ! i" if "i < n" for i
    using that n(1) arg_cong [OF n(2), of "\<lambda>xs. xs ! i"] by simp
  with n(3) show ?thesis
    using FinalizedSlot_adopt [of bc1 G tip new] by (auto simp: keeps_final_def adopt_frame minor_frame [OF assms(4)])
qed

text \<open>
  \<open>setup_kept bc bc'\<close>: the configuration, the genesis balances and the existing epoch snapshots stay, so does the
  absence of a block store, and no validator appears or changes its keys.
\<close>

definition setup_kept :: "('bs, 'ss) Blockchain \<Rightarrow> ('bs, 'ss) Blockchain \<Rightarrow> bool" where
  "setup_kept bc bc' \<longleftrightarrow> bc_Config bc' = bc_Config bc \<and> bc_Genesis bc' = bc_Genesis bc \<and> (bc_blockStore bc = None \<longrightarrow> bc_blockStore bc' = None) \<and>
     registry_from (bc_Validators bc) (bc_Validators bc') \<and>
     (\<forall>e s. fmlookup (bc_snapshots bc) e = Some s \<longrightarrow> fmlookup (bc_snapshots bc') e = Some s)"

lemma setup_kept_trans: "setup_kept a b \<Longrightarrow> setup_kept b c \<Longrightarrow> setup_kept a c"
  unfolding setup_kept_def by (metis registry_from_trans)

lemma setup_kept_books: "books_only bc bc' \<Longrightarrow> setup_kept bc bc'"
  by (simp add: setup_kept_def books_only_def)

lemma setup_kept_untouched: "untouched bc bc' \<Longrightarrow> setup_kept bc bc'"
  by (simp add: setup_kept_def untouched_def)

lemma commit_block_steps:
  assumes "canonical_ok bc" "fmlookup (bc_Blocks bc) (b_PrevHash b) \<noteq> None" "fmlookup (bc_Blocks bc) (b_Hash b) = None"
    and "b_Hash b \<noteq> []" "b_Hash b \<noteq> ''GENESIS''" "b_Slot b \<noteq> - 1" "chainTipSlot bc \<noteq> - 1"
  obtains bc1 err new bc3 bc4 bc' where "registerSlotProducer b bc = (bc1, err)" "canonical_ok (insertBlock b bc1)"
    "rooted (bc_Blocks (insertBlock b bc1)) (b_Hash b) new" "minor (insertBlock b bc1) bc3"
    "bc4 = (if adoptable (insertBlock b bc1) new then adopt G (b_Hash b) new bc3 else bc3)"
    "chainTipSlot bc4 \<noteq> - 1" "books_only bc4 bc'" "commit_block G b validator bc = Some (bc', err)"
proof -
  obtain bc1 err where reg: "registerSlotProducer b bc = (bc1, err)" by (metis prod.collapse)
  note f1 = registerSlotProducer_frame [OF reg]
  let ?bc2 = "insertBlock b bc1"
  have ok2: "canonical_ok ?bc2"
    by (rule canonical_ok_insert) (use assms f1 register_canonical_ok [OF reg] in auto)
  have f2: "fmlookup (bc_Blocks ?bc2) (b_Hash b) = Some b" "chainTipSlot ?bc2 = chainTipSlot bc"
    by (simp_all add: insertBlock_def f1 chainTipSlot_def Let_def)
  obtain new bc3 where new: "rooted (bc_Blocks ?bc2) (b_Hash b) new" and m: "minor ?bc2 bc3" and
    run: "updateCanonical G (b_Hash b) ?bc2 =
      Some (if adoptable ?bc2 new then (adopt G (b_Hash b) new bc3, True) else (bc3, False))"
    using updateCanonical_cases [OF ok2 f2(1)] by blast
  define bc4 where "bc4 = (if adoptable ?bc2 new then adopt G (b_Hash b) new bc3 else bc3)"
  have run': "\<exists>a. updateCanonical G (b_Hash b) ?bc2 = Some (bc4, a)" using run by (auto simp: bc4_def)
  have last: "last new = b" using rooted_last [OF new] f2(1) by simp
  have tip4: "chainTipSlot bc4 \<noteq> - 1"
    using assms(6,7) f2 last rooted_nonempty [OF new]
    by (auto simp: bc4_def chainTipSlot_def adopt_frame minor_frame [OF m] last_conv_nth)
  let ?bc5 = "bc4\<lparr>bc_Validators := RewardValidator (bc_Validators bc4) validator\<rparr>"
  have tip5: "chainTipSlot ?bc5 = chainTipSlot bc4" by (simp add: chainTipSlot_def)
  from tip4 obtain bc6 where p: "processMissedSlots G (chainTipSlot ?bc5) ?bc5 = Some bc6"
    by (simp add: tip5 processMissedSlots_run)
  have "books_only bc4 ?bc5" by (simp add: books_only_def registry_froms)
  from books_only_trans [OF this processMissedSlots_books [OF p]] have b6: "books_only bc4 bc6" .
  have "commit_block G b validator bc = Some (bc6, err)"
    using reg run' p by (auto simp: commit_block_def Let_def)
  with that [OF reg ok2 new m bc4_def tip4 b6] show thesis .
qed

lemma commit_block_effect:
  assumes "canonical_ok bc" "fmlookup (bc_Blocks bc) (b_PrevHash b) \<noteq> None" "fmlookup (bc_Blocks bc) (b_Hash b) = None"
    and "b_Hash b \<noteq> []" "b_Hash b \<noteq> ''GENESIS''" "b_Slot b \<noteq> - 1" "chainTipSlot bc \<noteq> - 1"
  shows "\<exists>bc' err. commit_block G b validator bc = Some (bc', err) \<and> canonical_ok bc' \<and>
    bc_Blocks bc' = fmupd (b_Hash b) b (bc_Blocks bc) \<and> bc_Parents bc' = fmupd (b_Hash b) (b_PrevHash b) (bc_Parents bc) \<and>
    (bc_CanonicalTip bc' = b_Hash b \<or> bc_CanonicalTip bc' = bc_CanonicalTip bc) \<and> bc_Mempool bc' = bc_Mempool bc \<and>
    bc_poh bc' = bc_poh bc \<and> chainTipSlot bc' \<noteq> - 1 \<and> keeps_final bc bc' \<and> setup_kept bc bc' \<and>
    (fmlookup (bc_SlotProducers bc) (b_Slot b) = None \<longrightarrow> err = None \<and> bc_Equivocations bc' = bc_Equivocations bc \<and>
      fmdom (bc_SlotProducers bc') = finsert (b_Slot b) (fmdom (bc_SlotProducers bc)))"
proof -
  obtain bc1 err new bc3 bc4 bc6 where reg: "registerSlotProducer b bc = (bc1, err)"
    and ok2: "canonical_ok (insertBlock b bc1)" and new: "rooted (bc_Blocks (insertBlock b bc1)) (b_Hash b) new"
    and m: "minor (insertBlock b bc1) bc3"
    and bc4_def: "bc4 = (if adoptable (insertBlock b bc1) new then adopt G (b_Hash b) new bc3 else bc3)"
    and tip4: "chainTipSlot bc4 \<noteq> - 1" and b6: "books_only bc4 bc6" and run: "commit_block G b validator bc = Some (bc6, err)"
    by (rule commit_block_steps [OF assms, of G validator])
  let ?bc2 = "insertBlock b bc1"
  note f1 = registerSlotProducer_frame [OF reg]
  have new_slot: "err = None \<and> bc_Equivocations bc1 = bc_Equivocations bc \<and>
      fmdom (bc_SlotProducers bc1) = finsert (b_Slot b) (fmdom (bc_SlotProducers bc))"
    if "fmlookup (bc_SlotProducers bc) (b_Slot b) = None"
    using reg that by (auto simp: registerSlotProducer_def get_or_def Let_def)
  have ok4: "canonical_ok bc4"
    using canonical_ok_adopt [OF ok2 m new assms(4)] canonical_ok_minor [OF ok2 m] by (simp add: bc4_def)
  have "keeps_final ?bc2 bc4"
    using keeps_final_adopt [OF ok2 new _ m] by (auto simp: bc4_def minor_frame [OF m] intro: keeps_final_same)
  then have keep: "keeps_final bc bc4" by (simp add: keeps_final_def insertBlock_def f1 Let_def)
  have f4: "bc_Blocks bc4 = fmupd (b_Hash b) b (bc_Blocks bc)" "bc_poh bc4 = bc_poh bc"
    "bc_Parents bc4 = fmupd (b_Hash b) (b_PrevHash b) (bc_Parents bc)" "bc_Mempool bc4 = bc_Mempool bc"
    "bc_CanonicalTip bc4 = b_Hash b \<or> bc_CanonicalTip bc4 = bc_CanonicalTip bc"
    by (simp_all add: bc4_def adopt_frame minor_frame [OF m] insertBlock_def f1 Let_def)
  have "setup_kept bc bc4"
    using minor_views(5) [OF m] by (simp add: setup_kept_def bc4_def adopt_frame minor_frame [OF m] insertBlock_def f1 Let_def)
  from setup_kept_trans [OF this setup_kept_books [OF b6]] have "setup_kept bc bc6" .
  moreover have "canonical_ok bc6" using ok4 b6 by (simp add: canonical_ok_def books_only_def)
  moreover have "chainTipSlot bc6 \<noteq> - 1" using tip4 b6 unfolding chainTipSlot_def books_only_def by auto
  moreover have "bc_Equivocations bc6 = bc_Equivocations bc1" "bc_SlotProducers bc6 = bc_SlotProducers bc1"
    using b6 by (simp_all add: books_only_def bc4_def adopt_frame minor_frame [OF m] insertBlock_def Let_def)
  moreover have "keeps_final bc bc6" using keep b6 unfolding keeps_final_def books_only_def by simp
  ultimately show ?thesis using run b6 f4 new_slot
    by (intro exI [of _ bc6] exI [of _ err]) (auto simp: books_only_def)
qed

text \<open>A block on top of the tip in a free slot extends the chain exactly when the chain accepts its weight.\<close>

lemma adoptable_cong:
  assumes "\<And>e. snap_view bc' e = snap_view bc e" "bc_Chain bc' = bc_Chain bc" "bc_FinalizedSlot bc' = bc_FinalizedSlot bc"
    and "bc_Config bc' = bc_Config bc"
  shows "adoptable bc' new = adoptable bc new"
proof -
  have "stake_view bc' = stake_view bc" "active_view bc' = active_view bc"
    using assms by (simp_all add: fun_eq_iff stake_view_def active_view_def chainTipSlot_def epochForSlot_def)
  then show ?thesis
    using assms by (simp add: adoptable_def score_of_def chain_weight_def delta_ok_def min_delta_def)
qed

definition final_slot :: "('bs, 'ss) Blockchain \<Rightarrow> u64 \<Rightarrow> u64" where
  \<comment> \<open>the finalized slot once a block of this slot is the tip\<close>
  "final_slot bc slot = (if slot < cfg_FinalitySlots (bc_Config bc) then bc_FinalizedSlot bc
     else max (bc_FinalizedSlot bc) (slot - cfg_FinalitySlots (bc_Config bc)))"

lemma commit_block_extends:
  assumes "canonical_ok bc" "b_PrevHash b = bc_CanonicalTip bc" "fmlookup (bc_Blocks bc) (b_Hash b) = None"
    and "b_Hash b \<noteq> []" "b_Hash b \<noteq> ''GENESIS''" "b_Slot b \<noteq> - 1" "chainTipSlot bc \<noteq> - 1"
    and "fmlookup (bc_SlotProducers bc) (b_Slot b) = None" "commit_block G b validator bc = Some (bc', err)"
  shows "bc_Chain bc' = (if adoptable bc (bc_Chain bc @ [b]) then bc_Chain bc @ [b] else bc_Chain bc) \<and>
    bc_FinalizedSlot bc' = (if adoptable bc (bc_Chain bc @ [b]) then final_slot bc (b_Slot b) else bc_FinalizedSlot bc)"
proof -
  note ok = canonical_okD [OF assms(1)]
  have tip: "fmlookup (bc_Blocks bc) (bc_CanonicalTip bc) = Some (last (bc_Chain bc))" by (rule rooted_last [OF ok(3)])
  have prev: "fmlookup (bc_Blocks bc) (b_PrevHash b) \<noteq> None" by (simp add: assms(2) tip)
  obtain bc1 err new bc3 bc4 bc6 where reg: "registerSlotProducer b bc = (bc1, err)"
    and ok2: "canonical_ok (insertBlock b bc1)" and new: "rooted (bc_Blocks (insertBlock b bc1)) (b_Hash b) new"
    and m: "minor (insertBlock b bc1) bc3"
    and bc4_def: "bc4 = (if adoptable (insertBlock b bc1) new then adopt G (b_Hash b) new bc3 else bc3)"
    and b6: "books_only bc4 bc6" and run: "commit_block G b validator bc = Some (bc6, err)"
    by (rule commit_block_steps [OF assms(1) prev assms(3-7), of G validator])
  let ?bc2 = "insertBlock b bc1" and ?c = "bc_Chain bc @ [b]"
  have f1: "bc_Stats bc1 = bc_Stats bc" "bc_Validators bc1 = bc_Validators bc"
    using reg assms(8) by (auto simp: registerSlotProducer_def get_or_def Let_def)
  note f1 = f1 registerSlotProducer_frame [OF reg]
  have f2: "bc_Chain ?bc2 = bc_Chain bc" "bc_Blocks ?bc2 = fmupd (b_Hash b) b (bc_Blocks bc)" "bc_CanonicalTip ?bc2 = bc_CanonicalTip bc"
    by (simp_all add: insertBlock_def f1 Let_def)
  have new': "new = ?c"
  proof (rule rooted_unique [OF new])
    have "b_PrevHash b \<noteq> ''GENESIS''" using tree_okD(3) [OF ok(1) tip] assms(2) by simp
    then show "rooted (bc_Blocks ?bc2) (b_Hash b) ?c"
      by (rule rooted.child [rotated]) (use f2 assms(2) canonical_okD(3) [OF ok2] in auto)
  qed
  have same: "adoptable ?bc2 ?c = adoptable bc ?c"
    by (rule adoptable_cong) (simp_all add: insertBlock_def f1 Let_def snap_view_def cong: option.case_cong)
  have "bc_Config bc3 = bc_Config bc" "bc_FinalizedSlot bc3 = bc_FinalizedSlot bc" "bc_Chain bc3 = bc_Chain bc"
    by (simp_all add: minor_frame [OF m] insertBlock_def f1 Let_def)
  then have "bc_Chain bc6 = (if adoptable bc ?c then ?c else bc_Chain bc) \<and>
    bc_FinalizedSlot bc6 = (if adoptable bc ?c then final_slot bc (b_Slot b) else bc_FinalizedSlot bc)"
    using b6 by (simp add: books_only_def bc4_def same new' adopt_frame final_slot_def FinalizedSlot_tip)
  with run assms(9) show ?thesis by simp
qed

lemma commit_block_err: "commit_block G b v bc = Some (bc', err) \<Longrightarrow> err \<in> {None, Some ErrEquivocation}"
  by (auto simp: commit_block_def registerSlotProducer_def Let_def bind_eq_Some_conv split: prod.splits option.splits if_splits)

lemma commit_block_run:
  assumes "canonical_ok bc" "fmlookup (bc_Blocks bc) (b_PrevHash b) \<noteq> None" "fmlookup (bc_Blocks bc) (b_Hash b) = None"
    and "b_Hash b \<noteq> []" "b_Hash b \<noteq> ''GENESIS''" "b_Slot b \<noteq> - 1" "chainTipSlot bc \<noteq> - 1"
  shows "\<exists>bc' err. commit_block G b validator bc = Some (bc', err) \<and> canonical_ok bc' \<and>
    fmlookup (bc_Blocks bc') (b_Hash b) = Some b \<and> (bc_CanonicalTip bc' = b_Hash b \<or> bc_CanonicalTip bc' = bc_CanonicalTip bc) \<and>
    bc_poh bc' = bc_poh bc \<and> chainTipSlot bc' \<noteq> - 1 \<and> setup_kept bc bc' \<and> bc_Blocks bc' = fmupd (b_Hash b) b (bc_Blocks bc) \<and>
    bc_Mempool bc' = bc_Mempool bc \<and>
    (fmlookup (bc_SlotProducers bc) (b_Slot b) = None \<longrightarrow> err = None \<and> bc_Equivocations bc' = bc_Equivocations bc \<and>
      fmdom (bc_SlotProducers bc') = finsert (b_Slot b) (fmdom (bc_SlotProducers bc)))"
  using commit_block_effect [OF assms, of G validator] by auto

section \<open>Adding a block\<close>

definition same_view :: "('bs, 'ss) Blockchain \<Rightarrow> ('bs, 'ss) Blockchain \<Rightarrow> bool" where
  "same_view bc bc' \<longleftrightarrow> (\<forall>e. snap_view bc' e = snap_view bc e) \<and> bc_Validators bc' = bc_Validators bc \<and>
     bc_Config bc' = bc_Config bc"

lemma same_view_refl [simp]: "same_view bc bc"
  by (simp add: same_view_def)

lemma same_view_trans: "same_view a b \<Longrightarrow> same_view b c \<Longrightarrow> same_view a c"
  by (simp add: same_view_def)

lemma same_view_only: "only_snapshots bc bc' \<Longrightarrow> same_view bc bc'"
  by (simp add: same_view_def only_snapshots_frame only_snapshots_views(1))

lemma same_view_poh [simp]: "same_view bc (bc\<lparr>bc_poh := x\<rparr>)"
  by (simp add: same_view_def snap_view_def split: option.split)

lemma same_view_Mempool [simp]: "same_view bc (bc\<lparr>bc_Mempool := x\<rparr>)"
  by (simp add: same_view_def snap_view_def split: option.split)

lemma same_view_select: "SelectTxsForBlock limit addr bc = (bc', txs) \<Longrightarrow> same_view bc bc'"
  by (auto simp: SelectTxsForBlock_def Let_def split: option.splits prod.splits)

lemma acceptable_same_view: "same_view bc bc' \<Longrightarrow> acceptable G bc' prev b s = acceptable G bc prev b s"
  by (simp add: acceptable_def leader_view_def same_view_def epochForSlot_def)

lemma leader_same_view: "same_view bc bc' \<Longrightarrow> leader_view G bc' slot = leader_view G bc slot"
  by (simp add: leader_view_def same_view_def epochForSlot_def)

lemma Slot_not_max: "Slot p \<noteq> - 1"
proof
  assume "Slot p = - 1"
  then have "unat (p_CurrentTick p) div 20 = unat (- 1 :: u64)" using unat_Slot [of p] by simp
  also have "\<dots> = 2 ^ 64 - 1" by (simp add: unsigned_minus_1_eq_mask mask_eq_exp_minus_1)
  finally show False using unat_bound64 [of "p_CurrentTick p"] by simp
qed

text \<open>
  \<open>draft_of G bc parent q state ts\<close>: the block that a call of \<open>AddBlock\<close> or \<open>AddBlockExternal\<close> on \<open>bc\<close> makes of the
  transactions \<open>ts\<close> on top of \<open>parent\<close>, whose ledger is \<open>state\<close>, the clock having ticked to \<open>q\<close>: every field with its
  roots and its hash, and only the signature still open; \<open>None\<close> when \<open>ts\<close> cannot be applied.
  \<open>drafted\<close>: the signed block.  Its hash is that of the draft, since a signature is not hashed.
\<close>

definition draft_of :: "golib \<Rightarrow> ('bs, 'ss) Blockchain \<Rightarrow> Block \<Rightarrow> PoH \<Rightarrow> accounts \<Rightarrow> Transaction list \<Rightarrow> Block option" where
  "draft_of G bc parent q state ts =
     (let leader = leader_view G bc (Slot q) in
      case ApplyTransactions state ts (validatorRewardAddress G (bc_Validators bc) leader) of
        Inl e \<Rightarrow> None
      | Inr nextState \<Rightarrow> (let d = draft_block G parent (Slot q) q leader ts nextState in Some (d\<lparr>b_Hash := hash_of_block G d\<rparr>)))"

definition drafted :: "golib \<Rightarrow> ('bs, 'ss) Blockchain \<Rightarrow> Block \<Rightarrow> PoH \<Rightarrow> accounts \<Rightarrow> Transaction list \<Rightarrow> Block \<Rightarrow> bool" where
  "drafted G bc parent q state ts b \<longleftrightarrow> draft_of G bc parent q state ts = Some (b\<lparr>b_Signature := []\<rparr>)"

definition unstored :: "('bs, 'ss) Blockchain \<Rightarrow> Block option \<Rightarrow> bool" where
  "unstored bc d \<longleftrightarrow> (\<forall>b. d = Some b \<longrightarrow> fmlookup (bc_Blocks bc) (b_Hash b) = None)"

lemma draft_block_fields:
  "b_Index (draft_block G parent slot q v txs st) = b_Index parent + 1"
  "b_PrevHash (draft_block G parent slot q v txs st) = b_Hash parent"
  "b_Slot (draft_block G parent slot q v txs st) = slot"
  "b_Tick (draft_block G parent slot q v txs st) = p_CurrentTick q"
  "b_Validator (draft_block G parent slot q v txs st) = v"
  "b_TxRoot (draft_block G parent slot q v txs st) = TxRoot G txs"
  "b_StateRoot (draft_block G parent slot q v txs st) = StateRoot G st"
  "b_PoHHash (draft_block G parent slot q v txs st) = PoHHashHex (p_Hash q)"
  "b_Transactions (draft_block G parent slot q v txs st) = txs"
  "b_Signature (draft_block G parent slot q v txs st) = []"
  by (simp_all add: draft_block_def Let_def)

lemma draftedE:
  assumes "drafted G bc parent q state ts b"
  obtains d sig s where "d = draft_block G parent (Slot q) q (leader_view G bc (Slot q)) ts s"
    "b = d\<lparr>b_Hash := hash_of_block G d, b_Signature := sig\<rparr>"
    "ApplyTransactions state ts (validatorRewardAddress G (bc_Validators bc) (leader_view G bc (Slot q))) = Inr s"
proof -
  obtain d s where d: "d = draft_block G parent (Slot q) q (leader_view G bc (Slot q)) ts s"
    and e: "d\<lparr>b_Hash := hash_of_block G d\<rparr> = b\<lparr>b_Signature := []\<rparr>"
    and s: "ApplyTransactions state ts (validatorRewardAddress G (bc_Validators bc) (leader_view G bc (Slot q))) = Inr s"
    using assms by (auto simp: drafted_def draft_of_def Let_def split: sum.splits)
  have "b = (b\<lparr>b_Signature := []\<rparr>)\<lparr>b_Signature := b_Signature b\<rparr>" by simp
  then have "b = d\<lparr>b_Hash := hash_of_block G d, b_Signature := b_Signature b\<rparr>" unfolding e [symmetric] .
  with d s show thesis using that by blast
qed

lemma draftedD:
  assumes "drafted G bc parent q state ts b"
  shows "b_PrevHash b = b_Hash parent" "b_Index b = b_Index parent + 1" "b_Slot b = Slot q" "b_Tick b = p_CurrentTick q"
    "b_PoHHash b = PoHHashHex (p_Hash q)" "b_Validator b = leader_view G bc (Slot q)" "b_Hash b = hash_of_block G b"
    "b_Transactions b = ts"
  by (rule draftedE [OF assms], simp add: draft_block_fields)+

lemma draftedI:
  assumes "ApplyTransactions state ts (validatorRewardAddress G (bc_Validators bc) (leader_view G bc (Slot q))) = Inr s"
    and "d = draft_block G parent (Slot q) q (leader_view G bc (Slot q)) ts s"
    and "b = d\<lparr>b_Signature := sig, b_Hash := hash_of_block G d\<rparr>"
  shows "drafted G bc parent q state ts b"
  using assms(1) by (simp add: drafted_def draft_of_def assms(2,3) draft_block_def Let_def)

lemma draft_drafted:
  assumes "draft_of G bc parent q state ts = Some b"
  shows "drafted G bc parent q state ts b"
proof -
  have "b_Signature b = []" using assms by (auto simp: draft_of_def draft_block_fields Let_def split: sum.splits)
  then have "b\<lparr>b_Signature := []\<rparr> = b" by (cases b) simp
  with assms show ?thesis by (simp add: drafted_def)
qed

text \<open>For a block that passes \<open>verifyBlockOnAccept\<close> the fields of the header are enough.\<close>

lemma drafted_acceptable:
  assumes "acceptable G bc parent b state"
  shows "drafted G bc parent q state (b_Transactions b) b \<longleftrightarrow> b_PrevHash b = b_Hash parent \<and> b_Index b = b_Index parent + 1 \<and>
     b_Slot b = Slot q \<and> b_Tick b = p_CurrentTick q \<and> b_PoHHash b = PoHHashHex (p_Hash q) \<and>
     b_Validator b = leader_view G bc (Slot q) \<and> b_Hash b = hash_of_block G b" (is "?l \<longleftrightarrow> ?r")
proof
  assume ?l
  from draftedD [OF this] show ?r by simp
next
  assume r: ?r
  obtain s where s: "ApplyTransactions state (b_Transactions b) (validatorRewardAddress G (bc_Validators bc) (b_Validator b)) = Inr s"
    "StateRoot G s = b_StateRoot b" "TxRoot G (b_Transactions b) = b_TxRoot b"
    using assms unfolding acceptable_def by blast
  let ?d = "draft_block G parent (Slot q) q (leader_view G bc (Slot q)) (b_Transactions b) s"
  have "b = ?d\<lparr>b_Signature := b_Signature b, b_Hash := hash_of_block G ?d\<rparr>"
    using r s(2,3) by (cases b) (simp add: draft_block_def)
  from draftedI [OF _ refl this] s(1) r show ?l by simp
qed

lemma drafted_unstored:
  assumes "drafted G bc parent q state ts b" "unstored bc (draft_of G bc parent q state ts)"
  shows "fmlookup (bc_Blocks bc) (b_Hash b) = None"
  using assms by (auto simp: drafted_def unstored_def)

lemma drafted_same_view: "same_view bc bc' \<Longrightarrow> drafted G bc' = drafted G bc"
  using leader_same_view [of bc bc' G] by (simp add: fun_eq_iff drafted_def draft_of_def same_view_def)

text \<open>
  \<open>selection bc addr txs\<close>: the pool after \<open>AddBlock\<close> has chosen the transactions of its block, and these transactions.
\<close>

definition selection :: "('bs, 'ss) Blockchain \<Rightarrow> string \<Rightarrow> Transaction list \<Rightarrow> Mempool option \<times> Transaction list" where
  "selection bc addr txs = (case bc_Mempool bc of
     Some m \<Rightarrow> (if txs = [] then (let (m, txs) = PopForBlock m (bc_State bc) (cfg_MaxBlockTxs (bc_Config bc)) addr in (Some m, txs))
       else (Some m, txs))
   | None \<Rightarrow> (None, txs))"

lemma selection_given: "txs \<noteq> [] \<Longrightarrow> selection bc addr txs = (bc_Mempool bc, txs)"
  by (simp add: selection_def split: option.split)

text \<open>
  \<open>fresh_block G txs bc\<close>: the block that \<open>AddBlock\<close> would make of \<open>txs\<close> now does not have the hash of a stored block.
\<close>

definition next_draft :: "golib \<Rightarrow> Transaction list \<Rightarrow> ('bs, 'ss) Blockchain \<Rightarrow> PoH \<Rightarrow> Block option" where
  "next_draft G txs bc q = draft_of G bc (last (bc_Chain bc)) q (bc_State bc)
     (snd (selection bc (validatorRewardAddress G (bc_Validators bc) (leader_view G bc (Slot q))) txs))"

definition fresh_block :: "golib \<Rightarrow> Transaction list \<Rightarrow> ('bs, 'ss) Blockchain \<Rightarrow> bool" where
  "fresh_block G txs bc \<longleftrightarrow> (\<forall>p. bc_poh bc = Some p \<longrightarrow> unstored bc (next_draft G txs bc (fst (Tick G p TicksPerSlot))))"

text \<open>\<open>AddBlock\<close> after the clock, the leader and the transactions are known.\<close>

lemma AddBlock_run:
  fixes G :: golib and bc :: "('bs, 'ss) Blockchain" and p :: PoH and txs :: "Transaction list"
  assumes "bc_Validators bc \<noteq> fmempty" "bc_poh bc = Some p"
  defines "q \<equiv> fst (Tick G p TicksPerSlot)" and "prev \<equiv> get_or zero_block (bc_Blocks bc) (bc_CanonicalTip bc)"
  defines "leader \<equiv> leader_view G bc (Slot q)"
  defines "addr \<equiv> validatorRewardAddress G (bc_Validators bc) leader"
  defines "ts \<equiv> snd (selection bc addr txs)"
  obtains bc2 where "untouched bc bc2" "same_view bc bc2" "bc_poh bc2 = Some q" "bc_Mempool bc2 = fst (selection bc addr txs)"
    "AddBlock G rnd txs bc = (case VerifyTransactions G ts of
      Some e \<Rightarrow> Some (slash leader bc2, Some e)
    | None \<Rightarrow> (case ApplyTransactions (bc_State bc2) ts addr of
        Inl e \<Rightarrow> Some (slash leader bc2, Some e)
      | Inr nextState \<Rightarrow> do {
          (bc, hash, err) \<leftarrow> seal_block G rnd prev (bc_State bc2) (draft_block G prev (Slot q) q leader ts nextState) leader bc2;
          Some (bc, err) }))"
proof -
  let ?bc1 = "ensureSnapshot G (epochForSlot (Slot q) bc) (bc\<lparr>bc_poh := Some q\<rparr>)"
  note only = ensureSnapshot_only(1) [of "bc\<lparr>bc_poh := Some q\<rparr>" G "epochForSlot (Slot q) bc"]
  note f1 = only_snapshots_frame [OF only]
  have u1: "untouched bc ?bc1" by (rule untouched_trans [OF untouched_poh untouched_only [OF only]])
  have v1: "same_view bc ?bc1" by (rule same_view_trans [OF same_view_poh same_view_only [OF only]])
  have step: "next_slot G p bc = (?bc1, q, Slot q, leader, addr)" by (simp add: next_slot_run q_def leader_def addr_def Let_def)
  define bc2 where "bc2 = ?bc1\<lparr>bc_Mempool := fst (selection bc addr txs)\<rparr>"
  have sel: "(if length txs = 0 \<and> bc_Mempool ?bc1 \<noteq> None
      then SelectTxsForBlock (cfg_MaxBlockTxs (bc_Config ?bc1)) addr ?bc1 else (?bc1, txs)) = (bc2, ts)"
    using f1 by (auto simp: bc2_def ts_def selection_def SelectTxsForBlock_def Let_def split: option.splits prod.splits)
  then have "untouched bc bc2" "same_view bc bc2"
    using untouched_trans [OF u1 untouched_select] same_view_trans [OF v1 same_view_select] u1 v1 by (auto split: if_splits)
  moreover have "bc_poh bc2 = Some q" "bc_Mempool bc2 = fst (selection bc addr txs)" using f1 by (simp_all add: bc2_def)
  moreover have "AddBlock G rnd txs bc = (case VerifyTransactions G ts of
      Some e \<Rightarrow> Some (slash leader bc2, Some e)
    | None \<Rightarrow> (case ApplyTransactions (bc_State bc2) ts addr of
        Inl e \<Rightarrow> Some (slash leader bc2, Some e)
      | Inr nextState \<Rightarrow> do {
          (bc, hash, err) \<leftarrow> seal_block G rnd prev (bc_State bc2) (draft_block G prev (Slot q) q leader ts nextState) leader bc2;
          Some (bc, err) }))"
    unfolding prev_def using assms(1,2) sel by (simp add: AddBlock_def step Let_def)
  ultimately show thesis by (rule that)
qed

text \<open>Sealing the draft of a block, seen from the chain before the clock moved.\<close>

lemma seal_draft_cases:
  assumes "untouched bc bc2" "same_view bc bc2" "bc_poh bc2 = Some q" "leader = leader_view G bc (Slot q)"
    and "ApplyTransactions state ts (validatorRewardAddress G (bc_Validators bc) leader) = Inr s"
  obtains (rejected) bc' e where "seal_block G rnd parent state (draft_block G parent (Slot q) q leader ts s) leader bc2 = Some (bc', [], Some e)"
      "untouched bc bc'" "bc_poh bc' = Some q" "bc_Mempool bc' = bc_Mempool bc2"
  | (committed) bc3 b where "drafted G bc parent q state ts b" "acceptable G bc parent b state" "untouched bc bc3" "bc_poh bc3 = Some q"
      "bc_Validators bc3 = bc_Validators bc" "bc_Mempool bc3 = bc_Mempool bc2" "b_Transactions b = ts"
      "seal_block G rnd parent state (draft_block G parent (Slot q) q leader ts s) leader bc2 =
        (do { (bc', eqErr) \<leftarrow> commit_block G b leader bc3; Some (bc', b_Hash b, eqErr) })"
proof (rule seal_block_cases [of G rnd parent state "draft_block G parent (Slot q) q leader ts s" leader bc2, OF refl])
  fix bc' e
  assume r: "seal_block G rnd parent state (draft_block G parent (Slot q) q leader ts s) leader bc2 = Some (bc', [], Some e)"
    "untouched bc2 bc'" "bc_poh bc' = bc_poh bc2" "bc_Mempool bc' = bc_Mempool bc2"
  show thesis by (rule rejected [OF r(1) untouched_trans [OF assms(1) r(2)]]) (simp_all add: r(3,4) assms(3))
next
  fix v k sig bc3 b
  assume b: "b = draft_block G parent (Slot q) q leader ts s
      \<lparr>b_Signature := sig, b_Hash := hash_of_block G (draft_block G parent (Slot q) q leader ts s)\<rparr>"
    "acceptable G bc2 parent b state" "untouched bc2 bc3" "bc_poh bc3 = bc_poh bc2" "bc_Mempool bc3 = bc_Mempool bc2"
    "bc_Validators bc3 = bc_Validators bc2"
    and seal: "seal_block G rnd parent state (draft_block G parent (Slot q) q leader ts s) leader bc2 =
      (do { (bc', eqErr) \<leftarrow> commit_block G b leader bc3; Some (bc', b_Hash b, eqErr) })"
  have d: "drafted G bc parent q state ts b"
    using draftedI [OF assms(5) [unfolded assms(4)] refl] by (simp add: b(1) assms(4))
  moreover have "b_Transactions b = ts" by (rule draftedD(8) [OF d])
  moreover have "acceptable G bc parent b state" using b(2) acceptable_same_view [OF assms(2)] by simp
  ultimately show thesis
    using committed [OF _ _ untouched_trans [OF assms(1) b(3)] _ _ _ _ seal] b(4-6) assms(2,3) by (simp add: same_view_def)
qed

lemma AddBlock_cases:
  fixes G :: golib and bc :: "('bs, 'ss) Blockchain" and p :: PoH and rnd :: nat and txs :: "Transaction list"
  assumes "bc_Validators bc \<noteq> fmempty" "bc_poh bc = Some p"
  defines "q \<equiv> fst (Tick G p TicksPerSlot)" and "prev \<equiv> get_or zero_block (bc_Blocks bc) (bc_CanonicalTip bc)"
  defines "sel \<equiv> selection bc (validatorRewardAddress G (bc_Validators bc) (leader_view G bc (Slot q))) txs"
  obtains (rejected) bc' e where "AddBlock G rnd txs bc = Some (bc', Some e)" "untouched bc bc'" "bc_poh bc' = Some q"
      "bc_Mempool bc' = fst sel"
  | (committed) bc1 b where "drafted G bc prev q (bc_State bc) (snd sel) b" "acceptable G bc prev b (bc_State bc)" "untouched bc bc1"
      "bc_poh bc1 = Some q" "bc_Validators bc1 = bc_Validators bc"
      "AddBlock G rnd txs bc = commit_block G b (leader_view G bc (Slot q)) bc1" "txs \<noteq> [] \<longrightarrow> b_Transactions b = txs"
      "b_Transactions b = snd sel" "bc_Mempool bc1 = fst sel"
proof -
  let ?leader = "leader_view G bc (Slot q)"
  let ?addr = "validatorRewardAddress G (bc_Validators bc) ?leader"
  obtain bc2 where u2: "untouched bc bc2" and v2: "same_view bc bc2" and p2: "bc_poh bc2 = Some q" "bc_Mempool bc2 = fst sel"
    and run: "AddBlock G rnd txs bc = (case VerifyTransactions G (snd sel) of
      Some e \<Rightarrow> Some (slash ?leader bc2, Some e)
    | None \<Rightarrow> (case ApplyTransactions (bc_State bc2) (snd sel) ?addr of
        Inl e \<Rightarrow> Some (slash ?leader bc2, Some e)
      | Inr nextState \<Rightarrow> do {
          (bc, hash, err) \<leftarrow> seal_block G rnd prev (bc_State bc2) (draft_block G prev (Slot q) q ?leader (snd sel) nextState) ?leader bc2;
          Some (bc, err) }))"
    unfolding sel_def q_def prev_def by (rule AddBlock_run [OF assms(1,2), of G txs rnd])
  have slashed: "untouched bc (slash ?leader bc2)" using u2 by (simp add: untouched_slash)
  have state2: "bc_State bc2 = bc_State bc" using u2 by (simp add: untouched_def)
  consider e where "AddBlock G rnd txs bc = Some (slash ?leader bc2, Some e)"
    | s where "ApplyTransactions (bc_State bc) (snd sel) ?addr = Inr s" "AddBlock G rnd txs bc = do {
        (bc, hash, err) \<leftarrow> seal_block G rnd prev (bc_State bc) (draft_block G prev (Slot q) q ?leader (snd sel) s) ?leader bc2;
        Some (bc, err) }"
    using run by (auto simp: state2 split: option.splits sum.splits)
  then show thesis
  proof cases
    case 1
    then show thesis using slashed p2 rejected by simp
  next
    case (2 s)
    note run2 = 2
    show thesis
    proof (rule seal_draft_cases [OF u2 v2 p2(1) refl 2(1), of rnd prev])
      fix bc' e
      assume "seal_block G rnd prev (bc_State bc) (draft_block G prev (Slot q) q ?leader (snd sel) s) ?leader bc2 = Some (bc', [], Some e)"
        "untouched bc bc'" "bc_poh bc' = Some q" "bc_Mempool bc' = bc_Mempool bc2"
      then show thesis using run2 p2 by (intro rejected) simp_all
    next
      fix bc3 b
      assume b: "drafted G bc prev q (bc_State bc) (snd sel) b" "acceptable G bc prev b (bc_State bc)" "untouched bc bc3" "bc_poh bc3 = Some q"
        "bc_Validators bc3 = bc_Validators bc" "bc_Mempool bc3 = bc_Mempool bc2" "b_Transactions b = snd sel"
        and seal: "seal_block G rnd prev (bc_State bc) (draft_block G prev (Slot q) q ?leader (snd sel) s) ?leader bc2 =
          (do { (bc', eqErr) \<leftarrow> commit_block G b ?leader bc3; Some (bc', b_Hash b, eqErr) })"
      have "AddBlock G rnd txs bc = commit_block G b ?leader bc3"
        unfolding run2(2) seal by (cases "commit_block G b ?leader bc3") auto
      moreover have "txs \<noteq> [] \<longrightarrow> snd sel = txs" by (simp add: sel_def selection_given)
      ultimately show thesis using committed b p2 u2 by (simp add: untouched_def)
    qed
  qed
qed

lemma canonical_tip_block:
  assumes "canonical_ok bc"
  shows "get_or zero_block (bc_Blocks bc) (bc_CanonicalTip bc) = last (bc_Chain bc)"
    "b_Hash (last (bc_Chain bc)) = bc_CanonicalTip bc" "fmlookup (bc_Blocks bc) (bc_CanonicalTip bc) = Some (last (bc_Chain bc))"
proof -
  note ok = canonical_okD [OF assms]
  show tip: "fmlookup (bc_Blocks bc) (bc_CanonicalTip bc) = Some (last (bc_Chain bc))" by (rule rooted_last [OF ok(3)])
  then show "get_or zero_block (bc_Blocks bc) (bc_CanonicalTip bc) = last (bc_Chain bc)" by (simp add: get_or_def)
  show "b_Hash (last (bc_Chain bc)) = bc_CanonicalTip bc" using tree_okD(1) [OF ok(1) tip] .
qed

lemma commit_drafted:
  assumes "canonical_ok bc" "untouched bc bc1" "chainTipSlot bc \<noteq> - 1" "drafted G bc (last (bc_Chain bc)) q state ts b"
    and "fmlookup (bc_Blocks bc) (b_Hash b) = None"
  shows "\<exists>bc' err. commit_block G b validator bc1 = Some (bc', err) \<and> canonical_ok bc' \<and>
    fmlookup (bc_Blocks bc') (b_Hash b) = Some b \<and> (bc_CanonicalTip bc' = b_Hash b \<or> bc_CanonicalTip bc' = bc_CanonicalTip bc) \<and>
    bc_poh bc' = bc_poh bc1 \<and> chainTipSlot bc' \<noteq> - 1 \<and> setup_kept bc1 bc' \<and> bc_Blocks bc' = fmupd (b_Hash b) b (bc_Blocks bc) \<and>
    bc_Mempool bc' = bc_Mempool bc1 \<and>
    (fmlookup (bc_SlotProducers bc) (Slot q) = None \<longrightarrow> err = None \<and> bc_Equivocations bc' = bc_Equivocations bc \<and>
      fmdom (bc_SlotProducers bc') = finsert (Slot q) (fmdom (bc_SlotProducers bc)))"
proof -
  have same: "bc_Blocks bc1 = bc_Blocks bc" "bc_CanonicalTip bc1 = bc_CanonicalTip bc" "chainTipSlot bc1 = chainTipSlot bc"
    "bc_SlotProducers bc1 = bc_SlotProducers bc" "bc_Equivocations bc1 = bc_Equivocations bc"
    using assms(2) by (simp_all add: untouched_def chainTipSlot_def)
  have ok1: "canonical_ok bc1" using canonical_ok_untouched [OF assms(2)] assms(1) by simp
  have b: "b_PrevHash b = bc_CanonicalTip bc" "b_Hash b = hash_of_block G b" "b_Slot b = Slot q"
    using draftedD [OF assms(4)] canonical_tip_block [OF assms(1)] by simp_all
  have "length (b_Hash b) = 64" by (simp add: b(2) HashBlock_def)
  then have "b_Hash b \<noteq> []" "b_Hash b \<noteq> ''GENESIS''" by auto
  with commit_block_run [OF ok1, of b G validator] assms(3,5) b canonical_tip_block(3) [OF assms(1)] same Slot_not_max
  show ?thesis by simp
qed

lemma commit_drafted_extends:
  assumes "canonical_ok bc" "untouched bc bc1" "same_view bc bc1" "chainTipSlot bc \<noteq> - 1"
    and "drafted G bc (last (bc_Chain bc)) q state ts b" "fmlookup (bc_Blocks bc) (b_Hash b) = None"
    and "fmlookup (bc_SlotProducers bc) (Slot q) = None" "commit_block G b validator bc1 = Some (bc', err)"
  shows "bc_Chain bc' = (if adoptable bc (bc_Chain bc @ [b]) then bc_Chain bc @ [b] else bc_Chain bc)"
    and "bc_FinalizedSlot bc' = (if adoptable bc (bc_Chain bc @ [b]) then final_slot bc (Slot q) else bc_FinalizedSlot bc)"
proof -
  have same: "bc_Blocks bc1 = bc_Blocks bc" "bc_CanonicalTip bc1 = bc_CanonicalTip bc" "chainTipSlot bc1 = chainTipSlot bc"
    "bc_SlotProducers bc1 = bc_SlotProducers bc" "bc_Chain bc1 = bc_Chain bc" "bc_Config bc1 = bc_Config bc"
    "bc_FinalizedSlot bc1 = bc_FinalizedSlot bc"
    using assms(2) by (simp_all add: untouched_def chainTipSlot_def)
  have ok1: "canonical_ok bc1" using canonical_ok_untouched [OF assms(2)] assms(1) by simp
  have b: "b_PrevHash b = bc_CanonicalTip bc" "b_Hash b = hash_of_block G b" "b_Slot b = Slot q"
    using draftedD [OF assms(5)] canonical_tip_block [OF assms(1)] by simp_all
  have "length (b_Hash b) = 64" by (simp add: b(2) HashBlock_def)
  then have "b_Hash b \<noteq> []" "b_Hash b \<noteq> ''GENESIS''" by auto
  moreover have "adoptable bc1 new = adoptable bc new" for new
    by (rule adoptable_cong) (use same assms(3) in \<open>simp_all add: same_view_def\<close>)
  ultimately show "bc_Chain bc' = (if adoptable bc (bc_Chain bc @ [b]) then bc_Chain bc @ [b] else bc_Chain bc)"
    "bc_FinalizedSlot bc' = (if adoptable bc (bc_Chain bc @ [b]) then final_slot bc (Slot q) else bc_FinalizedSlot bc)"
    using commit_block_extends [OF ok1, of b G validator bc' err] assms(4,6-8) b same Slot_not_max [of q] by (simp_all add: final_slot_def)
qed

text \<open>A leader with a generated key seals every block that its transactions allow.\<close>

definition can_sign :: "golib \<Rightarrow> nat \<Rightarrow> Validator \<Rightarrow> bool" where
  "can_sign G rnd v \<longleftrightarrow> (\<exists>k pub. v_PrivKey v = Some k \<and> generated_key G k \<and> ecMarshal (pub_point k) = Inr pub \<and>
     v_PubKey v = hexEncode pub \<and> (\<forall>h e. SignASN1 G rnd k h \<noteq> Inl e))"

lemma acceptable_sealed:
  assumes "b_PrevHash d = b_Hash parent" "leader_view G bc (b_Slot d) = b_Validator d"
    and "VerifyTransactions G (b_Transactions d) = None" "TxRoot G (b_Transactions d) = b_TxRoot d"
    and "ApplyTransactions state (b_Transactions d) (validatorRewardAddress G (bc_Validators bc) (b_Validator d)) = Inr nextState"
    and "StateRoot G nextState = b_StateRoot d" "fmlookup (bc_Validators bc) (b_Validator d) = Some v"
    and "b = d\<lparr>b_Signature := sig, b_Hash := h\<rparr>" "VerifyBlockSignature G b (v_PubKey v) = None"
  shows "acceptable G bc parent b state"
proof -
  have "b_PrevHash b = b_PrevHash d" "b_Slot b = b_Slot d" "b_Validator b = b_Validator d" "b_TxRoot b = b_TxRoot d"
    "b_StateRoot b = b_StateRoot d" "b_Transactions b = b_Transactions d"
    by (simp_all add: assms(8))
  then show ?thesis
    unfolding acceptable_def using assms(1-7,9) by (simp add: VerifyTransactions_None)
qed

lemma seal_block_commits:
  assumes "ecdsa_correct G" "fmlookup (bc_Validators bc) leader = Some v" "can_sign G rnd v"
    and "bc_blockStore bc = None" "leader_view G bc (Slot q) = leader"
    and "VerifyTransactions G txs = None"
    and "ApplyTransactions state txs (validatorRewardAddress G (bc_Validators bc) leader) = Inr nextState"
  shows "\<exists>b bc1. drafted G bc parent q state txs b \<and> b_Transactions b = txs \<and> only_snapshots bc bc1 \<and> acceptable G bc parent b state \<and>
    seal_block G rnd parent state (draft_block G parent (Slot q) q leader txs nextState) leader bc =
      do { (bc', eqErr) \<leftarrow> commit_block G b leader bc1; Some (bc', b_Hash b, eqErr) }"
proof -
  define d where "d = draft_block G parent (Slot q) q leader txs nextState"
  note fields = draft_block_fields [of G parent "Slot q" q leader txs nextState, folded d_def]
  define h where "h = hash_of_block G d"
  from assms(3) obtain k pub where k: "v_PrivKey v = Some k" "generated_key G k" "ecMarshal (pub_point k) = Inr pub"
    "v_PubKey v = hexEncode pub" "\<forall>h e. SignASN1 G rnd k h \<noteq> Inl e"
    unfolding can_sign_def by blast
  obtain sig where sig: "SignASN1 G rnd k (str_bytes h) = Inr sig"
    using k(5) by (cases "SignASN1 G rnd k (str_bytes h)") auto
  define b where "b = d\<lparr>b_Signature := sig, b_Hash := h\<rparr>"
  have sign: "SignBlock G rnd (Some k) (Some d) = (Some b, None)"
    using sig by (simp add: SignBlock_def h_def b_def Let_def)
  have verified: "VerifyBlockSignature G b (v_PubKey v) = None"
    using SignBlock_verifies [OF assms(1) k(2,3) sign] k(4) by simp
  have drafted: "drafted G bc parent q state txs b"
    by (rule draftedI [OF _ refl]) (use assms(5,7) in \<open>simp_all add: b_def h_def d_def\<close>)
  have acc: "acceptable G bc parent b state"
    by (rule acceptable_sealed [OF _ _ _ _ _ _ _ b_def verified]) (use assms(2,5-7) in \<open>simp_all add: fields\<close>)
  obtain bc1 where v: "verifyBlockOnAccept G parent b state bc = (bc1, None)" and o: "only_snapshots bc bc1"
    using verifyBlockOnAccept_run [of G parent b state bc] acc by auto
  have "save_block b bc1 = (bc1, None)"
    using assms(4) only_snapshots_frame(17) [OF o] by (simp add: save_block_def)
  then have "seal_block G rnd parent state d leader bc = do { (bc', eqErr) \<leftarrow> commit_block G b leader bc1; Some (bc', b_Hash b, eqErr) }"
    using assms(2) k(1) sign v by (simp add: seal_block_def)
  moreover have "b_Transactions b = txs" by (simp add: b_def fields)
  ultimately show ?thesis using drafted o acc by (auto simp: d_def)
qed

section \<open>A running node\<close>

text \<open>The witnesses use the chain of \<open>demo_bc\<close> with a clock; with \<open>demo_lib\<close> alice leads every slot.\<close>

definition demo_live :: "(unit, unit) Blockchain" where
  "demo_live = demo_bc\<lparr>bc_poh := Some (NewPoH demo_seed)\<rparr>"

lemma demo_live_fields:
  "bc_Validators demo_live = demo_validators" "bc_poh demo_live = Some (NewPoH demo_seed)"
  "bc_CanonicalTip demo_live = ''h''" "bc_Blocks demo_live = demo_blocks" "bc_blockStore demo_live = None"
  "bc_Mempool demo_live = None" "bc_SlotProducers demo_live = fmempty" "bc_State demo_live = rich"
  "bc_Chain demo_live = [root_block, child_block ''h'' ''g'' 1 ''alice'']" "bc_Equivocations demo_live = []"
  by (simp_all add: demo_live_def demo_bc_def)

lemma demo_live_ok: "canonical_ok demo_live" "chainTipSlot demo_live \<noteq> - 1" "demo_validators \<noteq> fmempty"
  using demo_bc_ok demo_lookup(1)
  by (auto simp: demo_live_def chainTipSlot_def demo_fields canonical_ok_def simp del: demo_lookup)

lemma demo_clock: "p_CurrentTick (fst (Tick demo_lib (NewPoH demo_seed) TicksPerSlot)) = 20"
    "Slot (fst (Tick demo_lib (NewPoH demo_seed) TicksPerSlot)) = 1"
proof -
  show tick: "p_CurrentTick (fst (Tick demo_lib (NewPoH demo_seed) TicksPerSlot)) = 20"
    using tick_power [of "NewPoH demo_seed" 20 demo_lib] by (simp add: Tick_power Let_def NewPoH_def TicksPerSlot_def)
  show "Slot (fst (Tick demo_lib (NewPoH demo_seed) TicksPerSlot)) = 1"
    using tick by (simp add: Slot_def) (simp add: TicksPerSlot_def)
qed

lemma demo_draw: "deterministicDraw demo_lib slot limit = 0"
  by (simp add: deterministicDraw_def slot_number_def demo_sum.rep_eq uint64LE_def numeral_eq_Suc)

lemma demo_leader: "leader_view demo_lib demo_live slot = ''alice''"
proof -
  have names: "\<forall>n v. fmlookup demo_validators n = Some v \<longrightarrow> v_Name v = n"
    using validators_okD(2) [OF demo_validators_ok] by blast
  have "es_Validators (snap_view demo_live e) = fmupd ''alice'' 200 (fmupd ''bob'' 12 fmempty)" for e
    by (simp add: snap_view_def new_snapshot_active [OF names] demo_active demo_live_def demo_bc_def)
  then show ?thesis
    by (simp add: leader_view_def LeaderFromSnapshot_def demo_draw range_loop_def sortedStakeNames_def Let_def)
qed

lemma fresh_hash: "drafted demo_lib bc parent q state ts b \<Longrightarrow> fmlookup demo_blocks (b_Hash b) = None"
proof -
  assume "drafted demo_lib bc parent q state ts b"
  from draftedD(7) [OF this] have "length (b_Hash b) = 64" by (simp add: HashBlock_def)
  then have "b_Hash b \<notin> {''g'', ''h'', ''i'', ''j''}" by auto
  then show ?thesis by (auto simp: demo_blocks_def)
qed

lemma unstored_demo: "unstored bc (draft_of demo_lib bc' parent q state ts)" if "bc_Blocks bc = demo_blocks"
proof -
  have "length (b_Hash d) = 64" if "draft_of demo_lib bc' parent q state ts = Some d" for d
    using that by (auto simp: draft_of_def Let_def HashBlock_def split: sum.splits)
  then have "b_Hash d \<notin> {''g'', ''h'', ''i'', ''j''}" if "draft_of demo_lib bc' parent q state ts = Some d" for d
    using that by fastforce
  with that show ?thesis by (fastforce simp: unstored_def demo_blocks_def)
qed

lemma demo_fresh_next: "fresh_block demo_lib txs demo_live"
  by (simp add: fresh_block_def next_draft_def unstored_demo demo_live_fields(4))

lemma alice_signs: "can_sign demo_lib rnd (demo_validator ''alice'' 200)"
  by (auto simp: can_sign_def ecMarshal_demo)

end
