(* ===== verification/Adding.thy ===== *)
theory Adding
  imports Production
begin

text \<open>
  What a call of \<open>AddBlock\<close> does to a well-formed chain: its outcomes, that it returns, that a node never
  equivocates by itself, and that a leader who can sign gets its block stored.
\<close>

section \<open>A rejected block\<close>

text \<open>A transaction with a nonce out of order is rejected.\<close>

lemma demo_live_rejects: "\<exists>bc'. AddBlock demo_lib 0 [demo_tx ''bob'' 30 2 9] demo_live = Some (bc', Some (at_index ''nonce mismatch'' 0))"
proof -
  have "VerifyTransactions demo_lib [demo_tx ''bob'' 30 2 9] = None" by (simp add: VerifyTransactions_None)
  moreover have "ApplyTransactions rich [demo_tx ''bob'' 30 2 9] addr = Inl (at_index ''nonce mismatch'' 0)" for addr
    by (simp add: ApplyTransactions_def apply_tx_def rich_def demo_addr_def Let_def word_sle_eq word_sless_alt)
  ultimately show ?thesis
    using demo_live_ok(3) by (simp add: AddBlock_def next_slot_run demo_live_fields Let_def
        only_snapshots_frame(8) [OF ensureSnapshot_only(1)])
qed

section \<open>Properties\<close>

text \<open>
  C2: what \<open>AddBlock\<close> does to a well-formed chain.  When it returns, either it reports an error and the
  chain, its blocks, the ledger, finality and the existing snapshots are as before, with the clock one slot
  further; or it committed a block on the canonical tip, with the next index, the new slot and
  tick and the clock's hash, produced by the slot's leader, that passed every check of
  \<open>verifyBlockOnAccept\<close>, and reports nothing but an equivocation.  Unless the new block's hash collides with a
  stored one, the block is then stored, the chain is well-formed, and the tip is the new block or the old tip.
  In both cases, also after an error, the pool is what the selection of transactions left of it: selected
  transactions of a failed block are lost.
\<close>

theorem AddBlock_outcome:
  assumes "canonical_ok bc" "bc_Validators bc \<noteq> fmempty" "bc_poh bc = Some p" "chainTipSlot bc \<noteq> - 1"
    and "AddBlock G rnd txs bc = Some (bc', err)" "q = fst (Tick G p TicksPerSlot)"
    and "sel = selection bc (validatorRewardAddress G (bc_Validators bc) (leader_view G bc (Slot q))) txs"
  shows "(untouched bc bc' \<and> err \<noteq> None \<and> bc_poh bc' = Some q \<and> bc_Mempool bc' = fst sel) \<or> err \<in> {None, Some ErrEquivocation} \<and>
    (\<exists>b. drafted G bc (last (bc_Chain bc)) q (bc_State bc) (snd sel) b \<and> acceptable G bc (last (bc_Chain bc)) b (bc_State bc) \<and> b_Transactions b = snd sel \<and>
      (fmlookup (bc_Blocks bc) (b_Hash b) = None \<longrightarrow> canonical_ok bc' \<and> bc_poh bc' = Some q \<and> bc_Mempool bc' = fst sel \<and>
        fmlookup (bc_Blocks bc') (b_Hash b) = Some b \<and> bc_CanonicalTip bc' \<in> {b_Hash b, bc_CanonicalTip bc}))"
proof -
  have prev: "get_or zero_block (bc_Blocks bc) (bc_CanonicalTip bc) = last (bc_Chain bc)"
    by (rule canonical_tip_block [OF assms(1)])
  show ?thesis
  proof (rule AddBlock_cases [OF assms(2,3), of G rnd txs, unfolded prev, folded assms(6), folded assms(7)])
    fix bc'' e
    assume r: "AddBlock G rnd txs bc = Some (bc'', Some e)" "untouched bc bc''" "bc_poh bc'' = Some q" "bc_Mempool bc'' = fst sel"
    have "(bc'', Some e) = (bc', err)" by (rule option.inject [THEN iffD1, OF trans [OF sym [OF r(1)] assms(5)]])
    then have "bc' = bc''" "err \<noteq> None" by (blast elim: Pair_inject)+
    with r(2-4) show ?thesis by (intro disjI1) metis
  next
    fix bc1 b
    assume d: "drafted G bc (last (bc_Chain bc)) q (bc_State bc) (snd sel) b" and acc: "acceptable G bc (last (bc_Chain bc)) b (bc_State bc)"
      and u: "untouched bc bc1" and p1: "bc_poh bc1 = Some q"
      and run: "AddBlock G rnd txs bc = commit_block G b (leader_view G bc (Slot q)) bc1"
      and chosen: "b_Transactions b = snd sel" "bc_Mempool bc1 = fst sel"
    have "fmlookup (bc_Blocks bc) (b_Hash b) = None \<longrightarrow> canonical_ok bc' \<and> bc_poh bc' = Some q \<and> bc_Mempool bc' = fst sel \<and>
        fmlookup (bc_Blocks bc') (b_Hash b) = Some b \<and> bc_CanonicalTip bc' \<in> {b_Hash b, bc_CanonicalTip bc}"
    proof
      assume fresh: "fmlookup (bc_Blocks bc) (b_Hash b) = None"
      obtain b2 e2 where r: "commit_block G b (leader_view G bc (Slot q)) bc1 = Some (b2, e2)" "canonical_ok b2"
        "fmlookup (bc_Blocks b2) (b_Hash b) = Some b" "bc_CanonicalTip b2 = b_Hash b \<or> bc_CanonicalTip b2 = bc_CanonicalTip bc"
        "bc_poh b2 = bc_poh bc1" "bc_Mempool b2 = bc_Mempool bc1"
        using commit_drafted [OF assms(1) u assms(4) d fresh] by blast
      have "(b2, e2) = (bc', err)"
        by (rule option.inject [THEN iffD1, OF trans [OF sym [OF r(1)] trans [OF sym [OF run] assms(5)]]])
      then have "b2 = bc'" by (rule Pair_inject)
      with r p1 chosen(2) show "canonical_ok bc' \<and> bc_poh bc' = Some q \<and> bc_Mempool bc' = fst sel \<and> fmlookup (bc_Blocks bc') (b_Hash b) = Some b \<and>
        bc_CanonicalTip bc' \<in> {b_Hash b, bc_CanonicalTip bc}" by simp
    qed
    moreover have "err \<in> {None, Some ErrEquivocation}"
      using commit_block_err assms(5) unfolding run by metis
    ultimately show ?thesis by (intro disjI2 conjI exI [of _ b] d acc chosen(1))
  qed
qed

theorem AddBlock_outcome_witness:
  "\<exists>bc' e. AddBlock demo_lib 0 [demo_tx ''bob'' 30 2 9] demo_live = Some (bc', Some e) \<and> bc_State bc' = rich"
proof -
  obtain bc' where r: "AddBlock demo_lib 0 [demo_tx ''bob'' 30 2 9] demo_live =
      Some (bc', Some (at_index ''nonce mismatch'' 0))"
    using demo_live_rejects by blast
  have "bc_Validators demo_live \<noteq> fmempty" "bc_poh demo_live = Some (NewPoH demo_seed)"
    using demo_live_ok(3) by (simp_all add: demo_live_fields)
  from AddBlock_outcome [OF demo_live_ok(1) this demo_live_ok(2) r refl refl]
  have "bc_State bc' = rich"
    by (simp add: untouched_def demo_live_fields at_index_def)
  with r show ?thesis by blast
qed

text \<open>
  C11: \<open>AddBlock\<close> returns on every well-formed chain, unless the hash of the block it drafts is the hash
  of a stored block, a collision of SHA-256.  The drafted block is a definite one: its parent is the tip, its
  transactions are those selected, its state root is that of the ledger after them.
\<close>

theorem AddBlock_returns:
  assumes "canonical_ok bc" "bc_Validators bc \<noteq> fmempty" "bc_poh bc = Some p" "chainTipSlot bc \<noteq> - 1"
    and "q = fst (Tick G p TicksPerSlot)"
    and "sel = selection bc (validatorRewardAddress G (bc_Validators bc) (leader_view G bc (Slot q))) txs"
  shows "(\<exists>r. AddBlock G rnd txs bc = Some r) \<or>
    (\<exists>b c. draft_of G bc (last (bc_Chain bc)) q (bc_State bc) (snd sel) = Some b \<and> fmlookup (bc_Blocks bc) (b_Hash b) = Some c)"
proof -
  have prev: "get_or zero_block (bc_Blocks bc) (bc_CanonicalTip bc) = last (bc_Chain bc)"
    by (rule canonical_tip_block [OF assms(1)])
  show ?thesis
  proof (rule AddBlock_cases [OF assms(2,3), of G rnd txs, unfolded prev, folded assms(5), folded assms(6)])
    fix bc1 b
    assume d: "drafted G bc (last (bc_Chain bc)) q (bc_State bc) (snd sel) b" and u: "untouched bc bc1"
      and run: "AddBlock G rnd txs bc = commit_block G b (leader_view G bc (Slot q)) bc1"
    show ?thesis
    proof (cases "fmlookup (bc_Blocks bc) (b_Hash b)")
      case None
      from commit_drafted [OF assms(1) u assms(4) d None] run show ?thesis by metis
    next
      case (Some c)
      with d show ?thesis by (intro disjI2 exI [of _ "b\<lparr>b_Signature := []\<rparr>"] exI [of _ c]) (simp add: drafted_def)
    qed
  qed blast
qed

theorem AddBlock_returns_witness:
  "\<exists>r. AddBlock demo_lib 0 [demo_tx ''bob'' 30 2 5] demo_live = Some r"
proof -
  have "bc_Validators demo_live \<noteq> fmempty" "bc_poh demo_live = Some (NewPoH demo_seed)"
    using demo_live_ok(3) by (simp_all add: demo_live_fields)
  from AddBlock_returns [OF demo_live_ok(1) this demo_live_ok(2) refl refl] show ?thesis
    using unstored_demo [of demo_live] by (fastforce simp: demo_live_fields unstored_def)
qed

definition slots_registered :: "('bs, 'ss) Blockchain \<Rightarrow> bool" where
  "slots_registered bc \<longleftrightarrow> (\<exists>p. bc_poh bc = Some p \<and> (\<forall>s. s |\<in>| fmdom (bc_SlotProducers bc) \<longrightarrow> s \<le> Slot p))"

text \<open>
  C22: a node never equivocates by itself.  When the producers registered so far belong to slots that the
  clock has passed, a call of \<open>AddBlock\<close>, with room on the clock and the hash of the block it makes not that
  of a stored block, records no equivocation, and the producers registered afterwards again belong to passed slots.
\<close>

theorem AddBlock_no_equivocation:
  assumes "canonical_ok bc" "bc_Validators bc \<noteq> fmempty" "bc_poh bc = Some p" "chainTipSlot bc \<noteq> - 1"
    and "slots_registered bc" "unat (p_CurrentTick p) + 20 < 2 ^ 64"
    and "fresh_block G txs bc"
  shows "\<exists>bc' err. AddBlock G rnd txs bc = Some (bc', err) \<and>
    bc_Equivocations bc' = bc_Equivocations bc \<and> slots_registered bc'"
proof -
  let ?q = "fst (Tick G p TicksPerSlot)"
  have "p_CurrentTick ?q = p_CurrentTick p + 20"
    using tick_power [of p 20 G] assms(6) by (simp add: Tick_power Let_def TicksPerSlot_def)
  then have "unat (p_CurrentTick ?q) = unat (p_CurrentTick p) + 20"
    using assms(6) by (simp add: unat_word_ariths)
  then have "unat (Slot ?q) = Suc (unat (Slot p))" by (simp add: unat_Slot)
  then have later: "Slot p < Slot ?q" by (simp add: word_less_nat_alt)
  have passed: "s \<le> Slot p" if "s |\<in>| fmdom (bc_SlotProducers bc)" for s
    using assms(3,5) that by (auto simp: slots_registered_def)
  have passed': "s \<le> Slot ?q" if "s |\<in>| fmdom (bc_SlotProducers bc)" for s
    using passed [OF that] later by (rule order_trans [OF _ less_imp_le])
  have free: "fmlookup (bc_SlotProducers bc) (Slot ?q) = None"
    using passed [of "Slot ?q"] later by (meson fmdom_notI fmdomI leD option.exhaust_sel)
  from assms(2,3) show ?thesis
  proof (cases rule: AddBlock_cases [where G = G and rnd = rnd and txs = txs])
    case (rejected bc' e)
    then have "slots_registered bc'"
      using passed' by (simp add: slots_registered_def untouched_def)
    with rejected show ?thesis by (auto simp: untouched_def)
  next
    case (committed bc1 b)
    note d = committed(1) [unfolded canonical_tip_block(1) [OF assms(1)]]
    have fresh: "fmlookup (bc_Blocks bc) (b_Hash b) = None"
      by (rule drafted_unstored [OF d]) (use assms(3,7) in \<open>simp add: fresh_block_def next_draft_def\<close>)
    from commit_drafted [OF assms(1) committed(3) assms(4) d fresh, of "leader_view G bc (Slot ?q)"]
    obtain bc' err where r: "commit_block G b (leader_view G bc (Slot ?q)) bc1 = Some (bc', err)" "bc_poh bc' = Some ?q"
      "bc_Equivocations bc' = bc_Equivocations bc" "fmdom (bc_SlotProducers bc') = finsert (Slot ?q) (fmdom (bc_SlotProducers bc))"
      using free committed(4) by auto
    have "slots_registered bc'"
      using r(2,4) passed' by (auto simp: slots_registered_def)
    with r committed(6) show ?thesis by auto
  qed
qed

theorem AddBlock_no_equivocation_witness:
  "\<exists>bc' err. AddBlock demo_lib 0 [] demo_live = Some (bc', err) \<and> bc_Equivocations bc' = []"
proof -
  have "bc_Validators demo_live \<noteq> fmempty" "bc_poh demo_live = Some (NewPoH demo_seed)" "slots_registered demo_live"
    using demo_live_ok(3) by (simp_all add: demo_live_fields slots_registered_def)
  from AddBlock_no_equivocation [OF demo_live_ok(1) this(1,2) demo_live_ok(2) this(3) _ demo_fresh_next, of 0] show ?thesis
    by (fastforce simp: demo_live_fields NewPoH_def)
qed

text \<open>\<open>pays G bc addr txs\<close>: the transactions of the block are valid, given by the caller or left to a well-formed pool.\<close>

definition pays :: "golib \<Rightarrow> ('bs, 'ss) Blockchain \<Rightarrow> string \<Rightarrow> Transaction list \<Rightarrow> bool" where
  "pays G bc addr txs \<longleftrightarrow> (case bc_Mempool bc of
     Some m \<Rightarrow> (if txs = [] then mempool_ok G m
       else VerifyTransactions G txs = None \<and> (\<exists>s. ApplyTransactions (bc_State bc) txs addr = Inr s))
   | None \<Rightarrow> VerifyTransactions G txs = None \<and> (\<exists>s. ApplyTransactions (bc_State bc) txs addr = Inr s))"

lemma selection_pays:
  assumes "pays G bc addr txs"
  shows "VerifyTransactions G (snd (selection bc addr txs)) = None \<and>
    (\<exists>s. ApplyTransactions (bc_State bc) (snd (selection bc addr txs)) addr = Inr s)"
proof (cases "txs = [] \<and> bc_Mempool bc \<noteq> None")
  case True
  then obtain m where m: "bc_Mempool bc = Some m" "mempool_ok G m" using assms by (auto simp: pays_def)
  obtain m' ts where pop: "PopForBlock m (bc_State bc) (cfg_MaxBlockTxs (bc_Config bc)) addr = (m', ts)" by fastforce
  have "set ts \<subseteq> set (mp_list m)"
    using PopForBlock_ok [OF m(2) pop] by (metis mset_subset_eq_add_left set_mset_mono set_mset_mset)
  then have "VerifyTransactions G ts = None" using m(2) by (auto simp: VerifyTransactions_None mempool_ok_def)
  with True PopForBlock_ok [OF m(2) pop] pop m(1) show ?thesis by (simp add: selection_def)
next
  case False
  with assms show ?thesis by (auto simp: pays_def selection_def split: option.splits if_splits)
qed

lemma AddBlock_produces:
  assumes "canonical_ok bc" "bc_poh bc = Some p" "chainTipSlot bc \<noteq> - 1" "ecdsa_correct G"
    and "q = fst (Tick G p TicksPerSlot)" "leader = leader_view G bc (Slot q)"
    and "fmlookup (bc_Validators bc) leader = Some v" "can_sign G rnd v" "bc_blockStore bc = None"
    and "fmlookup (bc_SlotProducers bc) (Slot q) = None"
    and "fresh_block G txs bc"
    and "addr = validatorRewardAddress G (bc_Validators bc) leader" "pays G bc addr txs"
  shows "\<exists>bc' b. AddBlock G rnd txs bc = Some (bc', None) \<and> canonical_ok bc' \<and> drafted G bc (last (bc_Chain bc)) q (bc_State bc) (snd (selection bc addr txs)) b \<and>
    bc_Blocks bc' = fmupd (b_Hash b) b (bc_Blocks bc) \<and>
    (bc_Mempool bc', b_Transactions b) = selection bc addr txs \<and>
    bc_Chain bc' = (if adoptable bc (bc_Chain bc @ [b]) then bc_Chain bc @ [b] else bc_Chain bc) \<and>
    bc_FinalizedSlot bc' = (if adoptable bc (bc_Chain bc @ [b]) then final_slot bc (Slot q) else bc_FinalizedSlot bc) \<and>
    bc_poh bc' = Some q \<and> setup_kept bc bc' \<and> fmdom (bc_SlotProducers bc') = finsert (Slot q) (fmdom (bc_SlotProducers bc))"
proof -
  let ?prev = "last (bc_Chain bc)" and ?ts = "snd (selection bc addr txs)"
  have prev: "get_or zero_block (bc_Blocks bc) (bc_CanonicalTip bc) = ?prev" by (rule canonical_tip_block [OF assms(1)])
  have nonempty: "bc_Validators bc \<noteq> fmempty" using assms(7) by auto
  obtain bc2 where u2: "untouched bc bc2" and v2: "same_view bc bc2" and p2: "bc_poh bc2 = Some q"
    and m2: "bc_Mempool bc2 = fst (selection bc addr txs)"
    and run: "AddBlock G rnd txs bc = (case VerifyTransactions G ?ts of
      Some e \<Rightarrow> Some (slash leader bc2, Some e)
    | None \<Rightarrow> (case ApplyTransactions (bc_State bc2) ?ts addr of
        Inl e \<Rightarrow> Some (slash leader bc2, Some e)
      | Inr nextState \<Rightarrow> do {
          (bc, hash, err) \<leftarrow> seal_block G rnd ?prev (bc_State bc2) (draft_block G ?prev (Slot q) q leader ?ts nextState) leader bc2;
          Some (bc, err) }))"
    by (rule AddBlock_run [OF nonempty assms(2), of G txs rnd, unfolded prev, folded assms(5), folded assms(6), folded assms(12)])
  from selection_pays [OF assms(13)] obtain nextState where
    ts: "VerifyTransactions G ?ts = None" "ApplyTransactions (bc_State bc) ?ts addr = Inr nextState" by blast
  have state2: "bc_State bc2 = bc_State bc" "bc_Validators bc2 = bc_Validators bc" "bc_blockStore bc2 = None"
    using u2 v2 assms(9) by (simp_all add: untouched_def same_view_def)
  have leader2: "leader_view G bc2 (Slot q) = leader" using leader_same_view [OF v2] assms(6) by simp
  obtain b bc3 where b: "drafted G bc2 ?prev q (bc_State bc) ?ts b" "b_Transactions b = ?ts" "only_snapshots bc2 bc3"
    and seal: "seal_block G rnd ?prev (bc_State bc) (draft_block G ?prev (Slot q) q leader ?ts nextState) leader bc2 =
      do { (bc', eqErr) \<leftarrow> commit_block G b leader bc3; Some (bc', b_Hash b, eqErr) }"
    using seal_block_commits [OF assms(4) _ assms(8) state2(3) leader2 ts(1), of "bc_State bc" nextState ?prev]
      assms(7,12) ts(2) by (simp add: state2) blast
  have d: "drafted G bc ?prev q (bc_State bc) ?ts b" using b(1) by (simp add: drafted_same_view [OF v2])
  have u3: "untouched bc bc3" by (rule untouched_trans [OF u2 untouched_only [OF b(3)]])
  have fresh: "fmlookup (bc_Blocks bc) (b_Hash b) = None"
    by (rule drafted_unstored [OF d]) (use assms(2,5,6,11,12) in \<open>simp add: fresh_block_def next_draft_def\<close>)
  from commit_drafted [OF assms(1) u3 assms(3) d fresh, of leader] assms(10)
  obtain bc' where c: "commit_block G b leader bc3 = Some (bc', None)" "canonical_ok bc'"
    "bc_Blocks bc' = fmupd (b_Hash b) b (bc_Blocks bc)" "bc_poh bc' = bc_poh bc3" "setup_kept bc3 bc'" "bc_Mempool bc' = bc_Mempool bc3"
    "fmdom (bc_SlotProducers bc') = finsert (Slot q) (fmdom (bc_SlotProducers bc))" by auto
  note commit_drafted_extends [OF assms(1) u3 same_view_trans [OF v2 same_view_only [OF b(3)]] assms(3) d fresh assms(10) c(1)]
  moreover have "AddBlock G rnd txs bc = Some (bc', None)" using c(1) seal ts by (simp add: run state2)
  moreover have "bc_poh bc' = Some q" "(bc_Mempool bc', b_Transactions b) = selection bc addr txs"
    using c(4,6) p2 m2 b(2) only_snapshots_frame(7,18) [OF b(3)] by simp_all
  moreover have "setup_kept bc bc'" by (rule setup_kept_trans [OF setup_kept_untouched [OF u3] c(5)])
  ultimately show ?thesis using c(2,3,7) d by blast
qed

text \<open>
  C10: \<open>AddBlock\<close> succeeds when it should.  If the slot's leader is a registered validator that can sign, no
  block store is attached, no producer is registered for the slot yet, the hash of the block it makes is not that
  of a stored block, and the transactions are either valid ones given by the caller or selected from a well-formed
  pool, then it returns without an error, stores a block by that leader with these transactions on the old tip,
  leaves the rest in the pool and keeps the chain well-formed.  The block extends the canonical chain, and moves
  finality along, exactly when the chain accepts its weight (\<open>adoptable\<close>); otherwise the chain stays.
\<close>

theorem AddBlock_succeeds:
  assumes "canonical_ok bc" "bc_poh bc = Some p" "chainTipSlot bc \<noteq> - 1" "ecdsa_correct G"
    and "q = fst (Tick G p TicksPerSlot)" "leader = leader_view G bc (Slot q)"
    and "fmlookup (bc_Validators bc) leader = Some v" "can_sign G rnd v" "bc_blockStore bc = None"
    and "fmlookup (bc_SlotProducers bc) (Slot q) = None"
    and "fresh_block G txs bc"
    and "addr = validatorRewardAddress G (bc_Validators bc) leader" "pays G bc addr txs"
  shows "\<exists>bc' b. AddBlock G rnd txs bc = Some (bc', None) \<and> canonical_ok bc' \<and>
    fmlookup (bc_Blocks bc') (b_Hash b) = Some b \<and> b_PrevHash b = bc_CanonicalTip bc \<and> b_Validator b = leader \<and>
    (bc_Mempool bc', b_Transactions b) = selection bc addr txs \<and>
    bc_Chain bc' = (if adoptable bc (bc_Chain bc @ [b]) then bc_Chain bc @ [b] else bc_Chain bc) \<and>
    bc_FinalizedSlot bc' = (if adoptable bc (bc_Chain bc @ [b]) then final_slot bc (Slot q) else bc_FinalizedSlot bc)"
proof -
  obtain bc' b where r: "AddBlock G rnd txs bc = Some (bc', None)" "canonical_ok bc'" "drafted G bc (last (bc_Chain bc)) q (bc_State bc) (snd (selection bc addr txs)) b"
    "bc_Blocks bc' = fmupd (b_Hash b) b (bc_Blocks bc)" "(bc_Mempool bc', b_Transactions b) = selection bc addr txs"
    "bc_Chain bc' = (if adoptable bc (bc_Chain bc @ [b]) then bc_Chain bc @ [b] else bc_Chain bc)"
    "bc_FinalizedSlot bc' = (if adoptable bc (bc_Chain bc @ [b]) then final_slot bc (Slot q) else bc_FinalizedSlot bc)"
    using AddBlock_produces [OF assms] by blast
  have "b_PrevHash b = bc_CanonicalTip bc" "b_Validator b = leader"
    using draftedD [OF r(3)] canonical_tip_block(2) [OF assms(1)] assms(6) by simp_all
  moreover have "fmlookup (bc_Blocks bc') (b_Hash b) = Some b" by (simp add: r(4))
  ultimately show ?thesis using r by blast
qed

theorem AddBlock_succeeds_witness:
  "\<exists>bc' b. AddBlock demo_lib 0 [demo_tx ''bob'' 30 2 5] demo_live = Some (bc', None) \<and>
    fmlookup (bc_Blocks bc') (b_Hash b) = Some b \<and> b_Validator b = ''alice'' \<and> b_Transactions b = [demo_tx ''bob'' 30 2 5]"
proof -
  let ?q = "fst (Tick demo_lib (NewPoH demo_seed) TicksPerSlot)"
  have hyps: "bc_poh demo_live = Some (NewPoH demo_seed)"
    "fmlookup (bc_Validators demo_live) ''alice'' = Some (demo_validator ''alice'' 200)"
    "bc_blockStore demo_live = None" "fmlookup (bc_SlotProducers demo_live) (Slot ?q) = None"
    by (auto simp: demo_live_fields)
  have txs: "VerifyTransactions demo_lib [demo_tx ''bob'' 30 2 5] = None"
    "\<exists>s. ApplyTransactions (bc_State demo_live) [demo_tx ''bob'' 30 2 5] addr = Inr s" for addr
    by (simp_all add: VerifyTransactions_None demo_live_fields rich_applied)
  from AddBlock_succeeds [OF demo_live_ok(1) hyps(1) demo_live_ok(2) demo_ecdsa_correct refl demo_leader [symmetric] hyps(2)
      alice_signs hyps(3,4) demo_fresh_next refl, of "[demo_tx ''bob'' 30 2 5]"] txs show ?thesis
    by (fastforce simp: demo_live_fields pays_def selection_given)
qed

end
