(* ===== verification/Penalties.thy ===== *)
theory Penalties
  imports Production
begin

text \<open>
  The two ways to be punished, in \<open>core/blockchain.go\<close>: equivocation (\<open>registerSlotProducer\<close>,
  \<open>handleEquivocation\<close>) and missed slots (\<open>processMissedSlots\<close>).  \<open>register_all\<close> registers the
  producers of a sequence of blocks; \<open>conflict\<close> and \<open>miss_count\<close> say from the blocks alone what
  the register and the counters must hold.
\<close>

section \<open>Equivocation\<close>

definition first_hash :: "u64 \<Rightarrow> string \<Rightarrow> Block list \<Rightarrow> string option" where
  "first_hash s v bs = (case filter (\<lambda>b. b_Slot b = s \<and> b_Validator b = v) bs of [] \<Rightarrow> None | b # _ \<Rightarrow> Some (b_Hash b))"

lemma first_hash_snoc: "first_hash s v (bs @ [b]) = (case first_hash s v bs of Some h \<Rightarrow> Some h
    | None \<Rightarrow> if b_Slot b = s \<and> b_Validator b = v then Some (b_Hash b) else None)"
  by (auto simp: first_hash_def split: list.split)

lemma first_hash_None: "first_hash s v bs = None \<longleftrightarrow> (\<forall>b\<in>set bs. \<not> (b_Slot b = s \<and> b_Validator b = v))"
proof -
  have "first_hash s v bs = None \<longleftrightarrow> filter (\<lambda>b. b_Slot b = s \<and> b_Validator b = v) bs = []"
    by (simp add: first_hash_def split: list.split)
  then show ?thesis by (simp add: filter_empty_conv)
qed

lemma first_hash_Some: "first_hash s v bs = Some h \<Longrightarrow> \<exists>b\<in>set bs. b_Slot b = s \<and> b_Validator b = v \<and> b_Hash b = h"
  by (auto simp: first_hash_def filter_eq_Cons_iff split: list.splits)

definition register_all :: "Block list \<Rightarrow> ('bs, 'ss) Blockchain \<Rightarrow> ('bs, 'ss) Blockchain" where
  "register_all bs bc = fold (\<lambda>b bc. fst (registerSlotProducer b bc)) bs bc"

definition producer_of :: "('bs, 'ss) Blockchain \<Rightarrow> u64 \<Rightarrow> string \<Rightarrow> string option" where
  "producer_of bc s v = fmlookup (get_or fmempty (bc_SlotProducers bc) s) v"

lemma register_view:
  "producer_of (fst (registerSlotProducer b bc)) s v = (case producer_of bc s v of Some h \<Rightarrow> Some h
    | None \<Rightarrow> if b_Slot b = s \<and> b_Validator b = v then Some (b_Hash b) else None)"
  by (auto simp: registerSlotProducer_def handleEquivocation_def ensureStats_def set_stats_def slash_percent_def
      producer_of_def get_or_def Let_def split: option.splits)

lemma register_proofs:
  "bc_Equivocations (fst (registerSlotProducer b bc)) = bc_Equivocations bc @
    (case producer_of bc (b_Slot b) (b_Validator b) of None \<Rightarrow> []
     | Some h \<Rightarrow> if h = b_Hash b then [] else
        [\<lparr>ep_Slot = b_Slot b, ep_Validator = b_Validator b, ep_BlockA = h, ep_BlockB = b_Hash b\<rparr>])"
  by (auto simp: registerSlotProducer_def handleEquivocation_def ensureStats_def set_stats_def slash_percent_def
      producer_of_def get_or_def Let_def split: option.splits)

lemma register_all_snoc: "register_all (bs @ [b]) bc = fst (registerSlotProducer b (register_all bs bc))"
  by (simp add: register_all_def)

lemma register_all_producer:
  assumes "bc_SlotProducers bc = fmempty"
  shows "producer_of (register_all bs bc) s v = first_hash s v bs"
proof (induction bs rule: rev_induct)
  case Nil
  show ?case using assms by (simp add: register_all_def producer_of_def first_hash_def get_or_def)
next
  case (snoc b bs)
  then show ?case by (simp add: register_all_snoc register_view first_hash_snoc)
qed

definition conflict :: "u64 \<Rightarrow> string \<Rightarrow> Block list \<Rightarrow> bool" where
  "conflict s v bs \<longleftrightarrow> (\<exists>b\<in>set bs. \<exists>c\<in>set bs. b_Slot b = s \<and> b_Slot c = s \<and> b_Validator b = v \<and> b_Validator c = v \<and> b_Hash b \<noteq> b_Hash c)"

lemma conflict_mono: "set bs \<subseteq> set cs \<Longrightarrow> conflict s v bs \<Longrightarrow> conflict s v cs"
  unfolding conflict_def by (meson subsetD)

lemma conflict_snoc: "conflict s v (bs @ [b]) \<longleftrightarrow> conflict s v bs \<or>
    (b_Slot b = s \<and> b_Validator b = v \<and> (\<exists>h. first_hash s v bs = Some h \<and> h \<noteq> b_Hash b))"
    (is "?new \<longleftrightarrow> ?old \<or> ?clash")
proof (cases "first_hash s v bs")
  case None
  with first_hash_None [of s v bs] show ?thesis by (auto simp: conflict_def)
next
  case (Some h)
  then obtain d where d: "d \<in> set bs" "b_Slot d = s" "b_Validator d = v" "b_Hash d = h" by (blast dest: first_hash_Some)
  have "?old \<or> ?clash" if new: ?new
  proof (rule ccontr)
    assume neg: "\<not> (?old \<or> ?clash)"
    then have same: "b_Hash c = h" if "c \<in> set bs" "b_Slot c = s" "b_Validator c = v" for c
      using d that unfolding conflict_def by metis
    moreover have "b_Slot b = s \<Longrightarrow> b_Validator b = v \<Longrightarrow> b_Hash b = h" using neg Some by auto
    ultimately have "b_Hash c = h" if "c \<in> set (bs @ [b])" "b_Slot c = s" "b_Validator c = v" for c
      using that by auto
    then have "b_Hash x = b_Hash y" if "x \<in> set (bs @ [b])" "y \<in> set (bs @ [b])" "b_Slot x = s" "b_Slot y = s"
        "b_Validator x = v" "b_Validator y = v" for x y using that by metis
    with new show False unfolding conflict_def by blast
  qed
  moreover have ?new if ?old by (rule conflict_mono [OF _ that]) auto
  moreover have ?new if ?clash
    unfolding conflict_def using that d Some by (intro bexI [of _ b] bexI [of _ d]) auto
  ultimately show ?thesis by blast
qed

definition genuine :: "Block list \<Rightarrow> EquivocationProof \<Rightarrow> bool" where
  "genuine bs p \<longleftrightarrow> (\<exists>b\<in>set bs. \<exists>c\<in>set bs. b_Slot b = ep_Slot p \<and> b_Slot c = ep_Slot p \<and>
     b_Validator b = ep_Validator p \<and> b_Validator c = ep_Validator p \<and>
     b_Hash b = ep_BlockA p \<and> b_Hash c = ep_BlockB p \<and> ep_BlockA p \<noteq> ep_BlockB p)"

definition marked :: "('bs, 'ss) Blockchain \<Rightarrow> string \<Rightarrow> bool" where
  "marked bc v \<longleftrightarrow> (\<exists>st s. bc_Stats bc = Some st \<and> fmlookup st v = Some s \<and> vs_Slashed s)"

lemma register_marks:
  "marked bc v \<Longrightarrow> marked (fst (registerSlotProducer b bc)) v"
  "\<lbrakk>producer_of bc (b_Slot b) (b_Validator b) = Some h; h \<noteq> b_Hash b\<rbrakk> \<Longrightarrow> marked (fst (registerSlotProducer b bc)) (b_Validator b)"
  by (auto simp: marked_def registerSlotProducer_def handleEquivocation_def ensureStats_def set_stats_def slash_percent_def
      producer_of_def get_or_def Let_def split: option.splits)

lemma register_all_step:
  assumes "bc_SlotProducers bc = fmempty"
  shows "bc_Equivocations (register_all (bs @ [b]) bc) = bc_Equivocations (register_all bs bc) @
    (case first_hash (b_Slot b) (b_Validator b) bs of None \<Rightarrow> []
     | Some h \<Rightarrow> if h = b_Hash b then [] else
        [\<lparr>ep_Slot = b_Slot b, ep_Validator = b_Validator b, ep_BlockA = h, ep_BlockB = b_Hash b\<rparr>])"
  using register_all_producer [OF assms] by (simp add: register_all_snoc register_proofs)

lemma proofs_genuine:
  assumes "bc_SlotProducers bc = fmempty" "bc_Equivocations bc = []" "p \<in> set (bc_Equivocations (register_all bs bc))"
  shows "genuine bs p \<and> marked (register_all bs bc) (ep_Validator p)"
  using assms(3)
proof (induction bs rule: rev_induct)
  case Nil
  then show ?case using assms(2) by (simp add: register_all_def)
next
  case (snoc b bs)
  from snoc.prems consider "p \<in> set (bc_Equivocations (register_all bs bc))"
    | h where "first_hash (b_Slot b) (b_Validator b) bs = Some h" "h \<noteq> b_Hash b"
        "p = \<lparr>ep_Slot = b_Slot b, ep_Validator = b_Validator b, ep_BlockA = h, ep_BlockB = b_Hash b\<rparr>"
    by (cases "first_hash (b_Slot b) (b_Validator b) bs") (auto simp: register_all_step [OF assms(1)] split: if_splits)
  then show ?case
  proof cases
    case 1
    with snoc.IH register_marks(1) show ?thesis by (auto simp: genuine_def register_all_snoc)
  next
    case (2 h)
    have "marked (register_all (bs @ [b]) bc) (b_Validator b)"
      unfolding register_all_snoc
      by (rule register_marks(2)) (use register_all_producer [OF assms(1)] 2(1,2) in simp_all)
    with 2 first_hash_Some [OF 2(1)] show ?thesis by (fastforce simp: genuine_def)
  qed
qed

text \<open>
  C23: equivocation is detected exactly.  After any sequence of blocks has been registered, a proof of
  equivocation for a slot and a validator is on record if and only if two of the blocks have that slot,
  that validator and different hashes.  Every recorded proof names the hashes of two such blocks, and the
  validator it names is marked as slashed in the statistics.
\<close>

theorem equivocation_recorded:
  assumes "bc_SlotProducers bc = fmempty" "bc_Equivocations bc = []"
  shows "(conflict s v bs \<longleftrightarrow> (\<exists>p\<in>set (bc_Equivocations (register_all bs bc)). ep_Slot p = s \<and> ep_Validator p = v)) \<and>
    (\<forall>p\<in>set (bc_Equivocations (register_all bs bc)). genuine bs p \<and> marked (register_all bs bc) (ep_Validator p))"
proof -
  have "conflict s v bs \<longleftrightarrow> (\<exists>p\<in>set (bc_Equivocations (register_all bs bc)). ep_Slot p = s \<and> ep_Validator p = v)"
  proof (induction bs rule: rev_induct)
    case Nil
    show ?case using assms(2) by (simp add: register_all_def conflict_def)
  next
    case (snoc b bs)
    show ?case
      unfolding conflict_snoc snoc register_all_step [OF assms(1)]
      by (cases "first_hash (b_Slot b) (b_Validator b) bs") auto
  qed
  with proofs_genuine [OF assms] show ?thesis by blast
qed


theorem equivocation_recorded_witness:
  "\<exists>p\<in>set (bc_Equivocations (register_all [child_block ''x'' ''g'' 4 ''bob'', child_block ''y'' ''g'' 4 ''bob''] demo_bc)).
    ep_Slot p = 4 \<and> ep_Validator p = ''bob''"
proof -
  have "bc_SlotProducers demo_bc = fmempty" "bc_Equivocations demo_bc = []" by (simp_all add: demo_bc_def)
  from equivocation_recorded [OF this, of 4 "''bob''" "[child_block ''x'' ''g'' 4 ''bob'', child_block ''y'' ''g'' 4 ''bob'']"]
  show ?thesis by (simp add: conflict_def)
qed

section \<open>Missed slots\<close>

text \<open>
  \<open>misses G bc v slot\<close>: \<open>v\<close> leads the slot and the canonical chain has no block of \<open>v\<close> there.  The
  lemmas are about slots whose epoch has its snapshot (\<open>known\<close>), so that leaders do not
  depend on penalties of the same run.
\<close>

definition counters_ok :: "('bs, 'ss) Blockchain \<Rightarrow> bool" where
  "counters_ok bc \<longleftrightarrow> (\<forall>st n s. bc_Stats bc = Some st \<and> fmlookup st n = Some s \<longrightarrow> vs_MissedSlots s \<le> MaxMissedSlots)"

definition missed_of :: "('bs, 'ss) Blockchain \<Rightarrow> string \<Rightarrow> u64" where
  "missed_of bc v = (case bc_Stats bc of None \<Rightarrow> 0 | Some st \<Rightarrow> vs_MissedSlots (get_or zero_stats st v))"

definition misses :: "golib \<Rightarrow> ('bs, 'ss) Blockchain \<Rightarrow> string \<Rightarrow> u64 \<Rightarrow> bool" where
  "misses G bc v slot \<longleftrightarrow> leader_view G bc slot = v \<and> v \<noteq> ''genesis'' \<and> get_or [] (bc_SlotProduced bc) slot \<noteq> v"

definition penalty :: "string \<Rightarrow> validators \<Rightarrow> validators" where
  "penalty v vs = SlashValidatorPercent vs v SlashPercent"

lemma penalty_local:
  "fmlookup vs v = fmlookup ws v \<Longrightarrow> fmlookup (penalty v vs) v = fmlookup (penalty v ws) v"
  "u \<noteq> v \<Longrightarrow> fmlookup (penalty u vs) v = fmlookup vs v"
  by (auto simp: penalty_def SlashValidatorPercent_def SlashValidator_def Let_def split: option.splits)

lemma missed_step_skips:
  assumes "fmlookup (bc_snapshots bc) (epochForSlot slot bc) = Some sn" "\<not> misses G bc (leader_view G bc slot) slot"
  shows "missed_step G slot bc = bc"
  using assms by (auto simp: missed_step_def leaderForSlot_view ensureSnapshot_again misses_def Let_def)

lemma missed_step_counts:
  assumes "fmlookup (bc_snapshots bc) (epochForSlot slot bc) = Some sn" "misses G bc l slot"
  defines "st \<equiv> (case bc_Stats bc of None \<Rightarrow> fmempty | Some st \<Rightarrow> st)" and "m \<equiv> missed_of bc l + 1"
  shows "\<exists>s. vs_MissedSlots s = (if MaxMissedSlots < m then 0 else m) \<and>
    (MaxMissedSlots < m \<longrightarrow> vs_JailedUntilEpoch s = slot div SlotsPerEpoch + JailEpochs) \<and>
    missed_step G slot bc = bc\<lparr>bc_Stats := Some (fmupd l s st),
      bc_Validators := (if MaxMissedSlots < m then penalty l (bc_Validators bc) else bc_Validators bc)\<rparr>"
proof -
  let ?s = "(get_or zero_stats st l)\<lparr>vs_MissedSlots := m\<rparr>"
  let ?t = "?s\<lparr>vs_MissedSlots := 0, vs_JailedUntilEpoch := slot div SlotsPerEpoch + JailEpochs\<rparr>"
  have l: "leader_view G bc slot = l" using assms(2) by (simp add: misses_def)
  have m: "vs_MissedSlots (get_or zero_stats st l) + 1 = m"
    by (simp add: m_def missed_of_def st_def get_or_def split: option.split)
  have again: "fmupd l a (fmupd l b st) = fmupd l a st" for a b by (rule fmap_ext) simp
  have "missed_step G slot bc = bc\<lparr>bc_Stats := Some (fmupd l (if MaxMissedSlots < m then ?t else ?s) st),
      bc_Validators := (if MaxMissedSlots < m then penalty l (bc_Validators bc) else bc_Validators bc)\<rparr>"
    using assms(2) m
    by (cases "fmlookup st l")
      (simp_all add: missed_step_def leaderForSlot_view ensureSnapshot_again [OF assms(1)] misses_def l Let_def
        ensureStats_def set_stats_def slash_percent_def penalty_def again get_or_def flip: st_def)
  then show ?thesis
    by (intro exI [of _ "if MaxMissedSlots < m then ?t else ?s"]) simp
qed

lemma missed_of_bound: "counters_ok bc \<Longrightarrow> missed_of bc v \<le> 3"
  by (auto simp: missed_of_def counters_ok_def get_or_def MaxMissedSlots_def split: option.split)

definition known :: "('bs, 'ss) Blockchain \<Rightarrow> u64 \<Rightarrow> bool" where
  "known bc slot \<longleftrightarrow> fmlookup (bc_snapshots bc) (epochForSlot slot bc) \<noteq> None"

definition miss_count :: "golib \<Rightarrow> ('bs, 'ss) Blockchain \<Rightarrow> string \<Rightarrow> u64 \<Rightarrow> nat" where
  "miss_count G bc v slot = unat (missed_of bc v) + (if misses G bc v slot then 1 else 0)"

lemma missed_step_view:
  assumes "known bc slot" "counters_ok bc"
  shows "unat (missed_of (missed_step G slot bc) v) = miss_count G bc v slot mod 4 \<and>
    fmlookup (bc_Validators (missed_step G slot bc)) v = fmlookup ((penalty v ^^ (miss_count G bc v slot div 4)) (bc_Validators bc)) v"
    "counters_ok (missed_step G slot bc)"
proof -
  obtain sn where sn: "fmlookup (bc_snapshots bc) (epochForSlot slot bc) = Some sn" using assms(1) by (auto simp: known_def)
  let ?l = "leader_view G bc slot"
  have bound: "unat (missed_of bc w) \<le> 3" for w
    using missed_of_bound [OF assms(2), of w] by (simp add: word_le_nat_alt)
  have "(unat (missed_of (missed_step G slot bc) v) = miss_count G bc v slot mod 4 \<and>
    fmlookup (bc_Validators (missed_step G slot bc)) v = fmlookup ((penalty v ^^ (miss_count G bc v slot div 4)) (bc_Validators bc)) v) \<and>
    counters_ok (missed_step G slot bc)"
  proof (cases "misses G bc ?l slot")
    case False
    then have "\<not> misses G bc v slot" by (auto simp: misses_def)
    then show ?thesis using missed_step_skips [OF sn False] bound [of v] assms(2) by (simp add: miss_count_def)
  next
    case True
    let ?m = "missed_of bc ?l + 1"
    from missed_step_counts [OF sn True] obtain s where s: "vs_MissedSlots s = (if MaxMissedSlots < ?m then 0 else ?m)"
      and run: "missed_step G slot bc = bc\<lparr>bc_Stats := Some (fmupd ?l s (case bc_Stats bc of None \<Rightarrow> fmempty | Some st \<Rightarrow> st)),
        bc_Validators := (if MaxMissedSlots < ?m then penalty ?l (bc_Validators bc) else bc_Validators bc)\<rparr>"
      by blast
    have m: "unat ?m = Suc (unat (missed_of bc ?l))" using bound [of ?l] by (simp add: unat_word_ariths)
    then have full: "MaxMissedSlots < ?m \<longleftrightarrow> unat (missed_of bc ?l) = 3"
      using bound [of ?l] by (auto simp: MaxMissedSlots_def word_less_nat_alt)
    have ok: "counters_ok (missed_step G slot bc)"
      using assms(2) s unfolding run by (auto simp: counters_ok_def not_less split: option.splits if_splits)
    show ?thesis
    proof (cases "v = ?l")
      case False
      then have "\<not> misses G bc v slot" by (auto simp: misses_def)
      then show ?thesis
        using False bound [of v] ok unfolding run
        by (auto simp: miss_count_def missed_of_def get_or_def penalty_local(2) split: option.split)
    next
      case eq: True
      have "miss_count G bc v slot = Suc (unat (missed_of bc ?l))" using True eq by (simp add: miss_count_def)
      moreover have "missed_of (missed_step G slot bc) v = vs_MissedSlots s"
        by (simp add: run eq missed_of_def get_or_def)
      moreover have "bc_Validators (missed_step G slot bc) =
          (if unat (missed_of bc ?l) = 3 then penalty ?l (bc_Validators bc) else bc_Validators bc)"
        by (simp add: run full)
      ultimately show ?thesis using s m full bound [of ?l] ok eq by auto
    qed
  qed
  then show "unat (missed_of (missed_step G slot bc) v) = miss_count G bc v slot mod 4 \<and>
    fmlookup (bc_Validators (missed_step G slot bc)) v = fmlookup ((penalty v ^^ (miss_count G bc v slot div 4)) (bc_Validators bc)) v"
    "counters_ok (missed_step G slot bc)"
    by blast+
qed

lemma missed_step_known:
  assumes "known bc slot"
  shows "bc_snapshots (missed_step G slot bc) = bc_snapshots bc"
    "known (missed_step G slot bc) s = known bc s"
    "known bc s \<Longrightarrow> misses G (missed_step G slot bc) v s = misses G bc v s"
proof -
  obtain sn where sn: "fmlookup (bc_snapshots bc) (epochForSlot slot bc) = Some sn" using assms by (auto simp: known_def)
  show snap: "bc_snapshots (missed_step G slot bc) = bc_snapshots bc"
  proof (cases "misses G bc (leader_view G bc slot) slot")
    case False
    with missed_step_skips [OF sn] show ?thesis by metis
  next
    case True
    from missed_step_counts [OF sn True] show ?thesis by auto
  qed
  have same: "bc_Config (missed_step G slot bc) = bc_Config bc" "bc_SlotProduced (missed_step G slot bc) = bc_SlotProduced bc"
    using missed_step_books [of bc G slot] by (simp_all add: books_only_def)
  show "known (missed_step G slot bc) s = known bc s" by (simp add: known_def snap same epochForSlot_def)
  show "misses G (missed_step G slot bc) v s = misses G bc v s" if "known bc s"
    using that by (auto simp: misses_def leader_view_def snap_view_def snap same known_def epochForSlot_def)
qed

lemma penalty_pow_local:
  "fmlookup vs v = fmlookup ws v \<Longrightarrow> fmlookup ((penalty v ^^ n) vs) v = fmlookup ((penalty v ^^ n) ws) v"
  by (induction n) (auto intro: penalty_local)

lemma missed_fold_view:
  assumes "\<forall>s\<in>set slots. known bc s" "counters_ok bc"
  shows "let bc' = fold (missed_step G) slots bc; n = unat (missed_of bc v) + length (filter (misses G bc v) slots) in
    counters_ok bc' \<and> unat (missed_of bc' v) = n mod 4 \<and>
    fmlookup (bc_Validators bc') v = fmlookup ((penalty v ^^ (n div 4)) (bc_Validators bc)) v"
  using assms
proof (induction slots arbitrary: bc)
  case Nil
  with missed_of_bound [of bc v] show ?case by (simp add: Let_def word_le_nat_alt)
next
  case (Cons s slots)
  let ?bc = "missed_step G s bc" and ?f = "length (filter (misses G bc v) slots)"
  have k: "known bc s" "\<forall>x\<in>set slots. known bc x" using Cons.prems(1) by auto
  note view = missed_step_view [OF k(1) Cons.prems(2)]
  have "\<forall>x\<in>set slots. known ?bc x" using k by (simp add: missed_step_known)
  note IH = Cons.IH [OF this view(2)]
  have f: "filter (misses G ?bc v) slots = filter (misses G bc v) slots"
    by (rule filter_cong) (use k in \<open>simp_all add: missed_step_known\<close>)
  define c where "c = miss_count G bc v s"
  have n: "unat (missed_of bc v) + length (filter (misses G bc v) (s # slots)) = c + ?f"
    by (simp add: c_def miss_count_def)
  have m: "unat (missed_of ?bc v) = c mod 4" using view(1) by (simp add: c_def)
  have "(c mod 4 + ?f) mod 4 = (c + ?f) mod 4" by presburger
  moreover have "(c + ?f) div 4 = (c mod 4 + ?f) div 4 + c div 4" by presburger
  moreover have "fmlookup ((penalty v ^^ k) (bc_Validators ?bc)) v = fmlookup ((penalty v ^^ (k + c div 4)) (bc_Validators bc)) v" for k
    unfolding funpow_add comp_apply by (rule penalty_pow_local) (use view(1) in \<open>simp add: c_def\<close>)
  ultimately show ?case
    using IH unfolding n Let_def f m by simp
qed

lemma penalty_pow_lowers:
  "validators_ok vs \<Longrightarrow> validators_ok ((penalty v ^^ n) vs) \<and> lowered (fmlookup vs v) (fmlookup ((penalty v ^^ n) vs) v)"
proof (induction n)
  case (Suc n)
  then show ?case
    using slash_percent.op_ok [of "(penalty v ^^ n) vs" v] slash_percent.lowers [of "(penalty v ^^ n) vs" v v]
    by (auto simp: penalty_def [abs_def] intro: lowered_trans)
qed simp

text \<open>
  C24: four missed slots are one penalty.  When \<open>processMissedSlots\<close> catches up to a slot, over slots
  whose epochs have snapshots, a validator's counter becomes the old counter plus the slots it
  missed, modulo 4, and it is slashed by \<open>SlashPercent\<close> once for every four; other validators' misses do
  not touch its entry, no stake grows, and the counters stay at most \<open>MaxMissedSlots\<close>.
\<close>

theorem missed_slots_penalty:
  assumes "target \<noteq> - 1" "bc_LastProcessedSlot bc < target" "counters_ok bc" "validators_ok (bc_Validators bc)"
    and "\<forall>s\<in>set (slots_between (bc_LastProcessedSlot bc + 1) target). known bc s"
  shows "\<exists>bc'. processMissedSlots G target bc = Some bc' \<and> bc_LastProcessedSlot bc' = target \<and> counters_ok bc' \<and>
    (let n = unat (missed_of bc v) + length (filter (misses G bc v) (slots_between (bc_LastProcessedSlot bc + 1) target));
         punished = fmlookup ((penalty v ^^ (n div 4)) (bc_Validators bc)) v
     in unat (missed_of bc' v) = n mod 4 \<and> fmlookup (bc_Validators bc') v = punished \<and>
       lowered (fmlookup (bc_Validators bc) v) punished)"
proof -
  let ?slots = "slots_between (bc_LastProcessedSlot bc + 1) target"
  let ?bc = "(fold (missed_step G) ?slots bc)\<lparr>bc_LastProcessedSlot := target\<rparr>"
  have run: "processMissedSlots G target bc = Some ?bc"
    using assms(2) by (simp add: processMissedSlots_run [OF assms(1)])
  note view = missed_fold_view [OF assms(5,3), of G v]
  have "counters_ok (fold (missed_step G) ?slots bc)" using view by (simp add: Let_def)
  then have "counters_ok ?bc" "missed_of ?bc v = missed_of (fold (missed_step G) ?slots bc) v"
    by (simp_all add: counters_ok_def missed_of_def)
  with run view penalty_pow_lowers [OF assms(4)] show ?thesis by (simp add: Let_def)
qed

definition demo_idle :: "(unit, unit) Blockchain" where
  "demo_idle = demo_live\<lparr>bc_snapshots := fmupd 0 (snap_view demo_live 0) fmempty\<rparr>"

theorem missed_slots_penalty_witness:
  "\<exists>bc'. processMissedSlots demo_lib 5 demo_idle = Some bc' \<and> missed_of bc' ''alice'' = 1 \<and>
    fmlookup (bc_Validators bc') ''alice'' = Some (demo_validator ''alice'' 196)"
proof -
  have fields: "bc_LastProcessedSlot demo_idle = 0" "bc_Validators demo_idle = demo_validators"
    "bc_SlotProduced demo_idle = fmempty" "missed_of demo_idle v = 0" "counters_ok demo_idle" for v
    by (simp_all add: demo_idle_def demo_live_def demo_bc_def missed_of_def counters_ok_def)
  have slots: "slots_between 1 5 = [1, 2, 3, 4, 5 :: u64]"
    by (simp add: slots_between_def upt_rec)
  have epoch: "epochForSlot s demo_idle = 0" if "s \<in> set [1, 2, 3, 4, 5]" for s
    using that by (auto simp: epochForSlot_def demo_idle_def demo_live_def demo_fields)
  then have known: "\<forall>s\<in>set [1, 2, 3, 4, 5]. known demo_idle s" by (simp add: known_def demo_idle_def)
  have "leader_view demo_lib demo_idle s = ''alice''" if "s \<in> set [1, 2, 3, 4, 5]" for s
  proof -
    have "epochForSlot s demo_live = 0" using epoch [OF that] by (simp add: epochForSlot_def demo_idle_def split: if_splits)
    then have "leader_view demo_lib demo_idle s = leader_view demo_lib demo_live s"
      using epoch [OF that] by (simp add: leader_view_def) (simp add: demo_idle_def snap_view_def)
    then show ?thesis by (simp add: demo_leader)
  qed
  then have miss: "filter (misses demo_lib demo_idle ''alice'') [1, 2, 3, 4, 5] = [1, 2, 3, 4, 5]"
    by (simp add: misses_def fields)
  have slashed: "fmlookup (penalty ''alice'' demo_validators) ''alice'' = Some (demo_validator ''alice'' 196)"
    by (simp add: penalty_def SlashValidatorPercent_def SlashValidator_def SlashPercent_def MinStake_def
        word_sle_eq word_sless_alt demo_validator_def Let_def go_div_def)
  have "(5 :: u64) \<noteq> - 1" "(0 :: u64) < 5" by simp_all
  from missed_slots_penalty [of 5 demo_idle demo_lib "''alice''", unfolded fields add_0_left slots, OF this fields(5) demo_validators_ok known]
  obtain bc' where bc': "processMissedSlots demo_lib 5 demo_idle = Some bc'" "unat (missed_of bc' ''alice'') = 1"
    "fmlookup (bc_Validators bc') ''alice'' = Some (demo_validator ''alice'' 196)"
    unfolding miss by (auto simp: slashed Let_def)
  then have "missed_of bc' ''alice'' = 1" by (simp add: word_unat_eq_iff)
  with bc' show ?thesis by blast
qed

end
