(* ===== verification/Verification.thy ===== *)
theory Verification
  imports Production
begin

text \<open>
  \<open>VerifyChain\<close> of \<open>core/blockchain.go\<close>: the check of the whole canonical chain.
\<close>

section \<open>Verifying the canonical chain\<close>

text \<open>
  The loop of \<open>VerifyChain\<close>.  \<open>verify_link\<close> is its body for the block \<open>cur\<close> at position \<open>i\<close>, with the
  loop's variables \<open>expectedHash\<close>, \<open>expectedTick\<close>, \<open>seenSlots\<close> and \<open>state\<close> gathered in a record;
  \<open>blame\<close> is the slashing that every error but the missing snapshot performs.
\<close>

record VerifyState =
  ve_hash :: digest
  ve_tick :: u64
  ve_seen :: "(u64, string) fmap"
  ve_state :: accounts

definition blame :: "Block \<Rightarrow> error \<Rightarrow> ('bs, 'ss) Blockchain \<Rightarrow> ('bs, 'ss) Blockchain \<times> (VerifyState result)" where
  "blame cur e bc = (slash (b_Validator cur) bc, Inl e)"

definition verify_body :: "golib \<Rightarrow> nat \<Rightarrow> Block \<Rightarrow> VerifyState \<Rightarrow> ('bs, 'ss) Blockchain
    \<Rightarrow> ('bs, 'ss) Blockchain \<times> VerifyState result" where
  \<comment> \<open>the checks after \<open>VerifyPoH\<close>\<close>
  "verify_body G i cur ve bc =
    (case VerifyBlockHash G cur of
      Some e \<Rightarrow> blame cur e bc
    | None \<Rightarrow>
    (case snapshotForSlot G (b_Slot cur) bc of
      (bc, None) \<Rightarrow> (bc, Inl (ErrNew (''missing epoch snapshot for slot '' @ itoa (b_Slot cur))))
    | (bc, Some snap) \<Rightarrow>
    (case VerifyLeaderSnapshot G (b_Slot cur) (b_Validator cur) (es_Validators snap) of
      Some e \<Rightarrow> blame cur e bc
    | None \<Rightarrow>
      (if get_or [] (ve_seen ve) (b_Slot cur) \<noteq> []
       then blame cur (ErrNew (''double produce at slot '' @ itoa (b_Slot cur))) bc
       else let ve = ve\<lparr>ve_seen := fmupd (b_Slot cur) (b_Validator cur) (ve_seen ve)\<rparr> in
    (case VerifyValidator (b_Validator cur) (bc_Validators bc) (word_of_nat i) of
      Inl e \<Rightarrow> blame cur e bc
    | Inr v \<Rightarrow>
    (case VerifyBlockSig G cur v of
      Some e \<Rightarrow> blame cur e bc
    | None \<Rightarrow>
    (case VerifyTransactions G (b_Transactions cur) of
      Some e \<Rightarrow> blame cur e bc
    | None \<Rightarrow>
      (if TxRoot G (b_Transactions cur) \<noteq> b_TxRoot cur
       then blame cur (ErrNew (''invalid tx root at index '' @ itoa (word_of_nat i))) bc
       else
    (case ApplyTransactions (ve_state ve) (b_Transactions cur)
        (validatorRewardAddress G (bc_Validators bc) (b_Validator cur)) of
      Inl e \<Rightarrow> blame cur e bc
    | Inr nextState \<Rightarrow>
      (if StateRoot G nextState \<noteq> b_StateRoot cur
       then blame cur (ErrNew (''invalid state root at index '' @ itoa (word_of_nat i))) bc
       else (bc, Inr (ve\<lparr>ve_state := nextState\<rparr>))))))))))))"

definition verify_link :: "golib \<Rightarrow> nat \<Rightarrow> Block \<Rightarrow> Block \<Rightarrow> VerifyState \<Rightarrow> ('bs, 'ss) Blockchain
    \<Rightarrow> (('bs, 'ss) Blockchain \<times> VerifyState result) option" where
  "verify_link G i prev cur ve bc =
    (case VerifyBlockLink prev cur of
      Some e \<Rightarrow> Some (blame cur e bc)
    | None \<Rightarrow> do {
        (nextHash, nextTick, err) \<leftarrow> VerifyPoH G (ve_hash ve) (ve_tick ve) cur;
        Some (case err of
          Some e \<Rightarrow> blame cur e bc
        | None \<Rightarrow> verify_body G i cur (ve\<lparr>ve_hash := nextHash, ve_tick := nextTick\<rparr>) bc)
      })"

primrec verify_rest :: "golib \<Rightarrow> nat \<Rightarrow> Block \<Rightarrow> Block list \<Rightarrow> VerifyState \<Rightarrow> ('bs, 'ss) Blockchain
    \<Rightarrow> (('bs, 'ss) Blockchain \<times> VerifyState result) option" where
  "verify_rest G i prev [] ve bc = Some (bc, Inr ve)"
| "verify_rest G i prev (cur # rest) ve bc = do {
     (bc, r) \<leftarrow> verify_link G i prev cur ve bc;
     case r of
       Inl e \<Rightarrow> Some (bc, Inl e)
     | Inr ve \<Rightarrow> verify_rest G (Suc i) cur rest ve bc
   }"

definition VerifyChain :: "golib \<Rightarrow> ('bs, 'ss) Blockchain \<Rightarrow> (('bs, 'ss) Blockchain \<times> failure) option" where
  "VerifyChain G bc =
    (case bc_Chain bc of
      [] \<Rightarrow> Some (bc, Some (ErrNew ''empty chain''))
    | genesis # rest \<Rightarrow>
      (if b_Hash genesis \<noteq> hash_of_block G genesis then Some (bc, Some (ErrNew ''invalid genesis hash''))
       else case ParsePoHHashHex (b_PoHHash genesis) of
         Inl e \<Rightarrow> Some (bc, Some e)
       | Inr expectedHash \<Rightarrow> do {
           (bc, r) \<leftarrow> verify_rest G 1 genesis rest \<lparr>ve_hash = expectedHash, ve_tick = b_Tick genesis,
             ve_seen = fmempty, ve_state = copyState (bc_Genesis bc)\<rparr> bc;
           Some (bc, case r of Inl e \<Rightarrow> Some e | Inr _ \<Rightarrow> None)
         }))"


section \<open>What a verified block satisfies\<close>

definition contents_ok :: "golib \<Rightarrow> ('bs, 'ss) Blockchain \<Rightarrow> Block \<Rightarrow> bool" where
  "contents_ok G bc cur \<longleftrightarrow>
     b_Hash cur = hash_of_block G cur \<and> leader_view G bc (b_Slot cur) = b_Validator cur \<and>
     (\<exists>v. fmlookup (bc_Validators bc) (b_Validator cur) = Some v \<and> sint MinStake \<le> sint (v_Stake v) \<and>
       VerifyBlockSignature G cur (v_PubKey v) = None) \<and>
     (\<forall>tx\<in>set (b_Transactions cur). VerifyTransactionSignature G tx = None) \<and>
     TxRoot G (b_Transactions cur) = b_TxRoot cur"

definition block_ok :: "golib \<Rightarrow> ('bs, 'ss) Blockchain \<Rightarrow> Block \<Rightarrow> Block \<Rightarrow> bool" where
  "block_ok G bc prev cur \<longleftrightarrow>
     b_PrevHash cur = b_Hash prev \<and> b_Slot prev \<le> b_Slot cur \<and>
     b_Tick prev < b_Tick cur \<and> b_Slot cur = b_Tick cur div TicksPerSlot \<and>
     (\<exists>h. ParsePoHHashHex (b_PoHHash prev) = Inr h \<and>
       ParsePoHHashHex (b_PoHHash cur) = Inr (poh_chain G h (b_Tick prev) (b_Tick cur))) \<and>
     contents_ok G bc cur"

primrec chained :: "golib \<Rightarrow> ('bs, 'ss) Blockchain \<Rightarrow> Block \<Rightarrow> Block list \<Rightarrow> bool" where
  "chained G bc prev [] \<longleftrightarrow> True"
| "chained G bc prev (cur # rest) \<longleftrightarrow> block_ok G bc prev cur \<and> chained G bc cur rest"

primrec roots_ok :: "golib \<Rightarrow> validators \<Rightarrow> accounts \<Rightarrow> Block list \<Rightarrow> bool" where
  "roots_ok G vs state [] \<longleftrightarrow> True"
| "roots_ok G vs state (cur # rest) \<longleftrightarrow>
     (\<exists>next. ApplyTransactions state (b_Transactions cur) (validatorRewardAddress G vs (b_Validator cur)) = Inr next \<and>
       StateRoot G next = b_StateRoot cur \<and> roots_ok G vs next rest)"

text \<open>An error changes snapshots and the stake of at most one validator.\<close>

definition blamed :: "('bs, 'ss) Blockchain \<Rightarrow> ('bs, 'ss) Blockchain \<Rightarrow> bool" where
  "blamed bc bc' \<longleftrightarrow> (\<exists>bc1. only_snapshots bc bc1 \<and> (bc' = bc1 \<or> (\<exists>name. bc' = slash name bc1)))"

lemma blamed_only: "only_snapshots bc bc1 \<Longrightarrow> blamed bc1 bc' \<Longrightarrow> blamed bc bc'"
  using only_snapshots_trans unfolding blamed_def by blast

lemma blamed_slash: "blamed bc (slash n bc)"
  using only_snapshots_refl unfolding blamed_def by blast

lemma blamed_refl [simp]: "blamed bc bc"
  using only_snapshots_refl unfolding blamed_def by blast

lemma verify_body_run:
  "\<exists>bc' r. verify_body G i cur ve bc = (bc', r) \<and>
    (case r of Inl e \<Rightarrow> blamed bc bc' | Inr _ \<Rightarrow> only_snapshots bc bc') \<and>
    (\<forall>ve'. r = Inr ve' \<longleftrightarrow> contents_ok G bc cur \<and> get_or [] (ve_seen ve) (b_Slot cur) = [] \<and>
      (\<exists>next. ApplyTransactions (ve_state ve) (b_Transactions cur)
          (validatorRewardAddress G (bc_Validators bc) (b_Validator cur)) = Inr next \<and>
        StateRoot G next = b_StateRoot cur \<and>
        ve' = ve\<lparr>ve_seen := fmupd (b_Slot cur) (b_Validator cur) (ve_seen ve), ve_state := next\<rparr>))"
proof -
  let ?bc = "ensureSnapshot G (epochForSlot (b_Slot cur) bc) bc"
  note only = ensureSnapshot_only(1) [of bc G "epochForSlot (b_Slot cur) bc"]
  note frame = only_snapshots_frame [OF only]
  obtain bc' r where run: "verify_body G i cur ve bc = (bc', r)" by (metis prod.collapse)
  have "bc' = ?bc \<or> bc' = slash (b_Validator cur) bc \<or> bc' = slash (b_Validator cur) ?bc"
    using run by (auto simp: verify_body_def blame_def snapshotForSlot_view Let_def split: option.splits sum.splits if_splits)
  then have b: "blamed bc bc'" using only only_snapshots_refl [of bc] unfolding blamed_def by blast
  have ok: "bc' = ?bc" if "r = Inr ve'" for ve'
    using run that by (auto simp: verify_body_def blame_def snapshotForSlot_view Let_def split: option.splits sum.splits if_splits)
  have "r = Inr ve' \<longleftrightarrow> contents_ok G bc cur \<and> get_or [] (ve_seen ve) (b_Slot cur) = [] \<and>
      (\<exists>next. ApplyTransactions (ve_state ve) (b_Transactions cur)
          (validatorRewardAddress G (bc_Validators bc) (b_Validator cur)) = Inr next \<and>
        StateRoot G next = b_StateRoot cur \<and>
        ve' = ve\<lparr>ve_seen := fmupd (b_Slot cur) (b_Validator cur) (ve_seen ve), ve_state := next\<rparr>)" for ve'
    using run by (auto simp: verify_body_def blame_def snapshotForSlot_view frame leader_view_def contents_ok_def
        VerifyBlockHash_def VerifyLeaderSnapshot_def VerifyValidator_def VerifyBlockSig_def word_sless_alt Let_def
        simp flip: VerifyTransactions_None split: option.splits sum.splits if_splits)
  with run b ok only show ?thesis by (cases r) auto
qed

lemma verify_link_run:
  assumes "b_Tick cur \<noteq> - 1" "ParsePoHHashHex (b_PoHHash prev) = Inr (ve_hash ve)" "ve_tick ve = b_Tick prev"
  shows "\<exists>bc' r. verify_link G i prev cur ve bc = Some (bc', r) \<and>
    (case r of Inl e \<Rightarrow> blamed bc bc' | Inr _ \<Rightarrow> only_snapshots bc bc') \<and>
    (\<forall>ve'. r = Inr ve' \<longleftrightarrow> block_ok G bc prev cur \<and> get_or [] (ve_seen ve) (b_Slot cur) = [] \<and>
      ParsePoHHashHex (b_PoHHash cur) = Inr (ve_hash ve') \<and> ve_tick ve' = b_Tick cur \<and>
      ve_seen ve' = fmupd (b_Slot cur) (b_Validator cur) (ve_seen ve) \<and>
      ApplyTransactions (ve_state ve) (b_Transactions cur)
          (validatorRewardAddress G (bc_Validators bc) (b_Validator cur)) = Inr (ve_state ve') \<and>
      StateRoot G (ve_state ve') = b_StateRoot cur)"
proof (cases "VerifyBlockLink prev cur")
  case (Some e)
  with VerifyBlockLink_None [of prev cur] have "\<not> block_ok G bc prev cur" by (auto simp: block_ok_def)
  moreover note blamed_slash [of bc "b_Validator cur"]
  ultimately show ?thesis using Some by (simp add: verify_link_def blame_def)
next
  case None
  then have link: "b_PrevHash cur = b_Hash prev" "b_Slot prev \<le> b_Slot cur" by (simp_all add: VerifyBlockLink_None)
  note poh = VerifyPoH_None [OF assms(1), of G "ve_hash ve" "ve_tick ve"]
  obtain h t e where run: "VerifyPoH G (ve_hash ve) (ve_tick ve) cur = Some (h, t, e)" using poh by (metis prod.collapse)
  show ?thesis
  proof (cases e)
    case (Some err)
    have "\<not> block_ok G bc prev cur"
    proof
      assume "block_ok G bc prev cur"
      then have "VerifyPoH G (ve_hash ve) (ve_tick ve) cur = Some (poh_chain G (ve_hash ve) (b_Tick prev) (b_Tick cur), b_Tick cur, None)"
        using poh assms(2,3) by (auto simp: block_ok_def)
      with run Some show False by simp
    qed
    moreover note blamed_slash [of bc "b_Validator cur"]
    ultimately show ?thesis using None run Some by (simp add: verify_link_def blame_def)
  next
    case e: None
    let ?ve = "ve\<lparr>ve_hash := h, ve_tick := t\<rparr>"
    from run e poh have p: "b_Tick prev < b_Tick cur" "b_Slot cur = b_Tick cur div TicksPerSlot" "t = b_Tick cur"
      "h = poh_chain G (ve_hash ve) (b_Tick prev) (b_Tick cur)" "ParsePoHHashHex (b_PoHHash cur) = Inr h"
      using assms(3) by auto
    then have ok: "block_ok G bc prev cur \<longleftrightarrow> contents_ok G bc cur"
      using link assms(2) by (auto simp: block_ok_def)
    from verify_body_run [of G i cur ?ve bc] obtain bc' r where r: "verify_body G i cur ?ve bc = (bc', r)"
      "case r of Inl e \<Rightarrow> blamed bc bc' | Inr _ \<Rightarrow> only_snapshots bc bc'"
      "\<forall>ve'. r = Inr ve' \<longleftrightarrow> contents_ok G bc cur \<and> get_or [] (ve_seen ve) (b_Slot cur) = [] \<and>
        (\<exists>next. ApplyTransactions (ve_state ve) (b_Transactions cur)
            (validatorRewardAddress G (bc_Validators bc) (b_Validator cur)) = Inr next \<and>
          StateRoot G next = b_StateRoot cur \<and>
          ve' = ?ve\<lparr>ve_seen := fmupd (b_Slot cur) (b_Validator cur) (ve_seen ve), ve_state := next\<rparr>)"
      by auto
    have "verify_link G i prev cur ve bc = Some (bc', r)"
      using None run e r(1) by (simp add: verify_link_def)
    moreover have "ve' = ?ve\<lparr>ve_seen := fmupd (b_Slot cur) (b_Validator cur) (ve_seen ve), ve_state := next\<rparr> \<longleftrightarrow>
        h = ve_hash ve' \<and> ve_tick ve' = b_Tick cur \<and>
        ve_seen ve' = fmupd (b_Slot cur) (b_Validator cur) (ve_seen ve) \<and> ve_state ve' = next" for ve' "next"
      using p(3) by (cases ve; cases ve') auto
    ultimately show ?thesis using r(2,3) unfolding ok p(5) by (intro exI [of _ bc'] exI [of _ r]) auto
  qed
qed

lemma contents_ok_only: "only_snapshots bc bc1 \<Longrightarrow> contents_ok G bc1 b = contents_ok G bc b"
  by (simp add: contents_ok_def only_snapshots_frame only_snapshots_views(4))

lemma chained_only: "only_snapshots bc bc1 \<Longrightarrow> chained G bc1 prev rest = chained G bc prev rest"
  by (induction rest arbitrary: prev) (simp_all add: block_ok_def contents_ok_only)

definition fresh_slots :: "(u64, string) fmap \<Rightarrow> Block list \<Rightarrow> bool" where
  "fresh_slots seen rest \<longleftrightarrow> distinct (map b_Slot rest) \<and> (\<forall>b\<in>set rest. get_or [] seen (b_Slot b) = [])"

lemma fresh_slots_Cons: "b_Validator b \<noteq> [] \<Longrightarrow> fresh_slots seen (b # rest) \<longleftrightarrow>
    get_or [] seen (b_Slot b) = [] \<and> fresh_slots (fmupd (b_Slot b) (b_Validator b) seen) rest"
  by (auto simp: fresh_slots_def get_or_def)

text \<open>The first link of a chain that should verify has a state to go on with.\<close>

lemma link_verified:
  assumes "chained G bc prev (cur # rest) \<and> fresh_slots (ve_seen ve) (cur # rest) \<and>
    roots_ok G (bc_Validators bc) (ve_state ve) (cur # rest)"
  shows "\<exists>ve' :: VerifyState. block_ok G bc prev cur \<and> get_or [] (ve_seen ve) (b_Slot cur) = [] \<and>
    ParsePoHHashHex (b_PoHHash cur) = Inr (ve_hash ve') \<and> ve_tick ve' = b_Tick cur \<and>
    ve_seen ve' = fmupd (b_Slot cur) (b_Validator cur) (ve_seen ve) \<and>
    ApplyTransactions (ve_state ve) (b_Transactions cur)
      (validatorRewardAddress G (bc_Validators bc) (b_Validator cur)) = Inr (ve_state ve') \<and>
    StateRoot G (ve_state ve') = b_StateRoot cur"
proof -
  from assms obtain h n where "block_ok G bc prev cur" "get_or [] (ve_seen ve) (b_Slot cur) = []"
    "ParsePoHHashHex (b_PoHHash cur) = Inr h"
    "ApplyTransactions (ve_state ve) (b_Transactions cur) (validatorRewardAddress G (bc_Validators bc) (b_Validator cur)) = Inr n"
    "StateRoot G n = b_StateRoot cur"
    by (auto simp: block_ok_def fresh_slots_def)
  then show ?thesis
    by (intro exI [of _ "\<lparr>ve_hash = h, ve_tick = b_Tick cur, ve_seen = fmupd (b_Slot cur) (b_Validator cur) (ve_seen ve), ve_state = n\<rparr>"]) simp
qed

lemma verify_rest_run:
  assumes "\<forall>b\<in>set rest. b_Tick b \<noteq> - 1" "fmlookup (bc_Validators bc) [] = None"
    and "ParsePoHHashHex (b_PoHHash prev) = Inr (ve_hash ve)" "ve_tick ve = b_Tick prev"
  shows "\<exists>bc' r. verify_rest G i prev rest ve bc = Some (bc', r) \<and>
    (case r of Inl e \<Rightarrow> blamed bc bc' | Inr _ \<Rightarrow> only_snapshots bc bc') \<and>
    ((\<exists>ve'. r = Inr ve') \<longleftrightarrow> chained G bc prev rest \<and> fresh_slots (ve_seen ve) rest \<and>
      roots_ok G (bc_Validators bc) (ve_state ve) rest)"
  using assms
proof (induction rest arbitrary: i prev ve bc)
  case Nil
  show ?case by (simp add: fresh_slots_def)
next
  case (Cons cur rest)
  have tick: "b_Tick cur \<noteq> - 1" "\<forall>b\<in>set rest. b_Tick b \<noteq> - 1" using Cons.prems(1) by auto
  from verify_link_run [OF tick(1) Cons.prems(3,4), of G i bc]
  obtain bc1 r where r: "verify_link G i prev cur ve bc = Some (bc1, r)"
    "case r of Inl e \<Rightarrow> blamed bc bc1 | Inr _ \<Rightarrow> only_snapshots bc bc1"
    and iff: "\<And>ve'. r = Inr ve' \<longleftrightarrow> block_ok G bc prev cur \<and> get_or [] (ve_seen ve) (b_Slot cur) = [] \<and>
      ParsePoHHashHex (b_PoHHash cur) = Inr (ve_hash ve') \<and> ve_tick ve' = b_Tick cur \<and>
      ve_seen ve' = fmupd (b_Slot cur) (b_Validator cur) (ve_seen ve) \<and>
      ApplyTransactions (ve_state ve) (b_Transactions cur)
          (validatorRewardAddress G (bc_Validators bc) (b_Validator cur)) = Inr (ve_state ve') \<and>
      StateRoot G (ve_state ve') = b_StateRoot cur"
    by blast
  show ?case
  proof (cases r)
    case (Inl e)
    have "\<not> (chained G bc prev (cur # rest) \<and> fresh_slots (ve_seen ve) (cur # rest) \<and>
        roots_ok G (bc_Validators bc) (ve_state ve) (cur # rest))"
      using link_verified iff Inl by (metis Inl_Inr_False)
    with r Inl show ?thesis by (simp del: chained.simps roots_ok.simps)
  next
    case (Inr ve1)
    from iff [of ve1] Inr have s: "block_ok G bc prev cur" "get_or [] (ve_seen ve) (b_Slot cur) = []"
      "ParsePoHHashHex (b_PoHHash cur) = Inr (ve_hash ve1)" "ve_tick ve1 = b_Tick cur"
      "ve_seen ve1 = fmupd (b_Slot cur) (b_Validator cur) (ve_seen ve)"
      "ApplyTransactions (ve_state ve) (b_Transactions cur)
          (validatorRewardAddress G (bc_Validators bc) (b_Validator cur)) = Inr (ve_state ve1)"
      "StateRoot G (ve_state ve1) = b_StateRoot cur"
      by blast+
    have only: "only_snapshots bc bc1" using r(2) Inr by simp
    note f = only_snapshots_frame(5) [OF only]
    have named: "b_Validator cur \<noteq> []"
      using s(1) Cons.prems(2) by (auto simp: block_ok_def contents_ok_def)
    have "fmlookup (bc_Validators bc1) [] = None" using Cons.prems(2) f by simp
    from Cons.IH [OF tick(2) this s(3,4), of "Suc i"] obtain bc2 r2 where
      r2: "verify_rest G (Suc i) cur rest ve1 bc1 = Some (bc2, r2)"
        "case r2 of Inl e \<Rightarrow> blamed bc1 bc2 | Inr _ \<Rightarrow> only_snapshots bc1 bc2"
      and iff2: "(\<exists>ve'. r2 = Inr ve') \<longleftrightarrow> chained G bc cur rest \<and> fresh_slots (ve_seen ve1) rest \<and>
        roots_ok G (bc_Validators bc) (ve_state ve1) rest"
      unfolding chained_only [OF only] f by blast
    have "verify_rest G i prev (cur # rest) ve bc = Some (bc2, r2)" using r(1) Inr r2(1) by simp
    moreover have "case r2 of Inl e \<Rightarrow> blamed bc bc2 | Inr _ \<Rightarrow> only_snapshots bc bc2"
      using r2(2) blamed_only [OF only] only_snapshots_trans [OF only] by (cases r2) auto
    moreover have "(\<exists>ve'. r2 = Inr ve') \<longleftrightarrow> chained G bc prev (cur # rest) \<and> fresh_slots (ve_seen ve) (cur # rest) \<and>
        roots_ok G (bc_Validators bc) (ve_state ve) (cur # rest)"
      unfolding iff2 fresh_slots_Cons [OF named] using s by simp
    ultimately show ?thesis by blast
  qed
qed

lemma chained_snoc: "chained G bc g (rest @ [b]) \<longleftrightarrow> chained G bc g rest \<and> block_ok G bc (last (g # rest)) b"
  by (induction rest arbitrary: g) auto

lemma chained_slots: "chained G bc g rest \<Longrightarrow> b \<in> set (g # rest) \<Longrightarrow> b_Slot b \<le> b_Slot (last (g # rest))"
proof (induction rest arbitrary: g b)
  case (Cons c rest)
  then have "b_Slot g \<le> b_Slot c" unfolding chained.simps block_ok_def by blast
  moreover have "b_Slot x \<le> b_Slot (last (c # rest))" if "x \<in> set (c # rest)" for x
    using Cons.IH [of c x] Cons.prems(1) that by simp
  moreover have "last (g # c # rest) = last (c # rest)" by simp
  ultimately show ?case using Cons.prems(2) by (metis list.set_intros(1) order_trans set_ConsD)
qed simp

lemma chained_last_slot:
  "chained G bc g rest \<Longrightarrow> b_Slot g = 0 \<Longrightarrow> b_Slot (last (g # rest)) \<le> b_Tick (last (g # rest)) div TicksPerSlot"
  by (cases rest rule: rev_cases) (simp_all add: chained_snoc block_ok_def)

lemma roots_ok_snoc:
  assumes "replay G vs rest s = Inr t"
  shows "roots_ok G vs s (rest @ [b]) \<longleftrightarrow> roots_ok G vs s rest \<and>
    (\<exists>next. ApplyTransactions t (b_Transactions b) (validatorRewardAddress G vs (b_Validator b)) = Inr next \<and>
      StateRoot G next = b_StateRoot b)"
  using assms by (induction rest arbitrary: s) (auto split: sum.splits)

lemma VerifyChain_run:
  assumes "bc_Chain bc = g # rest" "\<forall>b\<in>set rest. b_Tick b \<noteq> - 1" "fmlookup (bc_Validators bc) [] = None"
  shows "\<exists>bc' err. VerifyChain G bc = Some (bc', err) \<and> blamed bc bc' \<and> (err = None \<longrightarrow> only_snapshots bc bc') \<and>
    (err = None \<longleftrightarrow> b_Hash g = hash_of_block G g \<and> (\<exists>h. ParsePoHHashHex (b_PoHHash g) = Inr h) \<and>
      chained G bc g rest \<and> distinct (map b_Slot rest) \<and> roots_ok G (bc_Validators bc) (bc_Genesis bc) rest)"
proof (cases "b_Hash g = hash_of_block G g \<and> (\<exists>h. ParsePoHHashHex (b_PoHHash g) = Inr h)")
  case False
  moreover have "blamed bc bc" using only_snapshots_refl [of bc] unfolding blamed_def by blast
  ultimately show ?thesis using assms(1) by (auto simp: VerifyChain_def split: sum.split)
next
  case True
  then obtain h where h: "ParsePoHHashHex (b_PoHHash g) = Inr h" by blast
  let ?ve = "\<lparr>ve_hash = h, ve_tick = b_Tick g, ve_seen = fmempty, ve_state = copyState (bc_Genesis bc)\<rparr>"
  obtain bc' r where r: "verify_rest G 1 g rest ?ve bc = Some (bc', r)"
    "case r of Inl e \<Rightarrow> blamed bc bc' | Inr _ \<Rightarrow> only_snapshots bc bc'"
    "(\<exists>ve'. r = Inr ve') \<longleftrightarrow> chained G bc g rest \<and> fresh_slots (ve_seen ?ve) rest \<and>
      roots_ok G (bc_Validators bc) (ve_state ?ve) rest"
    using verify_rest_run [OF assms(2,3), of g ?ve G 1] h by auto
  have "blamed bc bc'" using r(2) by (cases r) (auto simp: blamed_def)
  moreover have "fresh_slots (ve_seen ?ve) rest \<longleftrightarrow> distinct (map b_Slot rest)"
    by (simp add: fresh_slots_def get_or_def)
  moreover have "VerifyChain G bc = Some (bc', case r of Inl e \<Rightarrow> Some e | Inr _ \<Rightarrow> None)"
    using True h r(1) assms(1) by (simp add: VerifyChain_def)
  ultimately show ?thesis
    using True r(2,3) by (cases r) auto
qed

text \<open>Whatever the chain, a call that returns has changed no more than that.\<close>

lemma verify_link_blamed:
  assumes "verify_link G i prev cur ve bc = Some (bc', r)"
  shows "case r of Inl e \<Rightarrow> blamed bc bc' | Inr _ \<Rightarrow> only_snapshots bc bc'"
proof -
  consider (blame) e where "blame cur e bc = (bc', r)" | (body) ve' where "verify_body G i cur ve' bc = (bc', r)"
    using assms by (auto simp: verify_link_def bind_eq_Some_conv split: option.splits)
  then show ?thesis
  proof cases
    case blame
    then show ?thesis using blamed_slash [of bc "b_Validator cur"] by (auto simp: blame_def)
  next
    case (body ve')
    with verify_body_run [of G i cur ve' bc] show ?thesis by auto
  qed
qed

lemma verify_rest_blamed:
  "verify_rest G i prev rest ve bc = Some (bc', r) \<Longrightarrow> blamed bc bc'"
proof (induction rest arbitrary: i prev ve bc)
  case Nil
  then show ?case by simp
next
  case (Cons cur rest)
  obtain bc1 r1 where link: "verify_link G i prev cur ve bc = Some (bc1, r1)"
    and cont: "(case r1 of Inl e \<Rightarrow> Some (bc1, Inl e) | Inr ve \<Rightarrow> verify_rest G (Suc i) cur rest ve bc1) = Some (bc', r)"
    using Cons.prems by (auto simp: bind_eq_Some_conv)
  note step = verify_link_blamed [OF link]
  show ?case
  proof (cases r1)
    case (Inl e)
    with cont step show ?thesis by auto
  next
    case (Inr ve1)
    with cont have "verify_rest G (Suc i) cur rest ve1 bc1 = Some (bc', r)" by simp
    from Cons.IH [OF this] step Inr show ?thesis by (simp add: blamed_only)
  qed
qed

lemma VerifyChain_blamed:
  assumes "VerifyChain G bc = Some (bc', err)"
  shows "blamed bc bc'"
proof -
  have "bc' = bc \<or> (\<exists>prev rest ve r. verify_rest G 1 prev rest ve bc = Some (bc', r))"
    using assms unfolding VerifyChain_def by (auto split: list.splits if_splits sum.splits Option.bind_splits)
  then show ?thesis using verify_rest_blamed by auto
qed

lemma blamed_untouched:
  assumes "blamed bc bc'"
  shows "untouched bc bc'" "bc_poh bc' = bc_poh bc"
proof -
  from assms obtain bc1 where only: "only_snapshots bc bc1" and e: "bc' = bc1 \<or> (\<exists>name. bc' = slash name bc1)"
    unfolding blamed_def by blast
  note u = untouched_only [OF only]
  show "untouched bc bc'" using u e untouched_trans [OF u] untouched_slash [OF untouched_refl] by auto
  show "bc_poh bc' = bc_poh bc" using e only_snapshots_frame(7) [OF only] by auto
qed

section \<open>A chain with its first block\<close>

definition demo_fresh :: "(unit, unit) Blockchain" where
  "demo_fresh = demo_live\<lparr>bc_Chain := [genesis_block demo_lib 3]\<rparr>"

lemma demo_fresh_fields:
  "bc_Chain demo_fresh = [genesis_block demo_lib 3]" "fmlookup (bc_Validators demo_fresh) [] = None"
  "bc_Genesis demo_fresh = rich" "bc_State demo_fresh = rich" "bc_Validators demo_fresh = demo_validators"
  by (simp_all add: demo_fresh_def demo_live_def demo_bc_def demo_validators_def)

lemma demo_fresh_block:
  "\<exists>b. drafted demo_lib demo_fresh (genesis_block demo_lib 3) (fst (Tick demo_lib (NewPoH demo_seed) TicksPerSlot)) rich [] b \<and>
    acceptable demo_lib demo_fresh (genesis_block demo_lib 3) b rich \<and> b_Validator b = ''alice''"
proof -
  let ?q = "fst (Tick demo_lib (NewPoH demo_seed) TicksPerSlot)"
  have lead: "leader_view demo_lib demo_fresh s = ''alice''" for s
  proof -
    have "same_view demo_live demo_fresh" by (simp add: demo_fresh_def same_view_def snap_view_def split: option.split)
    then show ?thesis by (simp add: leader_same_view demo_leader)
  qed
  have h: "fmlookup (bc_Validators demo_fresh) ''alice'' = Some (demo_validator ''alice'' 200)" "bc_blockStore demo_fresh = None"
    by (simp_all add: demo_fresh_fields) (simp add: demo_fresh_def demo_live_fields)
  obtain b where b: "drafted demo_lib demo_fresh (genesis_block demo_lib 3) ?q rich [] b" "acceptable demo_lib demo_fresh (genesis_block demo_lib 3) b rich"
    using seal_block_commits [OF demo_ecdsa_correct h(1) alice_signs h(2) lead, where txs = "[]" and state = rich and nextState = rich
        and parent = "genesis_block demo_lib 3" and q = ?q] by (auto simp: VerifyTransactions_None ApplyTransactions_def)
  then show ?thesis using lead draftedD(6) by metis
qed

section \<open>Properties\<close>

text \<open>
  C1: \<open>VerifyChain\<close> accepts exactly the valid chains.  It returns on every chain whose ticks are not
  \<open>2^64 - 1\<close>, and reports no error if and only if the genesis block has its own hash and a readable
  clock hash; every block names its predecessor, carries a later tick, the tick's slot, the clock's
  digest at that tick and its own hash, comes from its slot's leader, who is a
  registered validator with at least \<open>MinStake\<close> and signed it, and holds signed transactions with
  their root; no two blocks share a slot; and the ledger replayed from the genesis accounts has each
  block's state root.  Verifying changes nothing but snapshots and, on an error, one stake.
\<close>

theorem VerifyChain_exact:
  assumes "bc_Chain bc = g # rest" "\<forall>b\<in>set rest. b_Tick b \<noteq> - 1" "fmlookup (bc_Validators bc) [] = None"
  shows "\<exists>bc' err. VerifyChain G bc = Some (bc', err) \<and> blamed bc bc' \<and> (err = None \<longrightarrow> only_snapshots bc bc') \<and>
    (err = None \<longleftrightarrow> b_Hash g = hash_of_block G g \<and> (\<exists>h. ParsePoHHashHex (b_PoHHash g) = Inr h) \<and>
      chained G bc g rest \<and> distinct (map b_Slot rest) \<and> roots_ok G (bc_Validators bc) (bc_Genesis bc) rest)"
  by (rule VerifyChain_run [OF assms])

theorem VerifyChain_exact_witness:
  "\<exists>bc'. VerifyChain demo_lib demo_fresh = Some (bc', None) \<and> only_snapshots demo_fresh bc'"
proof -
  have "\<forall>b\<in>set []. b_Tick b \<noteq> - 1" by simp
  from VerifyChain_exact [OF demo_fresh_fields(1) this demo_fresh_fields(2), of demo_lib] show ?thesis
    by (auto simp: genesis_block_hash genesis_block_fields)
qed

lemma chained_same_view: "same_view bc bc2 \<Longrightarrow> chained G bc2 g xs = chained G bc g xs"
  using leader_same_view [of bc bc2]
  by (induction xs arbitrary: g) (simp_all add: block_ok_def contents_ok_def same_view_def)

lemma drafted_block_ok:
  assumes "drafted G bc tip (fst (Tick G p TicksPerSlot)) state ts b" "contents_ok G bc b"
    and "ParsePoHHashHex (b_PoHHash tip) = Inr h" "b_Tick tip \<le> p_CurrentTick p"
    and "p_Hash p = poh_chain G h (b_Tick tip) (p_CurrentTick p)" "unat (p_CurrentTick p) + 21 < 2 ^ 64"
    and "b_Slot tip \<le> b_Tick tip div TicksPerSlot"
  shows "block_ok G bc tip b \<and> b_Slot tip < b_Slot b \<and> b_Tick b \<noteq> - 1"
proof -
  let ?q = "fst (Tick G p TicksPerSlot)"
  have q: "p_CurrentTick ?q = p_CurrentTick p + 20" "p_Hash ?q = poh_chain G (p_Hash p) (p_CurrentTick p) (p_CurrentTick p + 20)"
    using tick_power [of p 20 G] assms(6) by (simp_all add: Tick_power Let_def TicksPerSlot_def)
  have tick: "unat (p_CurrentTick ?q) = unat (p_CurrentTick p) + 20"
    using assms(6) q(1) by (simp add: unat_word_ariths)
  then have later: "p_CurrentTick p < p_CurrentTick ?q" by (simp add: word_less_nat_alt)
  have b: "b_PrevHash b = b_Hash tip" "b_Tick b = p_CurrentTick ?q" "b_Slot b = Slot ?q"
    "b_PoHHash b = PoHHashHex (p_Hash ?q)"
    using draftedD [OF assms(1)] by simp_all
  have hash: "p_Hash ?q = poh_chain G h (b_Tick tip) (b_Tick b)"
    using poh_chain_trans [of "b_Tick tip" "p_CurrentTick p" "p_CurrentTick ?q" G h] later assms(4) q(2)
    by (simp add: assms(5) b(2) q(1))
  have "unat (Slot p) < unat (Slot ?q)" using tick by (simp add: unat_Slot)
  moreover have "b_Slot tip \<le> Slot p"
    using assms(7) div_le_mono [OF word_le_nat_alt [THEN iffD1, OF assms(4)], of 20]
    by (simp add: word_le_nat_alt unat_Slot unat_div_distrib)
  ultimately have slot: "b_Slot tip < b_Slot b" using b(3) by (simp add: word_le_nat_alt word_less_nat_alt)
  have "b_Tick b \<noteq> - 1"
  proof
    assume "b_Tick b = - 1"
    then have "unat (p_CurrentTick ?q) = 2 ^ 64 - 1" unfolding b(2) by (simp add: unsigned_minus_1_eq_mask mask_eq_exp_minus_1)
    with tick assms(6) show False by simp
  qed
  moreover have "b_Tick tip < b_Tick b" using later assms(4) b(2) by simp
  moreover have "b_Slot b = b_Tick b div TicksPerSlot" using b(2,3) by (simp add: Slot_def)
  moreover have "ParsePoHHashHex (b_PoHHash b) = Inr (poh_chain G h (b_Tick tip) (b_Tick b))"
    unfolding b(4) hash by (simp add: ParsePoHHashHex_Inr PoHHashHex_def)
  ultimately show ?thesis
    using assms(2,3) b(1) slot by (simp add: block_ok_def)
qed

text \<open>
  C9: what a producer adds, a verifier accepts.  Take a chain that \<open>VerifyChain\<close> accepts and whose
  ledger is the replay of its blocks, and a clock that ran on from the tip.  A block that
  \<open>AddBlock\<close> drafts on the tip after \<open>TicksPerSlot\<close> ticks of this clock, and that passes
  \<open>verifyBlockOnAccept\<close>, extends it to a chain that \<open>VerifyChain\<close> accepts, as long as
  registry, snapshots and genesis accounts stay and the leader keeps \<open>MinStake\<close>.
\<close>

theorem VerifyChain_extends:
  assumes "bc_Chain bc = g # rest" "\<forall>b\<in>set rest. b_Tick b \<noteq> - 1" "fmlookup (bc_Validators bc) [] = None"
    and "VerifyChain G bc = Some (bc0, None)" "replay G (bc_Validators bc) rest (bc_Genesis bc) = Inr (bc_State bc)"
    and "ParsePoHHashHex (b_PoHHash (last (g # rest))) = Inr h" "b_Tick (last (g # rest)) \<le> p_CurrentTick p"
    and "p_Hash p = poh_chain G h (b_Tick (last (g # rest))) (p_CurrentTick p)" "unat (p_CurrentTick p) + 21 < 2 ^ 64"
    and "b_Slot g = 0"
    and "drafted G bc (last (g # rest)) (fst (Tick G p TicksPerSlot)) (bc_State bc) (b_Transactions b) b" "acceptable G bc (last (g # rest)) b (bc_State bc)"
    and "\<exists>v. fmlookup (bc_Validators bc) (b_Validator b) = Some v \<and> sint MinStake \<le> sint (v_Stake v)"
    and "bc_Chain bc2 = g # rest @ [b]" "same_view bc bc2" "bc_Genesis bc2 = bc_Genesis bc"
  shows "\<exists>bc'. VerifyChain G bc2 = Some (bc', None) \<and> only_snapshots bc2 bc'"
proof -
  let ?q = "fst (Tick G p TicksPerSlot)" and ?tip = "last (g # rest)"
  obtain err bc1 where acc: "b_Hash g = hash_of_block G g" "\<exists>h. ParsePoHHashHex (b_PoHHash g) = Inr h"
    "chained G bc g rest" "distinct (map b_Slot rest)" "roots_ok G (bc_Validators bc) (bc_Genesis bc) rest"
    using VerifyChain_run [OF assms(1-3), of G] assms(4) by auto
  have contents: "contents_ok G bc b"
    using draftedD [OF assms(11)] assms(12,13) by (auto simp: acceptable_def contents_ok_def)
  have ok: "block_ok G bc ?tip b" "b_Slot ?tip < b_Slot b" "b_Tick b \<noteq> - 1"
    using drafted_block_ok [OF assms(11) contents assms(6-9) chained_last_slot [OF acc(3) assms(10)]] by blast+
  from ok(1) have chain: "chained G bc g (rest @ [b])" using acc(3) by (simp add: chained_snoc)
  have "b_Slot b \<noteq> b_Slot c" if "c \<in> set rest" for c
    using chained_slots [OF acc(3), of c] that ok(2) by auto
  then have slots: "distinct (map b_Slot (rest @ [b]))" using acc(4) by force
  have roots: "roots_ok G (bc_Validators bc) (bc_Genesis bc) (rest @ [b])"
    using assms(12) acc(5) by (auto simp: roots_ok_snoc [OF assms(5)] acceptable_def)
  have ticks: "\<forall>x\<in>set (rest @ [b]). b_Tick x \<noteq> - 1" using assms(2) ok(3) by auto
  have same: "bc_Validators bc2 = bc_Validators bc" using assms(15) by (simp add: same_view_def)
  have "chained G bc2 g' xs = chained G bc g' xs" for g' xs by (rule chained_same_view [OF assms(15)])
  then show ?thesis
    using VerifyChain_run [OF assms(14) ticks, of G] acc(1,2) chain slots roots assms(3,16) same by auto
qed

theorem VerifyChain_extends_witness:
  "\<exists>b bc'. VerifyChain demo_lib (demo_fresh\<lparr>bc_Chain := [genesis_block demo_lib 3, b]\<rparr>) = Some (bc', None) \<and> b_Validator b = ''alice''"
proof -
  let ?g = "genesis_block demo_lib 3" and ?p = "NewPoH demo_seed"
  obtain b where b: "drafted demo_lib demo_fresh ?g (fst (Tick demo_lib ?p TicksPerSlot)) rich [] b"
    "acceptable demo_lib demo_fresh ?g b rich" "b_Validator b = ''alice''"
    using demo_fresh_block by blast
  have ticks: "\<forall>b\<in>set []. b_Tick b \<noteq> - 1" by simp
  obtain bc0 where v: "VerifyChain demo_lib demo_fresh = Some (bc0, None)"
    using VerifyChain_run [OF demo_fresh_fields(1) ticks demo_fresh_fields(2), of demo_lib]
    by (auto simp: genesis_block_hash genesis_block_fields)
  have r: "replay demo_lib (bc_Validators demo_fresh) [] (bc_Genesis demo_fresh) = Inr (bc_State demo_fresh)"
    by (simp add: demo_fresh_fields)
  have h: "ParsePoHHashHex (b_PoHHash (last [?g])) = Inr demo_seed" "b_Tick (last [?g]) \<le> p_CurrentTick ?p"
    "p_Hash ?p = poh_chain demo_lib demo_seed (b_Tick (last [?g])) (p_CurrentTick ?p)"
    "unat (p_CurrentTick ?p) + 21 < 2 ^ 64" "b_Slot ?g = 0"
    by (simp_all add: genesis_block_fields NewPoH_def demo_seed_def)
  have stake: "\<exists>v. fmlookup (bc_Validators demo_fresh) (b_Validator b) = Some v \<and> sint MinStake \<le> sint (v_Stake v)"
    by (simp add: demo_fresh_fields b(3))
  have b': "drafted demo_lib demo_fresh (last [?g]) (fst (Tick demo_lib ?p TicksPerSlot)) (bc_State demo_fresh) (b_Transactions b) b"
    "acceptable demo_lib demo_fresh (last [?g]) b (bc_State demo_fresh)"
    using b draftedD(8) [OF b(1)] by (simp_all add: demo_fresh_fields)
  let ?bc2 = "demo_fresh\<lparr>bc_Chain := [?g, b]\<rparr>"
  have e: "bc_Chain ?bc2 = ?g # [] @ [b]" "same_view demo_fresh ?bc2" "bc_Genesis ?bc2 = bc_Genesis demo_fresh"
    by (simp_all add: same_view_def snap_view_def split: option.split)
  from VerifyChain_extends [OF demo_fresh_fields(1) ticks demo_fresh_fields(2) v r h(1-3,4,5) b' stake e] b(3)
  show ?thesis by auto
qed

end
