(* ===== verification/External.thy ===== *)
theory External
  imports Production
begin

text \<open>
  What \<open>AddBlockExternal\<close> does: it drafts a block for the next slot on any stored parent, with the ledger
  replayed along the parent's branch, and runs it through the checks of \<open>AddBlock\<close>.
\<close>

section \<open>Outcomes\<close>

text \<open>
  \<open>fresh_child G h txs bc\<close>: the block that \<open>AddBlockExternal\<close> would make of \<open>txs\<close> on the block \<open>h\<close> now, with the ledger
  replayed along the branch of \<open>h\<close>, does not have the hash of a stored block.
\<close>

definition fresh_child :: "golib \<Rightarrow> string \<Rightarrow> Transaction list \<Rightarrow> ('bs, 'ss) Blockchain \<Rightarrow> bool" where
  "fresh_child G h txs bc \<longleftrightarrow> (\<forall>p parent s. bc_poh bc = Some p \<longrightarrow> fmlookup (bc_Blocks bc) h = Some parent \<longrightarrow>
     stateAtTip G h bc = Some (Inr s) \<longrightarrow> unstored bc (draft_of G bc parent (fst (Tick G p TicksPerSlot)) s txs))"

lemma stateAtTip_rooted: "rooted (bc_Blocks bc) h c \<Longrightarrow> h \<noteq> [] \<Longrightarrow>
    stateAtTip G h bc = Some (replay G (bc_Validators bc) (drop 1 c) (bc_Genesis bc))"
  by (simp add: stateAtTip_def chainFromTip_rooted)

lemma fresh_childD:
  assumes "fresh_child G h txs bc" "canonical_ok bc" "bc_poh bc = Some p" "fmlookup (bc_Blocks bc) h = Some parent"
    and "rooted (bc_Blocks bc) h c" "replay G (bc_Validators bc) (drop 1 c) (bc_Genesis bc) = Inr s"
    and "drafted G bc parent (fst (Tick G p TicksPerSlot)) s txs b"
  shows "fmlookup (bc_Blocks bc) (b_Hash b) = None"
proof (rule drafted_unstored [OF assms(7)])
  have "stateAtTip G h bc = Some (Inr s)"
    using stateAtTip_rooted [OF assms(5) tree_okD(2) [OF canonical_okD(1) [OF assms(2)] assms(4)], of G] assms(6) by simp
  with assms(1,3,4) show "unstored bc (draft_of G bc parent (fst (Tick G p TicksPerSlot)) s txs)" by (simp add: fresh_child_def)
qed

lemma AddBlockExternal_cases:
  fixes G :: golib and bc :: "('bs, 'ss) Blockchain" and p :: PoH and rnd :: nat and txs :: "Transaction list"
  assumes "canonical_ok bc" "bc_Validators bc \<noteq> fmempty" "bc_poh bc = Some p"
    and "fmlookup (bc_Blocks bc) h = Some parent" "rooted (bc_Blocks bc) h c"
  defines "q \<equiv> fst (Tick G p TicksPerSlot)"
  obtains (rejected) bc' e where "AddBlockExternal G rnd h txs bc = Some (bc', [], Some e)" "untouched bc bc'" "bc_poh bc' = Some q"
  | (committed) bc1 b s where "drafted G bc parent q s txs b" "acceptable G bc parent b s" "untouched bc bc1" "bc_poh bc1 = Some q"
      "replay G (bc_Validators bc) (drop 1 c) (bc_Genesis bc) = Inr s"
      "AddBlockExternal G rnd h txs bc =
        do { (bc', err) \<leftarrow> commit_block G b (leader_view G bc (Slot q)) bc1; Some (bc', b_Hash b, err) }" "b_Transactions b = txs"
proof -
  let ?leader = "leader_view G bc (Slot q)"
  let ?addr = "validatorRewardAddress G (bc_Validators bc) ?leader"
  let ?bc1 = "ensureSnapshot G (epochForSlot (Slot q) bc) (bc\<lparr>bc_poh := Some q\<rparr>)"
  note only = ensureSnapshot_only(1) [of "bc\<lparr>bc_poh := Some q\<rparr>" G "epochForSlot (Slot q) bc"]
  have u1: "untouched bc ?bc1" by (rule untouched_trans [OF untouched_poh untouched_only [OF only]])
  have v1: "same_view bc ?bc1" by (rule same_view_trans [OF same_view_poh same_view_only [OF only]])
  have p1: "bc_poh ?bc1 = Some q" by (simp add: only_snapshots_frame(7) [OF only])
  have step: "next_slot G p bc = (?bc1, q, Slot q, ?leader, ?addr)" by (simp add: next_slot_run q_def Let_def)
  have slashed: "untouched bc (slash ?leader ?bc1)" "bc_poh (slash ?leader ?bc1) = Some q"
    using u1 p1 by (simp_all add: untouched_slash)
  have "h \<noteq> []" using tree_okD(2) [OF canonical_okD(1) [OF assms(1)] assms(4)] .
  moreover have "rooted (bc_Blocks ?bc1) h c" using assms(5) by (simp add: only_snapshots_frame(2) [OF only])
  ultimately have state: "stateAtTip G h ?bc1 = Some (replay G (bc_Validators bc) (drop 1 c) (bc_Genesis bc))"
    using stateAtTip_rooted [of ?bc1 h c G] by (simp add: only_snapshots_frame(5,9) [OF only])
  let ?s = "replay G (bc_Validators bc) (drop 1 c) (bc_Genesis bc)"
  have run: "AddBlockExternal G rnd h txs bc = (case VerifyTransactions G txs of
      Some e \<Rightarrow> Some (slash ?leader ?bc1, [], Some e)
    | None \<Rightarrow> (case ?s of
        Inl e \<Rightarrow> Some (?bc1, [], Some e)
      | Inr s \<Rightarrow> (case ApplyTransactions s txs ?addr of
          Inl e \<Rightarrow> Some (slash ?leader ?bc1, [], Some e)
        | Inr nextState \<Rightarrow> seal_block G rnd parent s (draft_block G parent (Slot q) q ?leader txs nextState) ?leader ?bc1)))"
    using assms(2-4) by (cases "VerifyTransactions G txs") (simp_all add: AddBlockExternal_def step state Let_def)
  consider e where "AddBlockExternal G rnd h txs bc = Some (slash ?leader ?bc1, [], Some e)"
    | e where "AddBlockExternal G rnd h txs bc = Some (?bc1, [], Some e)"
    | s t where "?s = Inr s" "ApplyTransactions s txs ?addr = Inr t" "AddBlockExternal G rnd h txs bc =
        seal_block G rnd parent s (draft_block G parent (Slot q) q ?leader txs t) ?leader ?bc1"
    using run by (auto split: option.splits sum.splits)
  then show thesis
  proof cases
    case 1
    then show thesis using rejected [OF _ slashed] by simp
  next
    case 2
    then show thesis using rejected [OF _ u1 p1] by simp
  next
    case (3 s t)
    note run2 = 3
    show thesis
    proof (rule seal_draft_cases [OF u1 v1 p1 refl 3(2), of rnd parent])
      fix bc' e
      assume "seal_block G rnd parent s (draft_block G parent (Slot q) q ?leader txs t) ?leader ?bc1 = Some (bc', [], Some e)"
        "untouched bc bc'" "bc_poh bc' = Some q"
      then show thesis using run2 by (intro rejected) simp_all
    next
      fix bc3 b
      assume "drafted G bc parent q s txs b" "acceptable G bc parent b s" "untouched bc bc3" "bc_poh bc3 = Some q"
        "b_Transactions b = txs" "seal_block G rnd parent s (draft_block G parent (Slot q) q ?leader txs t) ?leader ?bc1 =
          (do { (bc', eqErr) \<leftarrow> commit_block G b ?leader bc3; Some (bc', b_Hash b, eqErr) })"
      then show thesis using run2 by (intro committed) simp_all
    qed
  qed
qed

lemma commit_on_parent:
  assumes "canonical_ok bc" "untouched bc bc1" "chainTipSlot bc \<noteq> - 1" "drafted G bc parent q state ts b"
    and "fmlookup (bc_Blocks bc) h = Some parent" "fmlookup (bc_Blocks bc) (b_Hash b) = None"
  shows "\<exists>bc' err. commit_block G b validator bc1 = Some (bc', err) \<and> canonical_ok bc' \<and>
    bc_Blocks bc' = fmupd (b_Hash b) b (bc_Blocks bc) \<and> bc_Parents bc' = fmupd (b_Hash b) (b_PrevHash b) (bc_Parents bc) \<and>
    bc_CanonicalTip bc' \<in> {b_Hash b, bc_CanonicalTip bc} \<and> (\<forall>G. pool_ok G bc \<longrightarrow> pool_ok G bc') \<and>
    bc_poh bc' = bc_poh bc1 \<and> chainTipSlot bc' \<noteq> - 1 \<and> keeps_final bc bc' \<and> setup_kept bc bc' \<and>
    err \<in> {None, Some ErrEquivocation}"
proof -
  have same: "bc_Blocks bc1 = bc_Blocks bc" "bc_CanonicalTip bc1 = bc_CanonicalTip bc" "chainTipSlot bc1 = chainTipSlot bc"
    "bc_Parents bc1 = bc_Parents bc" "bc_Chain bc1 = bc_Chain bc" "bc_FinalizedSlot bc1 = bc_FinalizedSlot bc"
    using assms(2) by (simp_all add: untouched_def chainTipSlot_def)
  have ok1: "canonical_ok bc1" using canonical_ok_untouched [OF assms(2)] assms(1) by simp
  have b: "b_PrevHash b = h" "b_Hash b = hash_of_block G b" "b_Slot b = Slot q"
    using draftedD [OF assms(4)] tree_okD(1) [OF canonical_okD(1) [OF assms(1)] assms(5)] by simp_all
  have "length (b_Hash b) = 64" by (simp add: b(2) HashBlock_def)
  then have "b_Hash b \<noteq> []" "b_Hash b \<noteq> ''GENESIS''" by auto
  with commit_block_effect [OF ok1, of b G validator] assms(3,5,6) b same Slot_not_max obtain bc' err where
    r: "commit_block G b validator bc1 = Some (bc', err)" "canonical_ok bc'"
      "bc_Blocks bc' = fmupd (b_Hash b) b (bc_Blocks bc)" "bc_Parents bc' = fmupd (b_Hash b) (b_PrevHash b) (bc_Parents bc)"
      "bc_CanonicalTip bc' = b_Hash b \<or> bc_CanonicalTip bc' = bc_CanonicalTip bc" "bc_Mempool bc' = bc_Mempool bc1"
      "bc_poh bc' = bc_poh bc1" "chainTipSlot bc' \<noteq> - 1" "keeps_final bc1 bc'" "setup_kept bc1 bc'"
    by auto
  note setup_kept_trans [OF setup_kept_untouched [OF assms(2)] r(10)]
  moreover have "keeps_final bc bc'" using r(9) same by (simp add: keeps_final_def)
  moreover have "\<forall>G. pool_ok G bc \<longrightarrow> pool_ok G bc'" using assms(2) r(6) by (simp add: untouched_def pool_ok_def)
  moreover have "err \<in> {None, Some ErrEquivocation}" by (rule commit_block_err [OF r(1)])
  ultimately show ?thesis using r by blast
qed

section \<open>Properties\<close>

text \<open>
  C12: \<open>AddBlockExternal\<close> on a well-formed chain and a stored parent returns, when the hash of the block it
  makes there is not that of a stored block.  Either it reports an error and leaves chain, blocks, ledger and
  finality alone; or the ledger could be replayed along the parent's branch, the returned hash is that of a block
  on that parent which passed every check against the replayed ledger, the block is stored, and the tip is the new
  block or the old tip.
  In both cases the clock is one slot further, the chain stays well formed, final blocks, the configuration and
  the epoch snapshots stay, and no validator appears or changes its keys.
\<close>

theorem AddBlockExternal_outcome:
  assumes "canonical_ok bc" "bc_Validators bc \<noteq> fmempty" "bc_poh bc = Some p" "chainTipSlot bc \<noteq> - 1"
    and "fmlookup (bc_Blocks bc) h = Some parent" "rooted (bc_Blocks bc) h c" "fresh_child G h txs bc"
    and "q = fst (Tick G p TicksPerSlot)"
  shows "\<exists>bc' hash err. AddBlockExternal G rnd h txs bc = Some (bc', hash, err) \<and> canonical_ok bc' \<and> bc_poh bc' = Some q \<and>
    keeps_final bc bc' \<and> setup_kept bc bc' \<and>
    (hash = [] \<and> err \<noteq> None \<and> untouched bc bc' \<or>
     (\<exists>b s. replay G (bc_Validators bc) (drop 1 c) (bc_Genesis bc) = Inr s \<and> drafted G bc parent q s txs b \<and>
       acceptable G bc parent b s \<and> hash = b_Hash b \<and> err \<in> {None, Some ErrEquivocation} \<and>
       bc_Blocks bc' = fmupd (b_Hash b) b (bc_Blocks bc) \<and> bc_CanonicalTip bc' \<in> {b_Hash b, bc_CanonicalTip bc}))"
proof (cases rule: AddBlockExternal_cases [OF assms(1-3,5,6), of G rnd txs, folded assms(8)])
  case (1 bc' e)
  have "keeps_final bc bc'" using 1(2) by (intro keeps_final_same) (simp_all add: untouched_def)
  with 1 canonical_ok_untouched [OF 1(2)] setup_kept_untouched [OF 1(2)] assms(1) show ?thesis
    by (intro exI [of _ bc'] exI [of _ "[]"] exI [of _ "Some e"]) simp
next
  case (2 bc1 b s)
  have "fmlookup (bc_Blocks bc) (b_Hash b) = None"
    by (rule fresh_childD [OF assms(7,1,3,5,6) 2(5)]) (use 2(1) in \<open>simp add: assms(8)\<close>)
  from commit_on_parent [OF assms(1) 2(3) assms(4) 2(1) assms(5) this] obtain bc' err where
    r: "commit_block G b (leader_view G bc (Slot q)) bc1 = Some (bc', err)" "canonical_ok bc'"
      "bc_Blocks bc' = fmupd (b_Hash b) b (bc_Blocks bc)" "bc_CanonicalTip bc' \<in> {b_Hash b, bc_CanonicalTip bc}"
      "bc_poh bc' = bc_poh bc1" "keeps_final bc bc'" "setup_kept bc bc'" "err \<in> {None, Some ErrEquivocation}"
    by blast
  have "AddBlockExternal G rnd h txs bc = Some (bc', b_Hash b, err)" using 2(6) r(1) by simp
  with r 2(1,2,4,5) show ?thesis
    by (intro exI [of _ bc'] exI [of _ "b_Hash b"] exI [of _ err]) auto
qed

theorem AddBlockExternal_outcome_witness:
  "\<exists>bc' hash err. AddBlockExternal demo_lib 0 ''g'' [] demo_live = Some (bc', hash, err) \<and> canonical_ok bc'"
proof -
  have hyps: "bc_Validators demo_live \<noteq> fmempty" "bc_poh demo_live = Some (NewPoH demo_seed)"
    using demo_live_ok(3) by (simp_all add: demo_live_fields)
  have g: "fmlookup (bc_Blocks demo_live) ''g'' = Some root_block" by (simp add: demo_live_fields demo_blocks_def)
  have c: "rooted (bc_Blocks demo_live) ''g'' [root_block]" by (rule rooted.root [OF g]) simp
  have "fresh_child demo_lib ''g'' [] demo_live" by (simp add: fresh_child_def unstored_demo demo_live_fields(4))
  from AddBlockExternal_outcome [OF demo_live_ok(1) hyps demo_live_ok(2) g c this refl, of 0] show ?thesis by blast
qed

end
