(* ===== verification/Forks.thy ===== *)
theory Forks
  imports Chain
begin

text \<open>
  \<open>core/blockchain.go\<close>, what a node reports: scores with a cache of weights, the tips of all forks, the
  validators' summaries.  The order in which \<open>range\<close> visits the blocks and the registry is taken to be that of their keys; the results are sorted
  afterwards by an order without ties, so that they are the same for every other order.
\<close>

section \<open>Cached weights\<close>

partial_function (option) cumulativeWeightCached :: "golib \<Rightarrow> string \<Rightarrow> ('bs, 'ss) Blockchain \<Rightarrow> (string, u64) fmap
    \<Rightarrow> (('bs, 'ss) Blockchain \<times> (string, u64) fmap \<times> u64) option" where
  "cumulativeWeightCached G hash bc cache =
    (case fmlookup cache hash of
      Some v \<Rightarrow> Some (bc, cache, v)
    | None \<Rightarrow>
      (case fmlookup (bc_Blocks bc) hash of
        None \<Rightarrow> Some (bc, cache, 0)
      | Some block \<Rightarrow>
        (let (bc, weight) = snapshotStake G (b_Slot block) (b_Validator block) bc in
         if b_PrevHash block \<noteq> ''GENESIS'' then do {
           (bc, cache, v) \<leftarrow> cumulativeWeightCached G (b_PrevHash block) bc cache;
           let weight = weight + v;
           Some (bc, fmupd hash weight cache, weight)
         } else Some (bc, fmupd hash weight cache, weight))))"

definition scoreTipCached :: "golib \<Rightarrow> string \<Rightarrow> ('bs, 'ss) Blockchain \<Rightarrow> (string, u64) fmap
    \<Rightarrow> (('bs, 'ss) Blockchain \<times> (string, u64) fmap \<times> ChainScore) option" where
  "scoreTipCached G tipHash bc cache =
    (case fmlookup (bc_Blocks bc) tipHash of
      None \<Rightarrow> Some (bc, cache, zero_score)
    | Some block \<Rightarrow> do {
        (bc, cache, weight) \<leftarrow> cumulativeWeightCached G tipHash bc cache;
        Some (bc, cache, \<lparr>cs_Slot = b_Slot block, cs_CumulativeWeight = weight, cs_Hash = b_Hash block\<rparr>)
      })"

definition WeightDeltaRequired :: "golib \<Rightarrow> u64 \<Rightarrow> u64 \<Rightarrow> ('bs, 'ss) Blockchain \<Rightarrow> ('bs, 'ss) Blockchain \<times> u64 \<times> u64" where
  "WeightDeltaRequired G oldWeight newWeight bc = weightDeltaRequired G oldWeight newWeight bc"

definition CanonicalTipHash :: "('bs, 'ss) Blockchain \<Rightarrow> string" where
  "CanonicalTipHash bc = bc_CanonicalTip bc"

definition ScoreTip :: "golib \<Rightarrow> string \<Rightarrow> ('bs, 'ss) Blockchain \<Rightarrow> (('bs, 'ss) Blockchain \<times> ChainScore) option" where
  "ScoreTip G tipHash bc = scoreTip G tipHash bc"

definition GetReorgStats :: "('bs, 'ss) Blockchain \<Rightarrow> ReorgMetrics" where
  "GetReorgStats bc = bc_ReorgStats bc"

definition ResetReorgStats :: "('bs, 'ss) Blockchain \<Rightarrow> ('bs, 'ss) Blockchain" where
  "ResetReorgStats bc = bc\<lparr>bc_ReorgStats := \<lparr>rm_Info = 0, rm_Warn = 0, rm_Error = 0, rm_Critical = 0\<rparr>\<rparr>"

section \<open>The tips of all forks\<close>

record ForkCandidate =
  fc_Hash :: string
  fc_Slot :: u64
  fc_CumulativeWeight :: u64
  fc_Parent :: string

definition candidate_before :: "ForkCandidate \<Rightarrow> ForkCandidate \<Rightarrow> bool" where
  \<comment> \<open>the comparison passed to \<open>sort.Slice\<close>\<close>
  "candidate_before a b =
    (if fc_CumulativeWeight a \<noteq> fc_CumulativeWeight b then fc_CumulativeWeight b < fc_CumulativeWeight a
     else if fc_Slot a \<noteq> fc_Slot b then fc_Slot b < fc_Slot a
     else fc_Hash a < fc_Hash b)"

definition candidate_score :: "ForkCandidate \<Rightarrow> ChainScore" where
  "candidate_score c = \<lparr>cs_Slot = fc_Slot c, cs_CumulativeWeight = fc_CumulativeWeight c, cs_Hash = fc_Hash c\<rparr>"

interpretation tips: keyed_order candidate_before "score_key \<circ> candidate_score"
  by unfold_locales
    (simp add: candidate_before_def betterScore_def candidate_score_def fork.before_key [symmetric])

definition has_child :: "(string, string) fmap \<Rightarrow> (string, bool) fmap" where
  "has_child parents = range_loop (\<lambda>_ parent m. if parent \<noteq> [] \<and> parent \<noteq> ''GENESIS'' then fmupd parent True m else m)
     parents fmempty"

primrec collect_tips :: "golib \<Rightarrow> (string, bool) fmap \<Rightarrow> string list \<Rightarrow> ('bs, 'ss) Blockchain \<Rightarrow> (string, u64) fmap
    \<Rightarrow> ForkCandidate list \<Rightarrow> (('bs, 'ss) Blockchain \<times> ForkCandidate list) option" where
  "collect_tips G hasChild [] bc cache candidates = Some (bc, candidates)"
| "collect_tips G hasChild (hash # hashes) bc cache candidates =
    (if hash = [] then collect_tips G hasChild hashes bc cache candidates
     else if get_or False hasChild hash then collect_tips G hasChild hashes bc cache candidates
     else do {
       (bc', cache, score) \<leftarrow> scoreTipCached G hash bc cache;
       collect_tips G hasChild hashes bc' cache (candidates @ [\<lparr>fc_Hash = hash, fc_Slot = cs_Slot score,
         fc_CumulativeWeight = cs_CumulativeWeight score, fc_Parent = b_PrevHash (the (fmlookup (bc_Blocks bc) hash))\<rparr>])
     })"

definition GetForkCandidates :: "golib \<Rightarrow> ('bs, 'ss) Blockchain \<Rightarrow> (('bs, 'ss) Blockchain \<times> ForkCandidate list) option" where
  "GetForkCandidates G bc =
    (if bc_Blocks bc = fmempty then Some (bc, [])
     else do {
       (bc, candidates) \<leftarrow> collect_tips G (has_child (bc_Parents bc)) (keys_of (bc_Blocks bc)) bc fmempty [];
       Some (bc, sort_key (score_key \<circ> candidate_score) candidates)
     })"

section \<open>Summaries of the validators\<close>

text \<open>\<open>float64(missed) / float64(total)\<close> is the parameter \<open>ratio\<close>; \<open>rate0\<close> is the \<open>float64\<close> zero.\<close>

record 'f ValidatorSummary =
  vsm_Name :: string
  vsm_Produced :: u64
  vsm_Missed :: u64
  vsm_MissRate :: 'f
  vsm_Slashed :: bool
  vsm_JailedUntil :: u64

definition produced_counts :: "(u64, string) fmap \<Rightarrow> (string, u64) fmap" where
  "produced_counts slots = range_loop (\<lambda>_ v m. fmupd v (get_or 0 m v + 1) m) slots fmempty"

definition validator_summary :: "(u64 \<Rightarrow> u64 \<Rightarrow> 'f) \<Rightarrow> 'f \<Rightarrow> stats_map option \<Rightarrow> (string, u64) fmap \<Rightarrow> string \<Rightarrow> 'f ValidatorSummary" where
  "validator_summary ratio rate0 Stats produced name =
    (let stats = (case Stats of None \<Rightarrow> None | Some m \<Rightarrow> fmlookup m name);
         (missed, slashed, jailed) = (case stats of None \<Rightarrow> (0, False, 0)
           | Some st \<Rightarrow> (vs_MissedSlots st, vs_Slashed st, vs_JailedUntilEpoch st));
         prod = get_or 0 produced name;
         total = prod + missed;
         rate = (if 0 < total then ratio missed total else rate0)
     in \<lparr>vsm_Name = name, vsm_Produced = prod, vsm_Missed = missed, vsm_MissRate = rate, vsm_Slashed = slashed,
          vsm_JailedUntil = jailed\<rparr>)"

definition GetValidatorSummaries :: "(u64 \<Rightarrow> u64 \<Rightarrow> 'f) \<Rightarrow> 'f \<Rightarrow> ('bs, 'ss) Blockchain \<Rightarrow> 'f ValidatorSummary list" where
  "GetValidatorSummaries ratio rate0 bc =
    (let names = keys_of (bc_Validators bc); produced = produced_counts (bc_SlotProduced bc)
     in map (validator_summary ratio rate0 (bc_Stats bc) produced) names)"

section \<open>The cache is sound\<close>

definition cache_ok :: "('bs, 'ss) Blockchain \<Rightarrow> (string, u64) fmap \<Rightarrow> bool" where
  "cache_ok bc cache \<longleftrightarrow> (\<forall>h v. fmlookup cache h = Some v \<longrightarrow> (\<exists>c. rooted (bc_Blocks bc) h c \<and> v = chain_weight bc c))"

lemma cache_ok_only: "only_snapshots bc bc' \<Longrightarrow> cache_ok bc' cache = cache_ok bc cache"
  by (simp add: cache_ok_def only_snapshots_frame(2) chain_weight_only)

lemma cache_ok_upd: "cache_ok bc cache \<Longrightarrow> rooted (bc_Blocks bc) h c \<Longrightarrow> cache_ok bc (fmupd h (chain_weight bc c) cache)"
  by (auto simp: cache_ok_def)

lemma cumulativeWeight_rooted:
  "rooted (bc_Blocks bc) h c \<Longrightarrow> cache_ok bc cache \<Longrightarrow>
    \<exists>bc' cache'. cumulativeWeightCached G h bc cache = Some (bc', cache', chain_weight bc c) \<and>
      only_snapshots bc bc' \<and> cache_ok bc' cache'"
proof (induction c arbitrary: bc h cache rule: rev_induct)
  case Nil
  then show ?case using rooted_nonempty by blast
next
  case (snoc b c)
  show ?case
  proof (cases "fmlookup cache h")
    case (Some v)
    with snoc.prems obtain d where "rooted (bc_Blocks bc) h d" "v = chain_weight bc d" by (auto simp: cache_ok_def)
    with rooted_unique [OF snoc.prems(1)] have "v = chain_weight bc (c @ [b])" by blast
    with Some snoc.prems(2) show ?thesis by (subst cumulativeWeightCached.simps) simp
  next
    case None
    have b: "fmlookup (bc_Blocks bc) h = Some b" using rooted_last [OF snoc.prems(1)] by simp
    let ?bc = "ensureSnapshot G (epochForSlot (b_Slot b) bc) bc"
    note only = ensureSnapshot_only(1) [of bc G "epochForSlot (b_Slot b) bc"]
    have whole: "rooted (bc_Blocks ?bc) h (c @ [b])" using snoc.prems(1) by (simp add: only_snapshots_frame(2) [OF only])
    have cache: "cache_ok ?bc cache" using snoc.prems(2) by (simp add: cache_ok_only [OF only])
    show ?thesis
    proof (cases "b_PrevHash b = ''GENESIS''")
      case True
      with rooted_simps [OF b] snoc.prems(1) have "c = []" by simp
      with True b None only cache_ok_upd [OF cache whole] show ?thesis
        by (subst cumulativeWeightCached.simps) (simp add: snapshotStake_view chain_weight_only [OF only] only_snapshots_views(3) [OF only])
    next
      case False
      with rooted_simps [OF b] snoc.prems(1) have "rooted (bc_Blocks ?bc) (b_PrevHash b) c"
        by (simp add: only_snapshots_frame(2) [OF only])
      from snoc.IH [OF this cache] obtain bc' cache' where
        r: "cumulativeWeightCached G (b_PrevHash b) ?bc cache = Some (bc', cache', chain_weight ?bc c)"
          "only_snapshots ?bc bc'" "cache_ok bc' cache'" by blast
      note only' = only_snapshots_trans [OF only r(2)]
      have whole': "rooted (bc_Blocks bc') h (c @ [b])" using snoc.prems(1) by (simp add: only_snapshots_frame(2) [OF only'])
      let ?w = "chain_weight bc (c @ [b])"
      have "cumulativeWeightCached G h bc cache = Some (bc', fmupd h ?w cache', ?w)"
        using False b None r(1) by (subst cumulativeWeightCached.simps)
          (simp add: snapshotStake_view chain_weight_only [OF only] ac_simps Let_def)
      moreover have "cache_ok bc' (fmupd h ?w cache')"
        using cache_ok_upd [OF r(3) whole'] by (simp only: chain_weight_only [OF only'])
      ultimately show ?thesis using only' by blast
    qed
  qed
qed

lemma scoreTipCached_rooted:
  assumes "rooted (bc_Blocks bc) h c" "cache_ok bc cache"
  shows "\<exists>bc' cache'. scoreTipCached G h bc cache = Some (bc', cache', score_of bc c) \<and> only_snapshots bc bc' \<and> cache_ok bc' cache'"
  using cumulativeWeight_rooted [OF assms, of G] rooted_last [OF assms(1)]
  by (auto simp: scoreTipCached_def score_of_def)

text \<open>
  C20: the cache of weights changes no score.  For every stored block of a well-formed chain, and every cache
  that earlier calls filled, \<open>scoreTipCached\<close> returns what \<open>scoreTip\<close> returns, changes only
  snapshots, and leaves a cache for which this holds again.
\<close>

theorem cached_scores_equal:
  assumes "canonical_ok bc" "fmlookup (bc_Blocks bc) h = Some b" "cache_ok bc cache"
  shows "\<exists>bc1 bc2 cache' score. scoreTip G h bc = Some (bc1, score) \<and> scoreTipCached G h bc cache = Some (bc2, cache', score) \<and>
    only_snapshots bc bc2 \<and> cache_ok bc2 cache'"
proof -
  from tree_okD(4) [OF canonical_okD(1) [OF assms(1)] assms(2)] obtain c where c: "rooted (bc_Blocks bc) h c" by blast
  from scoreTip_rooted [OF c, of G] scoreTipCached_rooted [OF c assms(3), of G] show ?thesis by blast
qed

theorem cached_scores_equal_witness:
  "\<exists>bc1 bc2 cache score. scoreTip demo_lib ''h'' demo_bc = Some (bc1, score) \<and>
    scoreTipCached demo_lib ''h'' demo_bc fmempty = Some (bc2, cache, score)"
proof -
  have "fmlookup (bc_Blocks demo_bc) ''h'' \<noteq> None" by (simp add: demo_bc_def demo_blocks_def)
  then obtain b where "fmlookup (bc_Blocks demo_bc) ''h'' = Some b" by blast
  moreover have "cache_ok demo_bc fmempty" by (simp add: cache_ok_def)
  ultimately show ?thesis using cached_scores_equal [OF demo_bc_ok, of "''h''" _ fmempty demo_lib] by blast
qed

section \<open>Candidates\<close>

definition parents_ok :: "('bs, 'ss) Blockchain \<Rightarrow> bool" where
  "parents_ok bc \<longleftrightarrow> bc_Parents bc = fmmap b_PrevHash (bc_Blocks bc)"

definition is_tip :: "blocks \<Rightarrow> string \<Rightarrow> bool" where
  "is_tip blocks h \<longleftrightarrow> h |\<in>| fmdom blocks \<and> (\<forall>k b. fmlookup blocks k = Some b \<longrightarrow> b_PrevHash b \<noteq> h)"

definition candidate_of :: "('bs, 'ss) Blockchain \<Rightarrow> string \<Rightarrow> Block list \<Rightarrow> ForkCandidate" where
  "candidate_of bc h c = \<lparr>fc_Hash = h, fc_Slot = b_Slot (last c), fc_CumulativeWeight = chain_weight bc c,
     fc_Parent = b_PrevHash (last c)\<rparr>"

lemma has_child_lookup: "fmlookup (has_child parents) h =
    (if h \<noteq> [] \<and> h \<noteq> ''GENESIS'' \<and> (\<exists>k. fmlookup parents k = Some h) then Some True else None)"
proof -
  have "fmlookup (fold (\<lambda>k m. if the (fmlookup parents k) \<noteq> [] \<and> the (fmlookup parents k) \<noteq> ''GENESIS''
        then fmupd (the (fmlookup parents k)) True m else m) ks m) h =
      (if h \<noteq> [] \<and> h \<noteq> ''GENESIS'' \<and> h \<in> (\<lambda>k. the (fmlookup parents k)) ` set ks then Some True else fmlookup m h)" for ks m
    by (induction ks arbitrary: m) auto
  moreover have "h \<in> (\<lambda>k. the (fmlookup parents k)) ` set (keys_of parents) \<longleftrightarrow> (\<exists>k. fmlookup parents k = Some h)"
    by (auto simp: fmlookup_dom_iff image_iff) (metis fmdomI option.sel)
  ultimately show ?thesis by (simp add: has_child_def range_loop_def)
qed

lemma skip_iff:
  assumes "canonical_ok bc" "parents_ok bc" "h |\<in>| fmdom (bc_Blocks bc)"
  shows "h = [] \<or> get_or False (has_child (bc_Parents bc)) h \<longleftrightarrow> \<not> is_tip (bc_Blocks bc) h"
proof -
  from assms(3) obtain b where "fmlookup (bc_Blocks bc) h = Some b" by (auto simp: fmlookup_dom_iff)
  with tree_okD(2,3) [OF canonical_okD(1) [OF assms(1)]] have "h \<noteq> []" "h \<noteq> ''GENESIS''" by blast+
  with assms(2,3) show ?thesis
    by (auto simp: is_tip_def get_or_def has_child_lookup parents_ok_def)
qed

lemma collect_tips_run:
  assumes "canonical_ok bc0" "parents_ok bc0"
  shows "only_snapshots bc0 bc \<Longrightarrow> cache_ok bc cache \<Longrightarrow> set hashes \<subseteq> fset (fmdom (bc_Blocks bc0)) \<Longrightarrow>
    \<exists>bc' cs. collect_tips G (has_child (bc_Parents bc0)) hashes bc cache out = Some (bc', out @ cs) \<and> only_snapshots bc0 bc' \<and>
      map fc_Hash cs = filter (is_tip (bc_Blocks bc0)) hashes \<and>
      (\<forall>x\<in>set cs. \<exists>c. rooted (bc_Blocks bc0) (fc_Hash x) c \<and> x = candidate_of bc0 (fc_Hash x) c)"
proof (induction hashes arbitrary: bc cache out)
  case Nil
  then show ?case by simp
next
  case (Cons h hashes)
  note rest = Cons.prems(3) [simplified]
  have skip: "h = [] \<or> get_or False (has_child (bc_Parents bc0)) h \<longleftrightarrow> \<not> is_tip (bc_Blocks bc0) h"
    by (rule skip_iff [OF assms]) (use rest in blast)
  show ?case
  proof (cases "is_tip (bc_Blocks bc0) h")
    case False
    with skip have "collect_tips G (has_child (bc_Parents bc0)) (h # hashes) bc cache out =
        collect_tips G (has_child (bc_Parents bc0)) hashes bc cache out" by auto
    with Cons.IH [OF Cons.prems(1,2), of out] rest False show ?thesis by simp
  next
    case True
    from rest obtain b where b: "fmlookup (bc_Blocks bc0) h = Some b" by (auto simp: fmlookup_dom_iff)
    from tree_okD(4) [OF canonical_okD(1) [OF assms(1)] b] obtain c where c: "rooted (bc_Blocks bc0) h c" by blast
    have blocks: "bc_Blocks bc = bc_Blocks bc0" by (rule only_snapshots_frame(2) [OF Cons.prems(1)])
    with c have "rooted (bc_Blocks bc) h c" by simp
    from scoreTipCached_rooted [OF this Cons.prems(2), of G] obtain bc1 cache1 where
      r: "scoreTipCached G h bc cache = Some (bc1, cache1, score_of bc c)" "only_snapshots bc bc1" "cache_ok bc1 cache1" by blast
    let ?x = "candidate_of bc0 h c"
    have last: "last c = b" using rooted_last [OF c] b by simp
    have x: "\<lparr>fc_Hash = h, fc_Slot = cs_Slot (score_of bc c), fc_CumulativeWeight = cs_CumulativeWeight (score_of bc c),
        fc_Parent = b_PrevHash (the (fmlookup (bc_Blocks bc) h))\<rparr> = ?x"
      by (simp add: candidate_of_def score_of_def chain_weight_only [OF Cons.prems(1)] last blocks b)
    from Cons.IH [OF only_snapshots_trans [OF Cons.prems(1) r(2)] r(3), of "out @ [?x]"] rest obtain bc' cs where
      IH: "collect_tips G (has_child (bc_Parents bc0)) hashes bc1 cache1 (out @ [?x]) = Some (bc', (out @ [?x]) @ cs)"
        "only_snapshots bc0 bc'" "map fc_Hash cs = filter (is_tip (bc_Blocks bc0)) hashes"
        "\<forall>y\<in>set cs. \<exists>c. rooted (bc_Blocks bc0) (fc_Hash y) c \<and> y = candidate_of bc0 (fc_Hash y) c" by blast
    have "collect_tips G (has_child (bc_Parents bc0)) (h # hashes) bc cache out =
        collect_tips G (has_child (bc_Parents bc0)) hashes bc1 cache1 (out @ [?x])"
      using True skip r(1) by (simp add: x)
    moreover have "fc_Hash ?x = h" by (simp add: candidate_of_def)
    ultimately show ?thesis using IH True c
      by (intro exI [of _ bc'] exI [of _ "?x # cs"]) auto
  qed
qed

lemma GetForkCandidates_run:
  assumes "canonical_ok bc" "parents_ok bc"
  obtains bc' cs where "GetForkCandidates G bc = Some (bc', sort_key (score_key \<circ> candidate_score) cs)"
    "only_snapshots bc bc'" "map fc_Hash cs = filter (is_tip (bc_Blocks bc)) (keys_of (bc_Blocks bc))"
    "\<forall>x\<in>set cs. \<exists>c. rooted (bc_Blocks bc) (fc_Hash x) c \<and> x = candidate_of bc (fc_Hash x) c"
proof -
  have cache: "cache_ok bc fmempty" by (simp add: cache_ok_def)
  have names: "set (keys_of (bc_Blocks bc)) \<subseteq> fset (fmdom (bc_Blocks bc))" by simp
  from collect_tips_run [OF assms only_snapshots_refl cache names, of G "[]"] obtain bc' cs where
    r: "collect_tips G (has_child (bc_Parents bc)) (keys_of (bc_Blocks bc)) bc fmempty [] = Some (bc', cs)"
      "only_snapshots bc bc'" "map fc_Hash cs = filter (is_tip (bc_Blocks bc)) (keys_of (bc_Blocks bc))"
      "\<forall>x\<in>set cs. \<exists>c. rooted (bc_Blocks bc) (fc_Hash x) c \<and> x = candidate_of bc (fc_Hash x) c"
    by auto
  have "rooted (bc_Blocks bc) (bc_CanonicalTip bc) (bc_Chain bc)" by (rule canonical_okD(3) [OF assms(1)])
  then have "bc_Blocks bc \<noteq> fmempty" using rooted_last by fastforce
  then have "GetForkCandidates G bc = Some (bc', sort_key (score_key \<circ> candidate_score) cs)"
    by (simp add: GetForkCandidates_def r(1))
  with r(2-4) show thesis by (intro that)
qed

text \<open>
  C19: the fork candidates.  On a well-formed chain \<open>GetForkCandidates\<close> returns, changes only snapshots, and
  lists every tip, that is every stored block that no stored block has as its parent, exactly
  once, each with its slot, parent and the weight of its whole chain; the list is in the order of fork
  choice, so that no candidate beats the first one.
\<close>

theorem fork_candidates_exact:
  assumes "canonical_ok bc" "parents_ok bc"
  shows "\<exists>bc' cs. GetForkCandidates G bc = Some (bc', cs) \<and> only_snapshots bc bc' \<and>
    distinct (map fc_Hash cs) \<and> set (map fc_Hash cs) = {h. is_tip (bc_Blocks bc) h} \<and>
    (\<forall>x\<in>set cs. \<exists>c. rooted (bc_Blocks bc) (fc_Hash x) c \<and> x = candidate_of bc (fc_Hash x) c) \<and>
    sorted_wrt (\<lambda>x y. \<not> candidate_before y x) cs"
proof -
  obtain bc' cs where run: "GetForkCandidates G bc = Some (bc', sort_key (score_key \<circ> candidate_score) cs)"
    and r: "only_snapshots bc bc'" "map fc_Hash cs = filter (is_tip (bc_Blocks bc)) (keys_of (bc_Blocks bc))"
      "\<forall>x\<in>set cs. \<exists>c. rooted (bc_Blocks bc) (fc_Hash x) c \<and> x = candidate_of bc (fc_Hash x) c"
    using GetForkCandidates_run [OF assms] by metis
  let ?cs = "sort_key (score_key \<circ> candidate_score) cs"
  have mset: "mset (map fc_Hash ?cs) = mset (map fc_Hash cs)" by simp
  have "distinct (map fc_Hash ?cs) \<longleftrightarrow> distinct (map fc_Hash cs)" by (rule mset_eq_imp_distinct_iff [OF mset])
  moreover have "distinct (map fc_Hash cs)" unfolding r(2) by (rule distinct_filter) simp
  moreover have "set (map fc_Hash ?cs) = set (map fc_Hash cs)" by simp
  then have "set (map fc_Hash ?cs) = {h. is_tip (bc_Blocks bc) h}" unfolding r(2) by (auto simp: is_tip_def)
  moreover have "sorted_wrt (\<lambda>x y. \<not> candidate_before y x) ?cs" unfolding tips.sorted_key by (rule sorted_sort_key)
  ultimately show ?thesis using run r(1,3) by (intro exI [of _ bc'] exI [of _ ?cs]) simp
qed

theorem fork_candidates_exact_witness:
  "\<exists>bc' cs. GetForkCandidates demo_lib (demo_bc\<lparr>bc_Parents := fmmap b_PrevHash demo_blocks\<rparr>) = Some (bc', cs) \<and>
    ''i'' \<in> set (map fc_Hash cs) \<and> ''h'' \<notin> set (map fc_Hash cs)"
proof -
  let ?bc = "demo_bc\<lparr>bc_Parents := fmmap b_PrevHash demo_blocks\<rparr>"
  have ok: "canonical_ok ?bc" using demo_bc_ok by (simp add: canonical_ok_def)
  have parents: "parents_ok ?bc" by (simp add: parents_ok_def demo_fields)
  have "is_tip (bc_Blocks ?bc) ''i''" by (auto simp: is_tip_def demo_fields demo_blocks_def split: if_splits)
  moreover have "fmlookup demo_blocks ''i'' = Some (child_block ''i'' ''h'' 2 ''alice'')" by (simp add: demo_blocks_def)
  then have "\<exists>k b. fmlookup demo_blocks k = Some b \<and> b_PrevHash b = ''h''" by (intro exI [of _ "''i''"] exI [of _ "child_block ''i'' ''h'' 2 ''alice''"]) simp
  then have "\<not> is_tip (bc_Blocks ?bc) ''h''" by (simp add: is_tip_def demo_fields)
  moreover obtain bc' cs where "GetForkCandidates demo_lib ?bc = Some (bc', cs)"
    "set (map fc_Hash cs) = {h. is_tip (bc_Blocks ?bc) h}"
    using fork_candidates_exact [OF ok parents, of demo_lib] by blast
  ultimately show ?thesis by (intro exI [of _ bc'] exI [of _ cs]) simp
qed

text \<open>Produced slots are counted per validator, modulo the width of the counter.\<close>

lemma produced_counts_card: "get_or 0 (produced_counts slots) name = of_nat (card {s. fmlookup slots s = Some name})"
proof -
  have step: "get_or 0 (fold (\<lambda>k m. fmupd (the (fmlookup slots k)) (get_or 0 m (the (fmlookup slots k)) + 1) m) ks m) name =
      get_or 0 m name + of_nat (length (filter (\<lambda>k. the (fmlookup slots k) = name) ks))" for ks m
    by (induction ks arbitrary: m) (auto simp: get_or_def add.assoc)
  have "length (filter (\<lambda>k. the (fmlookup slots k) = name) (keys_of slots)) = card {s. fmlookup slots s = Some name}"
  proof -
    have "length (filter (\<lambda>k. the (fmlookup slots k) = name) (keys_of slots)) =
        card (set (filter (\<lambda>k. the (fmlookup slots k) = name) (keys_of slots)))"
      by (rule distinct_card [symmetric]) simp
    also have "set (filter (\<lambda>k. the (fmlookup slots k) = name) (keys_of slots)) = {s. fmlookup slots s = Some name}"
      by (auto simp: fmlookup_dom_iff)
    finally show ?thesis .
  qed
  with step [of "keys_of slots" fmempty] show ?thesis
    unfolding produced_counts_def range_loop_def by (simp only: get_or_def) simp
qed

lemma summaries:
  "map vsm_Name (GetValidatorSummaries ratio rate0 bc) = keys_of (bc_Validators bc)"
  "map vsm_Produced (GetValidatorSummaries ratio rate0 bc) =
    map (\<lambda>n. of_nat (card {s. fmlookup (bc_SlotProduced bc) s = Some n})) (keys_of (bc_Validators bc))"
proof -
  have "vsm_Name (validator_summary ratio rate0 st m n) = n" "vsm_Produced (validator_summary ratio rate0 st m n) = get_or 0 m n" for st m n
    by (auto simp: validator_summary_def Let_def split: prod.split)
  then show "map vsm_Name (GetValidatorSummaries ratio rate0 bc) = keys_of (bc_Validators bc)"
    "map vsm_Produced (GetValidatorSummaries ratio rate0 bc) =
      map (\<lambda>n. of_nat (card {s. fmlookup (bc_SlotProduced bc) s = Some n})) (keys_of (bc_Validators bc))"
    by (simp_all add: GetValidatorSummaries_def Let_def produced_counts_card comp_def)
qed

end
