(* ===== verification/Storage.thy ===== *)
theory Storage
  imports Ports
begin

text \<open>
  \<open>adapters/storage_file.go\<close> and \<open>adapters/storage_memory.go\<close>: the block file with its index, the
  snapshot files, and the store in memory, over a small file system.

  A \<open>disk\<close> is one directory: its files by name, and a script of what the operating system answers to the
  next calls (\<open>Done\<close> when the script is used up).  \<open>Refused\<close> is an error without effect, \<open>Torn n\<close> an
  error after \<open>n\<close> bytes.  The JSON codec is a parameter \<open>jsonlib\<close>, like the order in which \<open>range\<close>
  visits a map where that order shows in the result; \<open>json_block\<close> and its companions state the round
  trip that \<open>encoding/json\<close> documents, for one value at a time.  That a block's line is short enough for the
  \<open>bufio.Scanner\<close> of \<open>loadBlocks\<close> is a condition of its own, \<open>line_fits\<close>: \<open>SaveBlock\<close> does not check it.
\<close>

section \<open>Files\<close>

datatype outcome = Done | Refused | Torn nat

record disk =
  dk_exists :: bool
  dk_files :: "(string, bytes) fmap"
  dk_script :: "outcome list"

datatype reading = NotExist | ReadError error | Contents bytes

definition os_step :: "disk \<Rightarrow> outcome \<times> disk" where
  "os_step d = (case dk_script d of [] \<Rightarrow> (Done, d) | x # xs \<Rightarrow> (x, d\<lparr>dk_script := xs\<rparr>))"

definition put_file :: "string \<Rightarrow> bytes \<Rightarrow> disk \<Rightarrow> disk" where
  "put_file name bs d = d\<lparr>dk_files := fmupd name bs (dk_files d)\<rparr>"

definition MkdirAll :: "disk \<Rightarrow> disk \<times> failure" where
  "MkdirAll d = (case os_step d of
      (Done, d) \<Rightarrow> (d\<lparr>dk_exists := True\<rparr>, None)
    | (_, d) \<Rightarrow> (d, Some (ErrIO ''mkdir'')))"

definition ReadFile :: "string \<Rightarrow> disk \<Rightarrow> disk \<times> reading" where
  "ReadFile name d = (case os_step d of
      (Done, d) \<Rightarrow> (d, case fmlookup (dk_files d) name of None \<Rightarrow> NotExist | Some bs \<Rightarrow> Contents bs)
    | (_, d) \<Rightarrow> (d, ReadError (ErrIO ''read'')))"

definition WriteFile :: "string \<Rightarrow> bytes \<Rightarrow> disk \<Rightarrow> disk \<times> failure" where
  "WriteFile name bs d = (case os_step d of
      (Done, d) \<Rightarrow> if dk_exists d then (put_file name bs d, None) else (d, Some (ErrIO ''open''))
    | (Refused, d) \<Rightarrow> (d, Some (ErrIO ''open''))
    | (Torn n, d) \<Rightarrow> ((if dk_exists d then put_file name (take n bs) d else d), Some (ErrIO ''write'')))"

definition OpenAppend :: "string \<Rightarrow> disk \<Rightarrow> disk \<times> failure" where
  \<comment> \<open>\<open>os.OpenFile(name, O_CREATE|O_APPEND|O_WRONLY, 0644)\<close>\<close>
  "OpenAppend name d = (case os_step d of
      (Done, d) \<Rightarrow> if dk_exists d then (put_file name (get_or [] (dk_files d) name) d, None)
        else (d, Some (ErrIO ''open''))
    | (_, d) \<Rightarrow> (d, Some (ErrIO ''open'')))"

definition WriteAppend :: "string \<Rightarrow> bytes \<Rightarrow> disk \<Rightarrow> disk \<times> failure" where
  "WriteAppend name bs d = (case os_step d of
      (Done, d) \<Rightarrow> (put_file name (get_or [] (dk_files d) name @ bs) d, None)
    | (Refused, d) \<Rightarrow> (d, Some (ErrIO ''write''))
    | (Torn n, d) \<Rightarrow> (put_file name (get_or [] (dk_files d) name @ take n bs) d, Some (ErrIO ''write'')))"

definition Rename :: "string \<Rightarrow> string \<Rightarrow> disk \<Rightarrow> disk \<times> failure" where
  "Rename old new d = (case os_step d of
      (Done, d) \<Rightarrow> (case fmlookup (dk_files d) old of
          None \<Rightarrow> (d, Some (ErrIO ''rename''))
        | Some bs \<Rightarrow> (d\<lparr>dk_files := fmupd new bs (fmdrop old (dk_files d))\<rparr>, None))
    | (_, d) \<Rightarrow> (d, Some (ErrIO ''rename'')))"

section \<open>The codec\<close>

record blockIndex =
  ix_HeightToHash :: "(u64, string) fmap"
  ix_TipHash :: string
  ix_TipHeight :: u64

record snapshotFile =
  sf_Epoch :: u64
  sf_StateRoot :: string
  sf_ValidatorSet :: stakes

record jsonlib =
  MarshalBlock :: "Block \<Rightarrow> bytes result"
  UnmarshalBlock :: "bytes \<Rightarrow> Block result"
  MarshalIndex :: "blockIndex \<Rightarrow> bytes result"
  UnmarshalIndex :: "bytes \<Rightarrow> blockIndex result"
  MarshalSnapshot :: "snapshotFile \<Rightarrow> bytes result"
  UnmarshalSnapshot :: "bytes \<Rightarrow> snapshotFile result"
  range_order :: "string list \<Rightarrow> string list"

text \<open>Encoded text has no control characters, and decodes to what was encoded.\<close>

definition json_block :: "jsonlib \<Rightarrow> Block \<Rightarrow> bool" where
  "json_block J b \<longleftrightarrow> (\<exists>bs. MarshalBlock J b = Inr bs \<and> UnmarshalBlock J bs = Inr b \<and> (\<forall>x\<in>set bs. 32 \<le> x) \<and> bs \<noteq> [])"

definition line_of :: "jsonlib \<Rightarrow> Block \<Rightarrow> bytes" where
  "line_of J b = projr (MarshalBlock J b)"

definition line_fits :: "jsonlib \<Rightarrow> Block \<Rightarrow> bool" where
  "line_fits J b \<longleftrightarrow> length (line_of J b) \<le> 65535"

text \<open>\<open>range\<close> visits every key of a map once.\<close>

definition range_complete :: "jsonlib \<Rightarrow> bool" where
  "range_complete J \<longleftrightarrow> (\<forall>ks. mset (range_order J ks) = mset ks)"

definition json_index :: "jsonlib \<Rightarrow> blockIndex \<Rightarrow> bool" where
  "json_index J ix \<longleftrightarrow> (\<exists>bs. MarshalIndex J ix = Inr bs \<and> UnmarshalIndex J bs = Inr ix)"

definition json_snapshot :: "jsonlib \<Rightarrow> snapshotFile \<Rightarrow> bool" where
  "json_snapshot J sf \<longleftrightarrow> (\<exists>bs. MarshalSnapshot J sf = Inr bs \<and> UnmarshalSnapshot J bs = Inr sf)"

section \<open>The block file\<close>

record FileBlockStore =
  fs_blocks :: "(string, Block) fmap"
  fs_heightToHash :: "(u64, string) fmap"
  fs_tipHash :: string
  fs_tipHeight :: u64
  fs_disk :: disk

definition blocksPath :: string where "blocksPath = ''blocks.jsonl''"
definition indexPath :: string where "indexPath = ''index.json''"

definition appendBlock :: "jsonlib \<Rightarrow> Block \<Rightarrow> FileBlockStore \<Rightarrow> FileBlockStore \<times> failure" where
  "appendBlock J block s =
    (case OpenAppend blocksPath (fs_disk s) of
      (d, Some e) \<Rightarrow> (s\<lparr>fs_disk := d\<rparr>, Some e)
    | (d, None) \<Rightarrow>
      (case MarshalBlock J block of
        Inl e \<Rightarrow> (s\<lparr>fs_disk := d\<rparr>, Some e)
      | Inr bs \<Rightarrow> (case WriteAppend blocksPath (bs @ [10]) d of
          (d, err) \<Rightarrow> (s\<lparr>fs_disk := d\<rparr>, err))))"

definition writeIndex :: "jsonlib \<Rightarrow> FileBlockStore \<Rightarrow> FileBlockStore \<times> failure" where
  "writeIndex J s =
    (let idx = \<lparr>ix_HeightToHash = fs_heightToHash s, ix_TipHash = fs_tipHash s, ix_TipHeight = fs_tipHeight s\<rparr> in
     case MarshalIndex J idx of
       Inl e \<Rightarrow> (s, Some e)
     | Inr bs \<Rightarrow>
       (let tmp = indexPath @ ''.tmp'' in
        case WriteFile tmp bs (fs_disk s) of
          (d, Some e) \<Rightarrow> (s\<lparr>fs_disk := d\<rparr>, Some e)
        | (d, None) \<Rightarrow> (case Rename tmp indexPath d of (d, err) \<Rightarrow> (s\<lparr>fs_disk := d\<rparr>, err))))"

definition remember :: "Block \<Rightarrow> FileBlockStore \<Rightarrow> FileBlockStore" where
  \<comment> \<open>the updates in memory of \<open>SaveBlock\<close>\<close>
  "remember block s =
    (let s = s\<lparr>fs_blocks := fmupd (b_Hash block) block (fs_blocks s)\<rparr>;
         s = s\<lparr>fs_heightToHash := fmupd (b_Index block) (b_Hash block) (fs_heightToHash s)\<rparr>
     in if fs_tipHeight s \<le> b_Index block
        then s\<lparr>fs_tipHeight := b_Index block, fs_tipHash := b_Hash block\<rparr> else s)"

definition file_SaveBlock :: "jsonlib \<Rightarrow> FileBlockStore \<Rightarrow> Block \<Rightarrow> FileBlockStore \<times> failure" where
  "file_SaveBlock J s block =
    (case appendBlock J block s of
      (s, Some e) \<Rightarrow> (s, Some e)
    | (s, None) \<Rightarrow> writeIndex J (remember block s))"

definition file_GetBlockByHash :: "FileBlockStore \<Rightarrow> string \<Rightarrow> Block option" where
  "file_GetBlockByHash s hash = fmlookup (fs_blocks s) hash"

definition file_GetBlockByHeight :: "FileBlockStore \<Rightarrow> u64 \<Rightarrow> Block option" where
  "file_GetBlockByHeight s height =
    (case fmlookup (fs_heightToHash s) height of None \<Rightarrow> None | Some hash \<Rightarrow> fmlookup (fs_blocks s) hash)"

definition file_GetTip :: "FileBlockStore \<Rightarrow> Block option" where
  "file_GetTip s = (if fs_tipHash s = [] then None else fmlookup (fs_blocks s) (fs_tipHash s))"

text \<open>\<open>GetRange\<close> counts its \<open>uint64\<close> up; with the largest end it goes on until a height is missing.\<close>

partial_function (option) range_walk :: "FileBlockStore \<Rightarrow> u64 \<Rightarrow> u64 \<Rightarrow> Block list \<Rightarrow> Block list result option" where
  "range_walk s h hi out =
    (if h \<le> hi then
       (case fmlookup (fs_heightToHash s) h of
         None \<Rightarrow> Some (Inl (ErrNew (''missing block at height '' @ FormatUint h)))
       | Some hash \<Rightarrow>
         (case fmlookup (fs_blocks s) hash of
           None \<Rightarrow> Some (Inl (ErrNew (''missing block hash '' @ hash)))
         | Some b \<Rightarrow> range_walk s (h + 1) hi (out @ [b])))
     else Some (Inr out))"

definition file_GetRange :: "FileBlockStore \<Rightarrow> u64 \<Rightarrow> u64 \<Rightarrow> Block list result option" where
  "file_GetRange s startHeight endHeight =
    (if endHeight < startHeight then Some (Inr []) else range_walk s startHeight endHeight [])"

section \<open>Loading\<close>

definition loadIndex :: "jsonlib \<Rightarrow> FileBlockStore \<Rightarrow> FileBlockStore \<times> failure" where
  "loadIndex J s =
    (case ReadFile indexPath (fs_disk s) of
      (d, NotExist) \<Rightarrow> (s\<lparr>fs_disk := d\<rparr>, None)
    | (d, ReadError e) \<Rightarrow> (s\<lparr>fs_disk := d\<rparr>, Some e)
    | (d, Contents bs) \<Rightarrow>
      (case UnmarshalIndex J bs of
        Inl e \<Rightarrow> (s\<lparr>fs_disk := d\<rparr>, Some e)
      | Inr idx \<Rightarrow> (s\<lparr>fs_disk := d, fs_heightToHash := ix_HeightToHash idx, fs_tipHash := ix_TipHash idx,
          fs_tipHeight := ix_TipHeight idx\<rparr>, None)))"

text \<open>
  \<open>bufio.Scanner\<close>: lines end at a newline, lose one trailing carriage return, and the last one may lack
  its newline; a line that does not fit the buffer of 64 KiB with its newline is an error.
\<close>

primrec lines_of :: "bytes \<Rightarrow> bytes \<Rightarrow> bytes list" where
  "lines_of line [] = (if line = [] then [] else [line])"
| "lines_of line (x # xs) = (if x = 10 then line # lines_of [] xs else lines_of (line @ [x]) xs)"

definition dropCR :: "bytes \<Rightarrow> bytes" where
  "dropCR line = (if line \<noteq> [] \<and> last line = 13 then butlast line else line)"

primrec load_lines :: "jsonlib \<Rightarrow> bytes list \<Rightarrow> FileBlockStore \<Rightarrow> FileBlockStore \<times> failure" where
  "load_lines J [] s = (s, None)"
| "load_lines J (line # rest) s =
    (if 65535 < length line then (s, Some (ErrIO ''bufio.Scanner: token too long''))
     else case UnmarshalBlock J (dropCR line) of
       Inl e \<Rightarrow> (s, Some e)
     | Inr b \<Rightarrow> load_lines J rest (s\<lparr>fs_blocks := fmupd (b_Hash b) b (fs_blocks s)\<rparr>))"

definition loadBlocks :: "jsonlib \<Rightarrow> FileBlockStore \<Rightarrow> FileBlockStore \<times> failure" where
  "loadBlocks J s =
    (case ReadFile blocksPath (fs_disk s) of
      (d, NotExist) \<Rightarrow> (s\<lparr>fs_disk := d\<rparr>, None)
    | (d, ReadError e) \<Rightarrow> (s\<lparr>fs_disk := d\<rparr>, Some e)
    | (d, Contents bs) \<Rightarrow> load_lines J (lines_of [] bs) (s\<lparr>fs_disk := d\<rparr>))"

definition reindex_step :: "Block \<Rightarrow> (u64, string) fmap \<times> u64 \<times> string \<Rightarrow> (u64, string) fmap \<times> u64 \<times> string" where
  "reindex_step b r = (case r of (m, maxHeight, tipHash) \<Rightarrow>
     let m = fmupd (b_Index b) (b_Hash b) m in
     if maxHeight \<le> b_Index b then (m, b_Index b, b_Hash b) else (m, maxHeight, tipHash))"

definition rebuildIndex :: "jsonlib \<Rightarrow> FileBlockStore \<Rightarrow> FileBlockStore \<times> failure" where
  "rebuildIndex J s =
    (if fs_blocks s = fmempty then (s, None)
     else let order = range_order J (keys_of (fs_blocks s));
              (m, maxHeight, tipHash) = fold (\<lambda>h. reindex_step (the (fmlookup (fs_blocks s) h))) order (fmempty, 0, [])
       in writeIndex J (s\<lparr>fs_heightToHash := m, fs_tipHeight := maxHeight, fs_tipHash := tipHash\<rparr>))"

definition load_store :: "jsonlib \<Rightarrow> FileBlockStore \<Rightarrow> FileBlockStore \<times> failure" where
  "load_store J s =
    (case loadIndex J s of
      (s, Some e) \<Rightarrow> (s, Some e)
    | (s, None) \<Rightarrow>
      (case loadBlocks J s of
        (s, Some e) \<Rightarrow> (s, Some e)
      | (s, None) \<Rightarrow> if fs_heightToHash s = fmempty then rebuildIndex J s else (s, None)))"

definition NewFileBlockStore :: "jsonlib \<Rightarrow> string \<Rightarrow> disk \<Rightarrow> disk \<times> FileBlockStore result" where
  \<comment> \<open>\<open>d\<close> is the directory \<open>dir\<close> before the call; it is returned also when the call fails\<close>
  "NewFileBlockStore J dir d =
    (if dir = [] then (d, Inl (ErrNew ''data dir required''))
     else case MkdirAll d of
       (d, Some e) \<Rightarrow> (d, Inl e)
     | (d, None) \<Rightarrow>
       (case load_store J \<lparr>fs_blocks = fmempty, fs_heightToHash = fmempty, fs_tipHash = [], fs_tipHeight = 0, fs_disk = d\<rparr> of
         (s, Some e) \<Rightarrow> (fs_disk s, Inl e)
       | (s, None) \<Rightarrow> (fs_disk s, Inr s)))"

section \<open>A store and its files\<close>

text \<open>
  \<open>memory_of log d\<close> is what the store holds in memory after the blocks of \<open>log\<close> were saved in that order;
  \<open>on_disk\<close> says that the directory holds the encodings of \<open>log\<close> and the index that belongs to it.
\<close>

definition memory_of :: "Block list \<Rightarrow> disk \<Rightarrow> FileBlockStore" where
  "memory_of log d = fold remember log
     \<lparr>fs_blocks = fmempty, fs_heightToHash = fmempty, fs_tipHash = [], fs_tipHeight = 0, fs_disk = d\<rparr>"

definition index_of :: "FileBlockStore \<Rightarrow> blockIndex" where
  "index_of s = \<lparr>ix_HeightToHash = fs_heightToHash s, ix_TipHash = fs_tipHash s, ix_TipHeight = fs_tipHeight s\<rparr>"

definition encoded :: "jsonlib \<Rightarrow> Block list \<Rightarrow> bytes" where
  "encoded J log = concat (map (\<lambda>b. projr (MarshalBlock J b) @ [10]) log)"

definition on_disk :: "jsonlib \<Rightarrow> Block list \<Rightarrow> disk \<Rightarrow> bool" where
  "on_disk J log d \<longleftrightarrow> dk_exists d \<and>
     (if log = [] then get_or [] (dk_files d) blocksPath = [] \<and> fmlookup (dk_files d) indexPath = None
      else fmlookup (dk_files d) blocksPath = Some (encoded J log) \<and>
        (\<exists>bs. fmlookup (dk_files d) indexPath = Some bs \<and> UnmarshalIndex J bs = Inr (index_of (memory_of log d))))"

definition file_ok :: "jsonlib \<Rightarrow> Block list \<Rightarrow> FileBlockStore \<Rightarrow> bool" where
  "file_ok J log s \<longleftrightarrow> s = memory_of log (fs_disk s) \<and> on_disk J log (fs_disk s) \<and> dk_script (fs_disk s) = []"

lemmas os_defs = os_step_def put_file_def ReadFile_def WriteFile_def OpenAppend_def WriteAppend_def Rename_def MkdirAll_def

lemma remember_simps [simp]:
  "fs_disk (remember b s) = fs_disk s" "fs_blocks (remember b s) = fmupd (b_Hash b) b (fs_blocks s)"
  "fs_heightToHash (remember b s) = fmupd (b_Index b) (b_Hash b) (fs_heightToHash s)"
  "(remember b s)\<lparr>fs_disk := d\<rparr> = remember b (s\<lparr>fs_disk := d\<rparr>)"
  by (cases s, simp add: remember_def Let_def)+

lemma memory_of_simps [simp]:
  "fs_disk (memory_of log d) = d" "fs_blocks (memory_of log d) = fold (\<lambda>b. fmupd (b_Hash b) b) log fmempty"
  "(memory_of log d)\<lparr>fs_disk := d'\<rparr> = memory_of log d'"
  "fs_heightToHash (memory_of log d) = fold (\<lambda>b. fmupd (b_Index b) (b_Hash b)) log fmempty"
  "memory_of (log @ [b]) d = remember b (memory_of log d)"
proof -
  have step: "fs_disk (fold remember log s) = fs_disk s \<and>
      fs_blocks (fold remember log s) = fold (\<lambda>b. fmupd (b_Hash b) b) log (fs_blocks s) \<and>
      (fold remember log s)\<lparr>fs_disk := d'\<rparr> = fold remember log (s\<lparr>fs_disk := d'\<rparr>) \<and>
      fs_heightToHash (fold remember log s) = fold (\<lambda>b. fmupd (b_Index b) (b_Hash b)) log (fs_heightToHash s)" for s
    by (induction log arbitrary: s) simp_all
  show "fs_disk (memory_of log d) = d" "fs_blocks (memory_of log d) = fold (\<lambda>b. fmupd (b_Hash b) b) log fmempty"
    "(memory_of log d)\<lparr>fs_disk := d'\<rparr> = memory_of log d'"
    "fs_heightToHash (memory_of log d) = fold (\<lambda>b. fmupd (b_Index b) (b_Hash b)) log fmempty"
    using step by (simp_all add: memory_of_def)
  show "memory_of (log @ [b]) d = remember b (memory_of log d)" by (simp add: memory_of_def)
qed

lemma file_ok_memory:
  assumes "file_ok J log s"
  shows "fs_blocks s = fold (\<lambda>b. fmupd (b_Hash b) b) log fmempty"
    "fs_heightToHash s = fold (\<lambda>b. fmupd (b_Index b) (b_Hash b)) log fmempty"
proof -
  have s: "s = memory_of log (fs_disk s)" using assms by (simp add: file_ok_def)
  show "fs_blocks s = fold (\<lambda>b. fmupd (b_Hash b) b) log fmempty"
    "fs_heightToHash s = fold (\<lambda>b. fmupd (b_Index b) (b_Hash b)) log fmempty"
    by (subst s, simp)+
qed

lemma index_of_upd [simp]: "index_of (s\<lparr>fs_disk := d\<rparr>) = index_of s"
  by (simp add: index_of_def)

lemma index_of_disk: "index_of (memory_of log d) = index_of (memory_of log d')"
  by (metis index_of_upd memory_of_simps(3))

lemma encoded_simps [simp]: "encoded J [] = []" "encoded J (log @ [b]) = encoded J log @ projr (MarshalBlock J b) @ [10]"
  "encoded J (b # log) = projr (MarshalBlock J b) @ 10 # encoded J log"
  by (simp_all add: encoded_def)

lemma paths_differ [simp]: "blocksPath \<noteq> indexPath" "blocksPath \<noteq> indexPath @ ''.tmp''" "indexPath \<noteq> blocksPath" "indexPath @ ''.tmp'' \<noteq> blocksPath"
  by (simp_all add: blocksPath_def indexPath_def)

lemma writeIndex_run:
  assumes "json_index J (index_of s)" "dk_exists (fs_disk s)" "dk_script (fs_disk s) = []"
  shows "\<exists>d bs. writeIndex J s = (s\<lparr>fs_disk := d\<rparr>, None) \<and> dk_exists d \<and> dk_script d = [] \<and>
    fmlookup (dk_files d) indexPath = Some bs \<and> UnmarshalIndex J bs = Inr (index_of s) \<and>
    fmlookup (dk_files d) blocksPath = fmlookup (dk_files (fs_disk s)) blocksPath"
proof -
  from assms(1) obtain bs where bs: "MarshalIndex J (index_of s) = Inr bs" "UnmarshalIndex J bs = Inr (index_of s)"
    by (auto simp: json_index_def)
  let ?d = "(fs_disk s)\<lparr>dk_files := fmupd indexPath bs (fmdrop (indexPath @ ''.tmp'') (fmupd (indexPath @ ''.tmp'') bs (dk_files (fs_disk s))))\<rparr>"
  have "writeIndex J s = (s\<lparr>fs_disk := ?d\<rparr>, None)"
    using bs(1) assms(2,3) by (simp add: writeIndex_def os_defs Let_def flip: index_of_def)
  then show ?thesis using bs(2) assms(2,3) by (intro exI [of _ ?d] exI [of _ bs]) simp
qed

lemma file_SaveBlock_ok:
  assumes "file_ok J log s" "json_block J b" "json_index J (index_of (memory_of (log @ [b]) (fs_disk s)))"
  shows "\<exists>s'. file_SaveBlock J s b = (s', None) \<and> file_ok J (log @ [b]) s'"
proof -
  have ok: "s = memory_of log (fs_disk s)" "dk_exists (fs_disk s)" "dk_script (fs_disk s) = []"
    "get_or [] (dk_files (fs_disk s)) blocksPath = encoded J log"
    using assms(1) by (auto simp: file_ok_def on_disk_def get_or_def split: if_splits)
  from assms(2) obtain bs where bs: "MarshalBlock J b = Inr bs" by (auto simp: json_block_def)
  let ?d = "(fs_disk s)\<lparr>dk_files := fmupd blocksPath (encoded J (log @ [b])) (fmupd blocksPath (encoded J log) (dk_files (fs_disk s)))\<rparr>"
  have app: "appendBlock J b s = (s\<lparr>fs_disk := ?d\<rparr>, None)"
    using ok bs by (simp add: appendBlock_def os_defs get_or_def)
  let ?s = "remember b (s\<lparr>fs_disk := ?d\<rparr>)"
  have mem: "?s = memory_of (log @ [b]) ?d" by (subst ok(1)) simp
  have idx: "index_of ?s = index_of (memory_of (log @ [b]) (fs_disk s))" unfolding mem by (rule index_of_disk)
  have "dk_exists (fs_disk ?s)" "dk_script (fs_disk ?s) = []" using ok by (simp_all add: mem)
  from writeIndex_run [OF assms(3) [folded idx] this] obtain d ix where
    w: "writeIndex J ?s = (?s\<lparr>fs_disk := d\<rparr>, None)" "dk_exists d" "dk_script d = []"
      "fmlookup (dk_files d) indexPath = Some ix" "UnmarshalIndex J ix = Inr (index_of ?s)"
      "fmlookup (dk_files d) blocksPath = fmlookup (dk_files (fs_disk ?s)) blocksPath"
    by blast
  have "file_SaveBlock J s b = (?s\<lparr>fs_disk := d\<rparr>, None)" using w(1) by (simp add: file_SaveBlock_def app)
  moreover have "?s\<lparr>fs_disk := d\<rparr> = memory_of (log @ [b]) d" unfolding mem by (rule memory_of_simps)
  moreover have "fmlookup (dk_files d) blocksPath = Some (encoded J (log @ [b]))" using w(6) by (simp add: mem)
  moreover have "UnmarshalIndex J ix = Inr (index_of (memory_of (log @ [b]) d))"
    using w(5) unfolding mem by (metis index_of_disk)
  ultimately show ?thesis using w(2-4) by (auto simp: file_ok_def on_disk_def)
qed

section \<open>Reading the files back\<close>

lemma lines_of_prefix: "10 \<notin> set xs \<Longrightarrow> lines_of line (xs @ ys) = lines_of (line @ xs) ys"
  by (induction xs arbitrary: line) auto

lemma json_blockD:
  assumes "json_block J b"
  shows "MarshalBlock J b = Inr (line_of J b)" "UnmarshalBlock J (line_of J b) = Inr b" "10 \<notin> set (line_of J b)"
    "line_of J b \<noteq> []" "dropCR (line_of J b) = line_of J b"
proof -
  from assms obtain bs where bs: "MarshalBlock J b = Inr bs" "UnmarshalBlock J bs = Inr b" "\<forall>x\<in>set bs. 32 \<le> x"
    "bs \<noteq> []" by (auto simp: json_block_def)
  then have l: "line_of J b = bs" by (simp add: line_of_def)
  show "MarshalBlock J b = Inr (line_of J b)" "UnmarshalBlock J (line_of J b) = Inr b" "line_of J b \<noteq> []" using bs by (simp_all add: l)
  show "10 \<notin> set (line_of J b)" using bs(3) by (auto simp: l)
  have "32 \<le> last bs" using bs(3,4) by simp
  then show "dropCR (line_of J b) = line_of J b" by (auto simp: dropCR_def l)
qed

lemma lines_of_encoded:
  "\<forall>b\<in>set log. json_block J b \<Longrightarrow> lines_of [] (encoded J log @ ys) = map (line_of J) log @ lines_of [] ys"
  by (induction log) (simp_all add: lines_of_prefix json_blockD flip: line_of_def)

lemma load_lines_append:
  "\<forall>b\<in>set log. json_block J b \<and> line_fits J b \<Longrightarrow> load_lines J (map (line_of J) log @ rest) s =
    load_lines J rest (s\<lparr>fs_blocks := fold (\<lambda>b. fmupd (b_Hash b) b) log (fs_blocks s)\<rparr>)"
proof (induction log arbitrary: s)
  case (Cons b log)
  then show ?case using json_blockD [of J b] by (simp add: not_less line_fits_def)
qed simp

lemma heights_nonempty: "log \<noteq> [] \<Longrightarrow> fold (\<lambda>b. fmupd (b_Index b) (b_Hash b)) log fmempty \<noteq> fmempty"
proof (cases log rule: rev_cases)
  case (snoc xs b)
  then have "fmlookup (fold (\<lambda>b. fmupd (b_Index b) (b_Hash b)) log fmempty) (b_Index b) = Some (b_Hash b)" by simp
  then show ?thesis by auto
qed simp

lemma load_lines_frame:
  "load_lines J ls s = (s', err) \<Longrightarrow> fs_disk s' = fs_disk s \<and> fs_heightToHash s' = fs_heightToHash s \<and> index_of s' = index_of s"
  by (induction ls arbitrary: s) (auto simp: index_of_def split: if_splits sum.splits)

text \<open>
  Loading a directory that has an index: the index is taken as it is, the blocks are what the lines of
  the block file decode to.
\<close>

definition with_index :: "blockIndex \<Rightarrow> disk \<Rightarrow> FileBlockStore" where
  "with_index idx d = \<lparr>fs_blocks = fmempty, fs_heightToHash = ix_HeightToHash idx, fs_tipHash = ix_TipHash idx,
     fs_tipHeight = ix_TipHeight idx, fs_disk = d\<rparr>"

lemma loadBlocks_run:
  assumes "dk_script (fs_disk s) = []"
  shows "loadBlocks J s = load_lines J (lines_of [] (get_or [] (dk_files (fs_disk s)) blocksPath)) s"
  using assms by (cases "fmlookup (dk_files (fs_disk s)) blocksPath") (simp_all add: loadBlocks_def os_defs get_or_def)

lemma NewFileBlockStore_run:
  assumes "dir \<noteq> []" "dk_exists d" "dk_script d = []"
    and "fmlookup (dk_files d) indexPath = Some ix" "UnmarshalIndex J ix = Inr idx" "ix_HeightToHash idx \<noteq> fmempty"
    and "get_or [] (dk_files d) blocksPath = bs"
  shows "NewFileBlockStore J dir d = (d, case load_lines J (lines_of [] bs) (with_index idx d) of
      (s, Some e) \<Rightarrow> Inl e | (s, None) \<Rightarrow> Inr s)"
proof -
  have "d\<lparr>dk_exists := True\<rparr> = d" using assms(2) by (cases d) simp
  then have mk: "MkdirAll d = (d, None)" using assms(3) by (simp add: os_defs)
  let ?s = "\<lparr>fs_blocks = fmempty, fs_heightToHash = fmempty, fs_tipHash = [], fs_tipHeight = 0, fs_disk = d\<rparr>"
  have idx: "loadIndex J ?s = (with_index idx d, None)"
    using assms(3-5) by (simp add: loadIndex_def os_defs with_index_def)
  obtain s err where l: "load_lines J (lines_of [] bs) (with_index idx d) = (s, err)" by (metis prod.collapse)
  have blk: "loadBlocks J (with_index idx d) = (s, err)"
    using assms(3,7) l loadBlocks_run [of "with_index idx d" J] by (simp add: with_index_def)
  have "fs_heightToHash s \<noteq> fmempty" "fs_disk s = d"
    using load_lines_frame [OF l] assms(6) by (simp_all add: with_index_def)
  then show ?thesis
    using assms(1) mk idx blk l by (cases err) (simp_all add: NewFileBlockStore_def load_store_def)
qed

text \<open>Loading a directory without an index: the index is built from the blocks.\<close>

lemma NewFileBlockStore_unindexed:
  assumes "dir \<noteq> []" "dk_exists d" "dk_script d = []" "fmlookup (dk_files d) indexPath = None"
    and "get_or [] (dk_files d) blocksPath = bs"
  shows "NewFileBlockStore J dir d = (case load_lines J (lines_of [] bs) (memory_of [] d) of
      (s, Some e) \<Rightarrow> (d, Inl e)
    | (s, None) \<Rightarrow> (case rebuildIndex J s of (s, Some e) \<Rightarrow> (fs_disk s, Inl e) | (s, None) \<Rightarrow> (fs_disk s, Inr s)))"
proof -
  have "d\<lparr>dk_exists := True\<rparr> = d" using assms(2) by (cases d) simp
  then have mk: "MkdirAll d = (d, None)" using assms(3) by (simp add: os_defs)
  have idx: "loadIndex J (memory_of [] d) = (memory_of [] d, None)"
    using assms(3,4) by (simp add: loadIndex_def os_defs memory_of_def)
  obtain s err where l: "load_lines J (lines_of [] bs) (memory_of [] d) = (s, err)" by (metis prod.collapse)
  have blk: "loadBlocks J (memory_of [] d) = (s, err)"
    using assms(3,5) l loadBlocks_run [of "memory_of [] d" J] by simp
  have "fs_heightToHash s = fmempty" "fs_disk s = d"
    using load_lines_frame [OF l] by simp_all
  then show ?thesis
    using assms(1) mk idx blk l
    by (cases err) (simp_all add: NewFileBlockStore_def load_store_def flip: memory_of_def [of "[]", simplified] split: prod.split option.split)
qed

lemma store_from_index: "index_of s = idx \<Longrightarrow> fs_disk s = d \<Longrightarrow> (with_index idx d)\<lparr>fs_blocks := fs_blocks s\<rparr> = s"
  by (cases s) (auto simp: with_index_def index_of_def)

lemma with_index_upd: "(with_index (index_of t) d)\<lparr>fs_blocks := fs_blocks t\<rparr> = t\<lparr>fs_disk := d\<rparr>"
  by (cases t) (simp add: with_index_def index_of_def)

lemma fmupd_nonempty: "fmupd k v m \<noteq> fmempty"
  by (metis fmempty_lookup fmupd_lookup option.distinct(1))

lemma NewFileBlockStore_empty:
  assumes "dir \<noteq> []" "on_disk J [] d" "dk_script d = []"
  shows "NewFileBlockStore J dir d = (d, Inr (memory_of [] d))"
proof -
  have d: "dk_exists d" "get_or [] (dk_files d) blocksPath = []" "fmlookup (dk_files d) indexPath = None"
    using assms(2) by (auto simp: on_disk_def)
  show ?thesis
    unfolding NewFileBlockStore_unindexed [OF assms(1) d(1) assms(3) d(3,2)] by (simp add: rebuildIndex_def)
qed

lemma reload_file_ok:
  assumes "file_ok J log s" "\<forall>b\<in>set log. json_block J b \<and> line_fits J b" "dir \<noteq> []"
  shows "NewFileBlockStore J dir (fs_disk s) = (fs_disk s, Inr s)"
proof (cases "log = []")
  case True
  with assms NewFileBlockStore_empty [of dir J "fs_disk s"] show ?thesis by (auto simp: file_ok_def)
next
  case False
  let ?d = "fs_disk s"
  from assms(1) False obtain ix where d: "dk_exists ?d" "dk_script ?d = []" "fmlookup (dk_files ?d) blocksPath = Some (encoded J log)"
    "fmlookup (dk_files ?d) indexPath = Some ix" "UnmarshalIndex J ix = Inr (index_of (memory_of log ?d))" "s = memory_of log ?d"
    by (auto simp: file_ok_def on_disk_def)
  have h: "ix_HeightToHash (index_of (memory_of log ?d)) \<noteq> fmempty"
    using heights_nonempty [OF False] by (simp add: index_of_def)
  have json: "\<forall>b\<in>set log. json_block J b" using assms(2) by blast
  have old: "get_or [] (dk_files ?d) blocksPath = encoded J log" using d(3) by (simp add: get_or_def)
  have "load_lines J (lines_of [] (encoded J log)) (with_index (index_of s) ?d) =
      ((with_index (index_of s) ?d)\<lparr>fs_blocks := fs_blocks s\<rparr>, None)"
    using lines_of_encoded [OF json, of "[]"] load_lines_append [OF assms(2), of "[]"]
    by (simp add: with_index_def) (simp add: d(6) [symmetric] flip: memory_of_simps(2) [where d = ?d])
  then show ?thesis
    using NewFileBlockStore_run [OF assms(3) d(1,2,4,5) h old] store_from_index [of s "index_of s" ?d]
    by (simp flip: d(6))
qed

section \<open>When the operating system fails\<close>

lemma os_step_exists: "os_step d = (x, d') \<Longrightarrow> dk_exists d' = dk_exists d \<and> dk_files d' = dk_files d"
  by (auto simp: os_step_def split: list.splits)

lemma OpenAppend_outcomes: "OpenAppend name d = (d', err) \<Longrightarrow> dk_exists d' = dk_exists d \<and>
    (dk_files d' = dk_files d \<or> dk_files d' = fmupd name (get_or [] (dk_files d) name) (dk_files d))"
proof -
  assume run: "OpenAppend name d = (d', err)"
  obtain x d1 where x: "os_step d = (x, d1)" by (metis prod.collapse)
  with run os_step_exists [OF x] show ?thesis
    by (cases x) (auto simp: OpenAppend_def put_file_def split: if_splits)
qed

lemma WriteAppend_outcomes: "WriteAppend name bs d = (d', err) \<Longrightarrow> dk_exists d' = dk_exists d \<and>
    (dk_files d' = dk_files d \<and> err \<noteq> None \<or>
     (\<exists>n. dk_files d' = fmupd name (get_or [] (dk_files d) name @ take n bs) (dk_files d) \<and> (err = None \<longrightarrow> length bs \<le> n)))"
proof -
  assume run: "WriteAppend name bs d = (d', err)"
  obtain x d1 where x: "os_step d = (x, d1)" by (metis prod.collapse)
  show ?thesis
  proof (cases x)
    case Done
    with run x os_step_exists [OF x] show ?thesis
      by (intro conjI disjI2 exI [of _ "length bs"]) (auto simp: WriteAppend_def put_file_def)
  next
    case Refused
    with run x os_step_exists [OF x] show ?thesis by (auto simp: WriteAppend_def)
  next
    case (Torn n)
    with run x os_step_exists [OF x] show ?thesis
      by (intro conjI disjI2 exI [of _ n]) (auto simp: WriteAppend_def put_file_def)
  qed
qed

lemma appendBlock_outcomes:
  assumes "MarshalBlock J b = Inr bs" "get_or [] (dk_files (fs_disk s)) blocksPath = old"
    and "appendBlock J b s = (s', err)"
  shows "\<exists>n. n \<le> Suc (length bs) \<and> s' = s\<lparr>fs_disk := fs_disk s'\<rparr> \<and> dk_exists (fs_disk s') = dk_exists (fs_disk s) \<and>
    get_or [] (dk_files (fs_disk s')) blocksPath = old @ take n (bs @ [10]) \<and>
    (\<forall>x. x \<noteq> blocksPath \<longrightarrow> fmlookup (dk_files (fs_disk s')) x = fmlookup (dk_files (fs_disk s)) x) \<and>
    (err = None \<longrightarrow> n = Suc (length bs))"
proof -
  obtain d e where o: "OpenAppend blocksPath (fs_disk s) = (d, e)" by (metis prod.collapse)
  have d: "dk_exists d = dk_exists (fs_disk s)" "get_or [] (dk_files d) blocksPath = old"
    "\<forall>x. x \<noteq> blocksPath \<longrightarrow> fmlookup (dk_files d) x = fmlookup (dk_files (fs_disk s)) x"
    using OpenAppend_outcomes [OF o] assms(2) by (auto simp: get_or_def)
  show ?thesis
  proof (cases e)
    case (Some x)
    with assms(3) o have "s' = s\<lparr>fs_disk := d\<rparr>" "err \<noteq> None" by (auto simp: appendBlock_def)
    with d show ?thesis by (intro exI [of _ 0]) simp
  next
    case None
    obtain d2 e2 where w: "WriteAppend blocksPath (bs @ [10]) d = (d2, e2)" by (metis prod.collapse)
    from assms(1,3) o None w have r: "s' = s\<lparr>fs_disk := d2\<rparr>" "err = e2" by (simp_all add: appendBlock_def)
    from WriteAppend_outcomes [OF w] consider "dk_files d2 = dk_files d" "e2 \<noteq> None" "dk_exists d2 = dk_exists d"
      | n where "dk_files d2 = fmupd blocksPath (old @ take n (bs @ [10])) (dk_files d)" "e2 = None \<longrightarrow> Suc (length bs) \<le> n"
        "dk_exists d2 = dk_exists d"
      using d(2) by auto
    then show ?thesis
    proof cases
      case 1
      with r d show ?thesis by (intro exI [of _ 0]) simp
    next
      case (2 n)
      have "take (min n (Suc (length bs))) (bs @ [10]) = take n (bs @ [10])" by (simp add: min_def)
      with r d 2 show ?thesis by (intro exI [of _ "min n (Suc (length bs))"]) (simp add: get_or_def)
    qed
  qed
qed

lemma WriteFile_outcomes: "WriteFile name bs d = (d', err) \<Longrightarrow> dk_exists d' = dk_exists d \<and>
    (\<forall>x. x \<noteq> name \<longrightarrow> fmlookup (dk_files d') x = fmlookup (dk_files d) x) \<and>
    (err = None \<longrightarrow> fmlookup (dk_files d') name = Some bs)"
  by (auto simp: WriteFile_def put_file_def split: prod.splits outcome.splits if_splits dest!: os_step_exists)

lemma Rename_outcomes: "Rename old new d = (d', err) \<Longrightarrow> old \<noteq> new \<Longrightarrow> dk_exists d' = dk_exists d \<and>
    (\<forall>x. x \<notin> {old, new} \<longrightarrow> fmlookup (dk_files d') x = fmlookup (dk_files d) x) \<and>
    fmlookup (dk_files d') new = fmlookup (dk_files d) (if err = None then old else new)"
  by (auto simp: Rename_def split: prod.splits outcome.splits option.splits dest!: os_step_exists)

lemma writeIndex_outcomes:
  assumes "json_index J (index_of s)" "writeIndex J s = (s', err)"
  shows "s' = s\<lparr>fs_disk := fs_disk s'\<rparr> \<and> dk_exists (fs_disk s') = dk_exists (fs_disk s) \<and>
    fmlookup (dk_files (fs_disk s')) blocksPath = fmlookup (dk_files (fs_disk s)) blocksPath \<and>
    (if err = None then \<exists>bs. fmlookup (dk_files (fs_disk s')) indexPath = Some bs \<and> UnmarshalIndex J bs = Inr (index_of s)
     else fmlookup (dk_files (fs_disk s')) indexPath = fmlookup (dk_files (fs_disk s)) indexPath)"
proof -
  let ?tmp = "indexPath @ ''.tmp''"
  have names: "?tmp \<noteq> indexPath" "blocksPath \<notin> {?tmp, indexPath}" by (simp_all add: indexPath_def blocksPath_def)
  from assms(1) obtain bs where bs: "MarshalIndex J (index_of s) = Inr bs" "UnmarshalIndex J bs = Inr (index_of s)"
    by (auto simp: json_index_def)
  obtain d e where w: "WriteFile ?tmp bs (fs_disk s) = (d, e)" by (metis prod.collapse)
  note wo = WriteFile_outcomes [OF w]
  show ?thesis
  proof (cases e)
    case (Some x)
    with assms(2) bs w have "s' = s\<lparr>fs_disk := d\<rparr>" "err = Some x"
      by (simp_all add: writeIndex_def Let_def flip: index_of_def)
    with wo names show ?thesis by simp
  next
    case None
    obtain d2 e2 where r: "Rename ?tmp indexPath d = (d2, e2)" by (metis prod.collapse)
    from assms(2) bs w None r have "s' = s\<lparr>fs_disk := d2\<rparr>" "err = e2"
      by (simp_all add: writeIndex_def Let_def flip: index_of_def)
    with wo Rename_outcomes [OF r names(1)] names bs(2) None show ?thesis by auto
  qed
qed

text \<open>
  The fate of a block whose line was written up to its first \<open>n\<close> bytes: an incomplete line is no JSON.
\<close>

definition json_truncated :: "jsonlib \<Rightarrow> Block \<Rightarrow> bool" where
  "json_truncated J b \<longleftrightarrow> (\<forall>n. 0 < n \<and> n < length (line_of J b) \<longrightarrow> (\<exists>e. UnmarshalBlock J (take n (line_of J b)) = Inl e))"

lemma load_torn:
  assumes "\<forall>b\<in>set log. json_block J b \<and> line_fits J b" "json_block J b" "json_truncated J b"
    and "fs_blocks s = fmempty"
  defines "blocks \<equiv> fold (\<lambda>b. fmupd (b_Hash b) b) log fmempty"
  shows "if 0 < n \<and> (n < length (line_of J b) \<or> \<not> line_fits J b)
    then \<exists>s' e. load_lines J (lines_of [] (encoded J log @ take n (line_of J b @ [10]))) s = (s', Some e)
    else load_lines J (lines_of [] (encoded J log @ take n (line_of J b @ [10]))) s =
      (s\<lparr>fs_blocks := if n = 0 then blocks else fmupd (b_Hash b) b blocks\<rparr>, None)"
proof -
  note b = json_blockD [OF assms(2)]
  let ?s = "s\<lparr>fs_blocks := blocks\<rparr>"
  have json: "\<forall>b\<in>set log. json_block J b" using assms(1) by blast
  have run: "load_lines J (lines_of [] (encoded J log @ ys)) s = load_lines J (lines_of [] ys) ?s" for ys
    unfolding lines_of_encoded [OF json] load_lines_append [OF assms(1)] assms(4) blocks_def ..
  consider "n = 0" | "0 < n" "n < length (line_of J b)" | "length (line_of J b) \<le> n" "n \<noteq> 0" by linarith
  then show ?thesis
  proof cases
    case 1
    then show ?thesis using run [of "[]"] by simp
  next
    case 2
    let ?l = "take n (line_of J b)"
    have l: "?l \<noteq> []" "10 \<notin> set ?l" using 2 b(3) by (auto dest: in_set_takeD)
    have "last ?l \<in> set (line_of J b)" using l(1) by (meson in_set_takeD last_in_set)
    then have "last ?l \<noteq> 13" using assms(2) b(1) by (auto simp: json_block_def)
    then have "dropCR ?l = ?l" by (simp add: dropCR_def)
    moreover have "lines_of [] ?l = [?l]" using lines_of_prefix [OF l(2), of "[]" "[]"] l(1) by simp
    moreover obtain e where "UnmarshalBlock J ?l = Inl e" using assms(3) 2 by (auto simp: json_truncated_def)
    ultimately show ?thesis using 2 by (simp add: run)
  next
    case 3
    have "lines_of [] (take n (line_of J b @ [10])) = [line_of J b]"
    proof (cases "n = length (line_of J b)")
      case True
      with b(3,4) lines_of_prefix [of "line_of J b" "[]" "[]"] show ?thesis by simp
    next
      case False
      with 3 b(3) lines_of_prefix [of "line_of J b" "[]" "[10]"] show ?thesis by simp
    qed
    with 3 b(2,5) show ?thesis by (simp add: run line_fits_def)
  qed
qed

text \<open>
  The files after a call of \<open>SaveBlock\<close> that the operating system may have disturbed: the first \<open>n\<close> bytes of
  the block's line are in the block file, and the index is the new one exactly when no error was reported.
\<close>

lemma SaveBlock_files:
  assumes "file_ok J log s" "json_block J b" "json_index J (index_of (remember b s))"
    and "file_SaveBlock J (s\<lparr>fs_disk := (fs_disk s)\<lparr>dk_script := sc\<rparr>\<rparr>) b = (s2, err)"
  obtains n where "n \<le> Suc (length (line_of J b))" "dk_exists (fs_disk s2)"
    "get_or [] (dk_files (fs_disk s2)) blocksPath = encoded J log @ take n (line_of J b @ [10])"
    "if err = None then n = Suc (length (line_of J b)) \<and>
        (\<exists>ix. fmlookup (dk_files (fs_disk s2)) indexPath = Some ix \<and> UnmarshalIndex J ix = Inr (index_of (remember b s)))
     else if log = [] then fmlookup (dk_files (fs_disk s2)) indexPath = None
     else \<exists>ix. fmlookup (dk_files (fs_disk s2)) indexPath = Some ix \<and> UnmarshalIndex J ix = Inr (index_of s)"
proof -
  let ?s = "s\<lparr>fs_disk := (fs_disk s)\<lparr>dk_script := sc\<rparr>\<rparr>"
  have s: "s = memory_of log (fs_disk s)" "on_disk J log (fs_disk s)" using assms(1) by (simp_all add: file_ok_def)
  have d: "dk_exists (fs_disk s)" "get_or [] (dk_files (fs_disk s)) blocksPath = encoded J log"
    and ix: "if log = [] then fmlookup (dk_files (fs_disk s)) indexPath = None
      else \<exists>ix. fmlookup (dk_files (fs_disk s)) indexPath = Some ix \<and> UnmarshalIndex J ix = Inr (index_of s)"
    using s(2) by (cases "log = []"; auto simp: on_disk_def get_or_def simp flip: s(1))+
  obtain s1 e1 where a: "appendBlock J b ?s = (s1, e1)" by (metis prod.collapse)
  have old: "get_or [] (dk_files (fs_disk ?s)) blocksPath = encoded J log" using d(2) by simp
  from appendBlock_outcomes [OF json_blockD(1) [OF assms(2)] old a] obtain n where
    n: "n \<le> Suc (length (line_of J b))" "s1 = ?s\<lparr>fs_disk := fs_disk s1\<rparr>" "dk_exists (fs_disk s1) = dk_exists (fs_disk ?s)"
      "get_or [] (dk_files (fs_disk s1)) blocksPath = encoded J log @ take n (line_of J b @ [10])"
      "\<forall>x. x \<noteq> blocksPath \<longrightarrow> fmlookup (dk_files (fs_disk s1)) x = fmlookup (dk_files (fs_disk ?s)) x"
      "e1 = None \<longrightarrow> n = Suc (length (line_of J b))"
    by blast
  have kept: "dk_exists (fs_disk s1)" "fmlookup (dk_files (fs_disk s1)) indexPath = fmlookup (dk_files (fs_disk s)) indexPath"
    using n(3,5) d(1) by simp_all
  show thesis
  proof (cases e1)
    case (Some e)
    with assms(4) a have "s2 = s1" "err \<noteq> None" by (auto simp: file_SaveBlock_def)
    with n(1,4) kept ix show thesis by (intro that [of n]) auto
  next
    case None
    with assms(4) a have w: "writeIndex J (remember b s1) = (s2, err)" by (simp add: file_SaveBlock_def)
    have same: "index_of (remember b s1) = index_of (remember b s)"
      by (subst n(2)) (simp add: index_of_def remember_def Let_def)
    note wo = writeIndex_outcomes [OF assms(3) [folded same] w, unfolded same]
    have files: "dk_exists (fs_disk s2)"
      "get_or [] (dk_files (fs_disk s2)) blocksPath = encoded J log @ take n (line_of J b @ [10])"
      using wo kept(1) n(4) by (simp_all add: get_or_def)
    show thesis
      by (rule that [OF n(1) files]) (use wo kept(2) n(6) None ix in \<open>auto split: if_splits\<close>)
  qed
qed

text \<open>Opening the directory again: with the index of \<open>t\<close>, and without one after the first block.\<close>

lemma reload_torn:
  assumes "\<forall>b\<in>set log. json_block J b \<and> line_fits J b" "json_block J b" "json_truncated J b" "dir \<noteq> []"
    and "dk_exists d" "dk_script d = []" "get_or [] (dk_files d) blocksPath = encoded J log @ take n (line_of J b @ [10])"
    and "fmlookup (dk_files d) indexPath = Some ix" "UnmarshalIndex J ix = Inr (index_of t)" "fs_heightToHash t \<noteq> fmempty"
  defines "blocks \<equiv> fold (\<lambda>b. fmupd (b_Hash b) b) log fmempty"
  shows "if 0 < n \<and> (n < length (line_of J b) \<or> \<not> line_fits J b) then \<exists>e. NewFileBlockStore J dir d = (d, Inl e)
    else NewFileBlockStore J dir d = (d, Inr (t\<lparr>fs_blocks := if n = 0 then blocks else fmupd (b_Hash b) b blocks, fs_disk := d\<rparr>))"
proof -
  let ?w = "with_index (index_of t) d"
  have h: "ix_HeightToHash (index_of t) \<noteq> fmempty" using assms(10) by (simp add: index_of_def)
  have "fs_blocks ?w = fmempty" by (simp add: with_index_def)
  note load = load_torn [OF assms(1-3) this, of n, folded blocks_def]
  have "?w\<lparr>fs_blocks := bs\<rparr> = t\<lparr>fs_blocks := bs, fs_disk := d\<rparr>" for bs
    by (cases t) (simp add: with_index_def index_of_def)
  with load show ?thesis
    unfolding NewFileBlockStore_run [OF assms(4-6,8,9) h assms(7)] by (auto split: if_splits)
qed

lemma rebuild_single:
  assumes "range_complete J" "json_index J (index_of (remember b (memory_of [] d)))" "dk_exists d" "dk_script d = []"
  shows "\<exists>d'. rebuildIndex J ((memory_of [] d)\<lparr>fs_blocks := fmupd (b_Hash b) b fmempty\<rparr>) = ((remember b (memory_of [] d))\<lparr>fs_disk := d'\<rparr>, None)"
proof -
  have "mset (range_order J [b_Hash b]) = {#b_Hash b#}" using assms(1) by (simp add: range_complete_def)
  then have one: "range_order J [b_Hash b] = [b_Hash b]" by simp
  have keys: "keys_of (fmupd (b_Hash b) b fmempty) = [b_Hash b]"
    by (simp add: keys_of_def sorted_list_of_fset.rep_eq)
  let ?r = "remember b (memory_of [] d)"
  have "rebuildIndex J ((memory_of [] d)\<lparr>fs_blocks := fmupd (b_Hash b) b fmempty\<rparr>) = writeIndex J ?r"
    using fmupd_nonempty [of "b_Hash b" b fmempty]
    by (simp add: rebuildIndex_def keys one reindex_step_def memory_of_def remember_def Let_def)
  with writeIndex_run [OF assms(2)] assms(3,4) show ?thesis by (metis memory_of_simps(1) remember_simps(1))
qed

lemma reload_first:
  assumes "json_block J b" "json_truncated J b" "dir \<noteq> []" "range_complete J" "json_index J (index_of (remember b (memory_of [] d)))"
    and "dk_exists d" "dk_script d = []" "get_or [] (dk_files d) blocksPath = take n (line_of J b @ [10])"
    and "fmlookup (dk_files d) indexPath = None"
  shows "if 0 < n \<and> (n < length (line_of J b) \<or> \<not> line_fits J b) then \<exists>e. NewFileBlockStore J dir d = (d, Inl e)
    else \<exists>d'. NewFileBlockStore J dir d = (d', Inr ((if n = 0 then memory_of [] d else remember b (memory_of [] d))\<lparr>fs_disk := d'\<rparr>))"
proof -
  let ?s = "memory_of [] d"
  have none: "\<forall>b\<in>set []. json_block J b \<and> line_fits J b" "fs_blocks ?s = fmempty" by simp_all
  note load = load_torn [OF none(1) assms(1,2) none(2), of n, unfolded encoded_simps append_Nil fold_simps]
  from rebuild_single [OF assms(4-7)] obtain d' where
    r: "rebuildIndex J (?s\<lparr>fs_blocks := fmupd (b_Hash b) b fmempty\<rparr>) = ((remember b ?s)\<lparr>fs_disk := d'\<rparr>, None)" by blast
  have empty: "?s\<lparr>fs_blocks := fmempty\<rparr> = ?s" "rebuildIndex J ?s = (?s, None)" by (simp_all add: rebuildIndex_def memory_of_def)
  show ?thesis
    unfolding NewFileBlockStore_unindexed [OF assms(3,6,7,9,8)]
    using load r empty by (cases "n = 0") (auto split: if_splits simp del: remember_simps(4))
qed

section \<open>A small codec\<close>

text \<open>
  The witnesses use \<open>demo_json\<close>: a block's line is its index as one digit and the first character of its
  hash between braces, an index is the list of the hashes' first characters.
\<close>

definition stored_block :: "char \<Rightarrow> u64 \<Rightarrow> Block" where
  "stored_block c i = zero_block\<lparr>b_Index := i, b_PrevHash := (if i = 0 then ''GENESIS'' else if i = 1 then ''g'' else ''h''), b_Hash := [c]\<rparr>"

definition demo_json :: jsonlib where
  "demo_json = \<lparr>MarshalBlock = (\<lambda>b. Inr [123, ucast (b_Index b) + 48, byte_of (hd (b_Hash b)), 125]),
     UnmarshalBlock = (\<lambda>bs. case bs of [a, i, c, z] \<Rightarrow> Inr (stored_block (char_of (unat c)) (ucast (i - 48)))
       | _ \<Rightarrow> Inl (ErrNew ''unexpected end of JSON input'')),
     MarshalIndex = (\<lambda>ix. Inr (map (\<lambda>i. byte_of (hd (the (fmlookup (ix_HeightToHash ix) (word_of_nat i)))))
       [0..<Suc (unat (ix_TipHeight ix))])),
     UnmarshalIndex = (\<lambda>bs. Inr \<lparr>
       ix_HeightToHash = fold (\<lambda>i m. fmupd (word_of_nat i) [char_of (unat (bs ! i))] m) [0..<length bs] fmempty,
       ix_TipHash = [char_of (unat (last bs))], ix_TipHeight = word_of_nat (length bs - 1)\<rparr>),
     MarshalSnapshot = (\<lambda>sf. Inr [123, ucast (sf_Epoch sf) + 48, 125]),
     UnmarshalSnapshot = (\<lambda>bs. case bs of [a, e, z] \<Rightarrow> Inr \<lparr>sf_Epoch = ucast (e - 48), sf_StateRoot = [], sf_ValidatorSet = fmempty\<rparr>
       | _ \<Rightarrow> Inl (ErrNew ''unexpected end of JSON input'')),
     range_order = (\<lambda>ks. ks)\<rparr>"

definition empty_disk :: disk where
  "empty_disk = \<lparr>dk_exists = True, dk_files = fmempty, dk_script = []\<rparr>"

lemma char_of_byte_of [simp]: "char_of (unat (byte_of c)) = c"
  by (simp add: unat_byte_of)

lemma demo_chars: "char_of (103 :: nat) = CHR ''g''" "char_of (104 :: nat) = CHR ''h''"
  "char_of (105 :: nat) = CHR ''i''" "char_of (106 :: nat) = CHR ''j''"
  by code_simp+

lemma demo_block_ok:
  "json_block demo_json (stored_block CHR ''g'' 0)" "json_block demo_json (stored_block CHR ''h'' 1)"
  "json_block demo_json (stored_block CHR ''j'' 1)" "json_block demo_json (stored_block CHR ''i'' 2)"
  by (simp_all add: json_block_def demo_json_def stored_block_def zero_block_def byte_of_def demo_chars)

lemma demo_line_fits: "line_fits demo_json b"
  by (simp add: line_fits_def line_of_def demo_json_def)

lemma demo_range: "range_complete demo_json"
  by (simp add: range_complete_def demo_json_def)

lemma demo_truncated: "json_truncated demo_json (stored_block CHR ''h'' 1)" "json_truncated demo_json (stored_block CHR ''g'' 0)"
proof -
  have "UnmarshalBlock demo_json (take n [a, b, c, d]) = Inl (ErrNew ''unexpected end of JSON input'')" if "0 < n" "n < 4" for n a b c d
  proof -
    from that have "n \<in> {1, 2, 3}" by auto
    then show ?thesis by (auto simp: demo_json_def)
  qed
  then show "json_truncated demo_json (stored_block CHR ''h'' 1)" "json_truncated demo_json (stored_block CHR ''g'' 0)"
    by (auto simp: json_truncated_def line_of_def demo_json_def)
qed

lemma demo_file_empty: "file_ok demo_json [] (memory_of [] empty_disk)"
  by (simp add: file_ok_def on_disk_def empty_disk_def get_or_def)

lemma demo_index:
  "json_index demo_json (index_of (memory_of ([] @ [stored_block CHR ''g'' 0]) d))"
  "json_index demo_json (index_of (memory_of ([stored_block CHR ''g'' 0] @ [stored_block CHR ''h'' 1]) d))"
  by (simp_all add: json_index_def demo_json_def index_of_def memory_of_def remember_def stored_block_def zero_block_def
      Let_def)

lemma demo_file_one: "\<exists>s. file_ok demo_json [stored_block CHR ''g'' 0] s"
  using file_SaveBlock_ok [OF demo_file_empty demo_block_ok(1)] demo_index(1) by fastforce

section \<open>Properties of the block file\<close>

text \<open>
  C13: blocks survive a restart.  From a store whose files are in step with its memory, saving a block
  reports no error, the files are again in step, and opening the directory afresh gives the
  store as it is in memory: the same blocks, heights and tip.  Two conditions: JSON gives every block and the index
  back, and no block's line is longer than 65535 bytes, the most that the scanner of \<open>loadBlocks\<close> takes.
  (\<open>SaveBlock\<close> writes a longer line without an error; C14 shows what opening does then.)
\<close>

theorem SaveBlock_persists:
  assumes "file_ok J log s" "\<forall>b\<in>set log. json_block J b \<and> line_fits J b" "json_block J b" "line_fits J b"
    and "json_index J (index_of (memory_of (log @ [b]) (fs_disk s)))" "dir \<noteq> []"
  shows "\<exists>s'. file_SaveBlock J s b = (s', None) \<and> file_ok J (log @ [b]) s' \<and>
    NewFileBlockStore J dir (fs_disk s') = (fs_disk s', Inr s')"
proof -
  from file_SaveBlock_ok [OF assms(1,3,5)] obtain s' where s': "file_SaveBlock J s b = (s', None)" "file_ok J (log @ [b]) s'"
    by blast
  have "\<forall>x\<in>set (log @ [b]). json_block J x \<and> line_fits J x" using assms(2-4) by auto
  with s' reload_file_ok [OF s'(2) _ assms(6)] show ?thesis by blast
qed

theorem SaveBlock_persists_witness:
  "\<exists>s'. file_SaveBlock demo_json (memory_of [] empty_disk) (stored_block CHR ''g'' 0) = (s', None) \<and>
    NewFileBlockStore demo_json ''data'' (fs_disk s') = (fs_disk s', Inr s')"
proof -
  have "\<forall>b\<in>set []. json_block demo_json b \<and> line_fits demo_json b" "''data'' \<noteq> []" by simp_all
  from SaveBlock_persists [OF demo_file_empty this(1) demo_block_ok(1) demo_line_fits demo_index(1) this(2)] show ?thesis by blast
qed

text \<open>
  C14: a failure while a block is saved.  Whatever the operating system answers to the calls of
  \<open>SaveBlock\<close>, also for the first block of an empty directory: some first part of the block's line is in the
  block file, the whole line if no error was reported.  Opening the directory afterwards fails exactly when
  that part is neither empty nor the whole line, or when it is not empty and the line has more than the
  65535 bytes that \<open>loadBlocks\<close> reads, even if \<open>SaveBlock\<close> reported no error.  Otherwise
  opening gives the store without the block (always if nothing of the line was written), the store with the block
  but the old index, or the store with block and index, the last whenever \<open>SaveBlock\<close> reported no error.
  Conditions: the blocks saved before have lines of at most 65535 bytes, JSON gives every block and the index back and
  refuses a proper first part of a block's line, and a loop over a map visits every key.
\<close>

theorem SaveBlock_crash:
  assumes "file_ok J log s" "\<forall>b\<in>set log. json_block J b \<and> line_fits J b" "json_block J b" "json_truncated J b"
    and "json_index J (index_of (remember b s))" "range_complete J" "dir \<noteq> []"
    and "file_SaveBlock J (s\<lparr>fs_disk := (fs_disk s)\<lparr>dk_script := sc\<rparr>\<rparr>) b = (s2, err)"
    and "d = (fs_disk s2)\<lparr>dk_script := []\<rparr>"
  shows "\<exists>n \<le> Suc (length (line_of J b)).
    get_or [] (dk_files d) blocksPath = encoded J log @ take n (line_of J b @ [10]) \<and>
    (err = None \<longrightarrow> n = Suc (length (line_of J b))) \<and>
    (if 0 < n \<and> (n < length (line_of J b) \<or> 65535 < length (line_of J b))
     then \<exists>e. NewFileBlockStore J dir d = (d, Inl e)
     else \<exists>s3 d'. NewFileBlockStore J dir d = (d', Inr (s3\<lparr>fs_disk := d'\<rparr>)) \<and>
      (s3 = s \<or> s3 = s\<lparr>fs_blocks := fmupd (b_Hash b) b (fs_blocks s)\<rparr> \<or> s3 = remember b s) \<and>
      (n = 0 \<longrightarrow> s3 = s) \<and> (err = None \<longrightarrow> s3 = remember b s))"
proof -
  have s: "s = memory_of log (fs_disk s)" using assms(1) by (simp add: file_ok_def)
  note mem = file_ok_memory [OF assms(1)]
  obtain n where n: "n \<le> Suc (length (line_of J b))" "dk_exists d" "dk_script d = []"
    "get_or [] (dk_files d) blocksPath = encoded J log @ take n (line_of J b @ [10])"
    and ix: "if err = None then n = Suc (length (line_of J b)) \<and>
        (\<exists>ix. fmlookup (dk_files d) indexPath = Some ix \<and> UnmarshalIndex J ix = Inr (index_of (remember b s)))
     else if log = [] then fmlookup (dk_files d) indexPath = None
     else \<exists>ix. fmlookup (dk_files d) indexPath = Some ix \<and> UnmarshalIndex J ix = Inr (index_of s)"
    by (rule SaveBlock_files [OF assms(1,3,5,8)]) (simp add: assms(9))
  have "if 0 < n \<and> (n < length (line_of J b) \<or> \<not> line_fits J b) then \<exists>e. NewFileBlockStore J dir d = (d, Inl e)
     else \<exists>s3 d'. NewFileBlockStore J dir d = (d', Inr (s3\<lparr>fs_disk := d'\<rparr>)) \<and>
      (s3 = s \<or> s3 = s\<lparr>fs_blocks := fmupd (b_Hash b) b (fs_blocks s)\<rparr> \<or> s3 = remember b s) \<and>
      (n = 0 \<longrightarrow> s3 = s) \<and> (err = None \<longrightarrow> s3 = remember b s)" (is "if ?torn then _ else ?opens")
  proof (cases "err = None")
    case True
    with ix obtain x where x: "fmlookup (dk_files d) indexPath = Some x" "UnmarshalIndex J x = Inr (index_of (remember b s))" by auto
    note r = reload_torn [OF assms(2-4,7) n(2-4) x, folded mem(1)]
    have "(remember b s)\<lparr>fs_blocks := fmupd (b_Hash b) b (fs_blocks s), fs_disk := d\<rparr> = (remember b s)\<lparr>fs_disk := d\<rparr>"
      by (simp add: remember_def Let_def)
    with r True ix show ?thesis by (auto simp: fmupd_nonempty split: if_splits)
  next
    case failed: False
    show ?thesis
    proof (cases "log = []")
      case True
      have same: "index_of (remember b (memory_of [] d)) = index_of (remember b s)"
        by (subst s) (simp add: True index_of_def remember_def memory_of_def Let_def)
      have "fmlookup (dk_files d) indexPath = None" using ix failed True by simp
      note r = reload_first [OF assms(3,4,7,6) _ n(2,3) _ this, of n, unfolded same, OF assms(5)]
      have "(memory_of [] d)\<lparr>fs_disk := d'\<rparr> = s\<lparr>fs_disk := d'\<rparr>"
        "(remember b (memory_of [] d))\<lparr>fs_disk := d'\<rparr> = (remember b s)\<lparr>fs_disk := d'\<rparr>" for d'
        by (subst s, simp add: True)+
      with r n(4) True failed show ?thesis by (auto split: if_splits simp del: remember_simps(4) memory_of_simps(3))
    next
      case False
      with ix failed obtain x where x: "fmlookup (dk_files d) indexPath = Some x" "UnmarshalIndex J x = Inr (index_of s)" by auto
      have "fs_heightToHash s \<noteq> fmempty" using heights_nonempty [OF False] by (simp add: mem(2))
      note r = reload_torn [OF assms(2-4,7) n(2-4) x this, folded mem(1)]
      show ?thesis
      proof (cases ?torn)
        case True
        with r show ?thesis by simp
      next
        case False
        let ?s = "if n = 0 then s else s\<lparr>fs_blocks := fmupd (b_Hash b) b (fs_blocks s)\<rparr>"
        have "NewFileBlockStore J dir d = (d, Inr (?s\<lparr>fs_disk := d\<rparr>))" using r False by (auto split: if_splits)
        then have ?opens using failed by (intro exI [of _ ?s] exI [of _ d]) (cases err; simp)
        then show ?thesis unfolding if_not_P [OF False] .
      qed
    qed
  qed
  then show ?thesis using n ix by (intro exI [of _ n]) (auto simp: line_fits_def not_le split: if_splits)
qed

theorem SaveBlock_crash_witness:
  "\<exists>s2 err d e. d = (fs_disk s2)\<lparr>dk_script := []\<rparr> \<and>
    file_SaveBlock demo_json ((memory_of [] empty_disk)\<lparr>fs_disk := empty_disk\<lparr>dk_script := [Done, Torn 2]\<rparr>\<rparr>)
      (stored_block CHR ''g'' 0) = (s2, Some err) \<and> NewFileBlockStore demo_json ''data'' d = (d, Inl e)"
proof -
  let ?b = "stored_block CHR ''g'' 0" and ?s = "memory_of [] empty_disk"
  obtain s2 err where run: "file_SaveBlock demo_json (?s\<lparr>fs_disk := (fs_disk ?s)\<lparr>dk_script := [Done, Torn 2]\<rparr>\<rparr>) ?b = (s2, Some err)"
    and torn: "fmlookup (dk_files (fs_disk s2)) blocksPath = Some [123, 48]"
    by (simp add: file_SaveBlock_def appendBlock_def os_defs empty_disk_def demo_json_def stored_block_def zero_block_def get_or_def)
  have hyps: "\<forall>b\<in>set []. json_block demo_json b \<and> line_fits demo_json b" "''data'' \<noteq> []" by simp_all
  have ix: "json_index demo_json (index_of (remember ?b ?s))"
    by (simp add: json_index_def demo_json_def index_of_def memory_of_def remember_def stored_block_def zero_block_def Let_def)
  have line: "line_of demo_json ?b = [123, 48, byte_of CHR ''g'', 125]"
    by (simp add: line_of_def demo_json_def stored_block_def zero_block_def)
  let ?d = "(fs_disk s2)\<lparr>dk_script := []\<rparr>"
  from SaveBlock_crash [OF demo_file_empty hyps(1) demo_block_ok(1) demo_truncated(2) ix demo_range hyps(2) run refl] torn
  obtain n where n: "[123, 48] = take n [123, 48, byte_of CHR ''g'', 125, 10]" "n \<le> 5"
    "0 < n \<and> n < 4 \<longrightarrow> (\<exists>e. NewFileBlockStore demo_json ''data'' ?d = (?d, Inl e))"
    by (auto simp: line get_or_def split: if_splits)
  from arg_cong [OF n(1), of length] n(2) have "n = 2" by (simp add: min_def split: if_splits)
  with n(3) run show ?thesis by auto
qed

section \<open>The interface\<close>

text \<open>
  What a client of \<open>ports.BlockStore\<close> relies on: after a block was saved without an error it is found by
  its hash and its height, the other blocks are found as before, and it is the tip when it is at least
  as high as the tip was.  \<open>storable\<close> excludes an empty hash and a second block of the same hash.
\<close>

definition storable :: "('s \<Rightarrow> string \<Rightarrow> Block option) \<Rightarrow> 's \<Rightarrow> Block \<Rightarrow> bool" where
  "storable by_hash s b \<longleftrightarrow> b_Hash b \<noteq> [] \<and> (by_hash s (b_Hash b) = None \<or> by_hash s (b_Hash b) = Some b)"

primrec save_all :: "('s \<Rightarrow> Block \<Rightarrow> 's \<times> failure) \<Rightarrow> 's \<Rightarrow> Block list \<Rightarrow> 's \<times> failure" where
  "save_all save s [] = (s, None)"
| "save_all save s (b # bs) = (case save s b of (s, Some e) \<Rightarrow> (s, Some e) | (s, None) \<Rightarrow> save_all save s bs)"

lemma save_all_snoc: "save_all save s (bs @ [b]) = (s', None) \<longleftrightarrow>
    (\<exists>s1. save_all save s bs = (s1, None) \<and> save s1 b = (s', None))"
  by (induction bs arbitrary: s) (auto split: prod.splits option.splits)

locale hash_store =
  fixes put :: "'s \<Rightarrow> Block \<Rightarrow> 's" and get :: "'s \<Rightarrow> string \<Rightarrow> Block option"
  assumes get_put: "get (put s b) h = (if h = b_Hash b then Some b else get s h)"
begin

lemma get_put_all: "distinct (map b_Hash bs) \<Longrightarrow> b \<in> set bs \<Longrightarrow> get (fold (\<lambda>b s. put s b) bs s) (b_Hash b) = Some b"
proof (induction bs rule: rev_induct)
  case (snoc c bs)
  have "b_Hash b \<noteq> b_Hash c" if "b \<in> set bs" using snoc.prems(1) imageI [OF that, of b_Hash] by auto
  with snoc show ?case by (auto simp: get_put)
qed simp

lemma get_other: "h \<notin> b_Hash ` set bs \<Longrightarrow> get (fold (\<lambda>b s. put s b) bs s) h = get s h"
  by (induction bs arbitrary: s) (auto simp: get_put)

end

locale block_store =
  fixes inv :: "'s \<Rightarrow> bool" and save :: "'s \<Rightarrow> Block \<Rightarrow> 's \<times> failure"
    and by_hash :: "'s \<Rightarrow> string \<Rightarrow> Block option" and by_height :: "'s \<Rightarrow> u64 \<Rightarrow> Block option" and tip :: "'s \<Rightarrow> Block option"
  assumes inv_save: "\<lbrakk>inv s; storable by_hash s b; save s b = (s', None)\<rbrakk> \<Longrightarrow> inv s'"
    and hash_save: "\<lbrakk>inv s; storable by_hash s b; save s b = (s', None)\<rbrakk> \<Longrightarrow>
      by_hash s' h = (if h = b_Hash b then Some b else by_hash s h)"
    and height_save: "\<lbrakk>inv s; storable by_hash s b; save s b = (s', None)\<rbrakk> \<Longrightarrow>
      by_height s' i = (if i = b_Index b then Some b else by_height s i)"
    and tip_save: "\<lbrakk>inv s; storable by_hash s b; save s b = (s', None)\<rbrakk> \<Longrightarrow>
      tip s' = (case tip s of None \<Rightarrow> Some b | Some t \<Rightarrow> if b_Index t \<le> b_Index b then Some b else Some t)"
begin

text \<open>A chain that was saved from its root on, each block one higher, is read back by height.\<close>

lemma save_chain:
  assumes "inv s" "tip s = None" "\<And>h. by_hash s h = None"
    and "map b_Index bs = map word_of_nat [0..<length bs]" "length bs < 2 ^ 64"
    and "distinct (map b_Hash bs)" "[] \<notin> b_Hash ` set bs" "save_all save s bs = (s', None)"
  shows "inv s' \<and> (\<forall>i<length bs. by_height s' (word_of_nat i) = Some (bs ! i)) \<and>
    tip s' = (if bs = [] then None else Some (last bs)) \<and>
    (\<forall>b\<in>set bs. by_hash s' (b_Hash b) = Some b) \<and> (\<forall>h. h \<notin> b_Hash ` set bs \<longrightarrow> by_hash s' h = None)"
  using assms(4-8)
proof (induction bs arbitrary: s' rule: rev_induct)
  case Nil
  with assms(1-3) show ?case by simp
next
  case (snoc b bs)
  let ?n = "length bs"
  from snoc.prems(5) obtain s1 where s1: "save_all save s bs = (s1, None)" "save s1 b = (s', None)"
    unfolding save_all_snoc by blast
  have idx: "map b_Index bs = map word_of_nat [0..<?n]" "b_Index b = word_of_nat ?n"
    using snoc.prems(1) by simp_all
  from snoc.IH [OF idx(1) _ _ _ s1(1)] snoc.prems(2-4)
  have IH: "inv s1" "\<forall>i<?n. by_height s1 (word_of_nat i) = Some (bs ! i)" "tip s1 = (if bs = [] then None else Some (last bs))"
    "\<forall>c\<in>set bs. by_hash s1 (b_Hash c) = Some c" "\<forall>h. h \<notin> b_Hash ` set bs \<longrightarrow> by_hash s1 h = None"
    by auto
  have new: "b_Hash b \<notin> b_Hash ` set bs" "b_Hash b \<noteq> []" using snoc.prems(3,4) by auto
  then have st: "storable by_hash s1 b" using IH(5) by (simp add: storable_def)
  note laws = inv_save [OF IH(1) st s1(2)] hash_save [OF IH(1) st s1(2)] height_save [OF IH(1) st s1(2)] tip_save [OF IH(1) st s1(2)]
  have differ: "word_of_nat i \<noteq> (word_of_nat ?n :: u64)" if "i < ?n" for i
  proof -
    have "unat (word_of_nat i :: u64) = i" "unat (word_of_nat ?n :: u64) = ?n"
      using that snoc.prems(2) by (simp_all add: unat_of_nat)
    with that show ?thesis by (metis less_irrefl)
  qed
  have "by_height s' (word_of_nat i) = Some ((bs @ [b]) ! i)" if "i < Suc ?n" for i
    using that IH(2) differ laws(3) idx(2) by (auto simp: nth_append less_Suc_eq)
  moreover have "tip s' = Some b"
  proof (cases "bs = []")
    case False
    have "b_Index (last bs) = map b_Index bs ! (?n - 1)" using False by (simp add: last_conv_nth)
    also have "\<dots> = word_of_nat (?n - 1)" unfolding idx(1) using False by simp
    also have "\<dots> \<le> (word_of_nat ?n :: u64)"
      using snoc.prems(2) by (simp add: word_le_nat_alt unat_of_nat)
    finally show ?thesis using laws(4) IH(3) False idx(2) by simp
  qed (use laws(4) IH(3) in simp)
  moreover have "b_Hash c \<noteq> b_Hash b" if "c \<in> set bs" for c using new(1) imageI [OF that, of b_Hash] by auto
  ultimately show ?case using laws(1,2) IH(4,5) by auto
qed

end

section \<open>The stores implement the interface\<close>

definition file_inv :: "FileBlockStore \<Rightarrow> bool" where
  "file_inv s \<longleftrightarrow> (\<forall>x b. fmlookup (fs_blocks s) x = Some b \<longrightarrow> b_Hash b = x) \<and>
     (\<forall>i x. fmlookup (fs_heightToHash s) i = Some x \<longrightarrow> (\<exists>b. fmlookup (fs_blocks s) x = Some b \<and> b_Index b = i)) \<and>
     (if fs_tipHash s = [] then fs_tipHeight s = 0
      else \<exists>b. fmlookup (fs_blocks s) (fs_tipHash s) = Some b \<and> b_Index b = fs_tipHeight s)"

lemma file_SaveBlock_memory:
  assumes "file_SaveBlock J s b = (s', None)"
  shows "\<exists>d. s' = (remember b s)\<lparr>fs_disk := d\<rparr>"
proof -
  have app: "s1 = s\<lparr>fs_disk := fs_disk s1\<rparr>" if "appendBlock J b s = (s1, e)" for s1 e
    using that by (auto simp: appendBlock_def split: prod.splits option.splits sum.splits)
  have idx: "t' = t\<lparr>fs_disk := fs_disk t'\<rparr>" if "writeIndex J t = (t', e)" for t t' e
    using that by (auto simp: writeIndex_def Let_def split: prod.splits option.splits sum.splits)
  obtain s1 where s1: "appendBlock J b s = (s1, None)" "writeIndex J (remember b s1) = (s', None)"
    using assms by (auto simp: file_SaveBlock_def split: prod.splits option.splits)
  have "s' = (remember b s1)\<lparr>fs_disk := fs_disk s'\<rparr>" by (rule idx [OF s1(2)])
  also have "\<dots> = (remember b s)\<lparr>fs_disk := fs_disk s'\<rparr>" by (subst app [OF s1(1)]) simp
  finally show ?thesis by blast
qed

lemma remember_tip:
  "fs_tipHash (remember b s) = (if fs_tipHeight s \<le> b_Index b then b_Hash b else fs_tipHash s)"
  "fs_tipHeight (remember b s) = (if fs_tipHeight s \<le> b_Index b then b_Index b else fs_tipHeight s)"
  by (simp_all add: remember_def Let_def)

lemma file_invD:
  assumes "file_inv s"
  shows "fmlookup (fs_blocks s) x = Some b \<Longrightarrow> b_Hash b = x"
    "fmlookup (fs_heightToHash s) i = Some x \<Longrightarrow> \<exists>b. fmlookup (fs_blocks s) x = Some b \<and> b_Index b = i"
    "fs_tipHash s = [] \<Longrightarrow> fs_tipHeight s = 0"
    "fs_tipHash s \<noteq> [] \<Longrightarrow> \<exists>b. fmlookup (fs_blocks s) (fs_tipHash s) = Some b \<and> b_Index b = fs_tipHeight s"
  using assms unfolding file_inv_def by (blast, blast, auto split: if_splits)

lemma file_inv_remember:
  assumes "file_inv s" "storable file_GetBlockByHash s b"
  shows "file_inv (remember b s)"
    and "file_GetTip (remember b s) = (case file_GetTip s of None \<Rightarrow> Some b
      | Some t \<Rightarrow> if b_Index t \<le> b_Index b then Some b else Some t)"
proof -
  note inv = file_invD [OF assms(1)]
  have b: "b_Hash b \<noteq> []" "fmlookup (fs_blocks s) (b_Hash b) = None \<or> fmlookup (fs_blocks s) (b_Hash b) = Some b"
    using assms(2) by (simp_all add: storable_def file_GetBlockByHash_def)
  have keep: "fmlookup (fs_blocks (remember b s)) x = Some c" if "fmlookup (fs_blocks s) x = Some c" for x c
    using that b(2) by auto
  have tip: "if fs_tipHash (remember b s) = [] then fs_tipHeight (remember b s) = 0
      else \<exists>c. fmlookup (fs_blocks (remember b s)) (fs_tipHash (remember b s)) = Some c \<and> b_Index c = fs_tipHeight (remember b s)"
  proof (cases "fs_tipHeight s \<le> b_Index b")
    case True
    with b(1) show ?thesis by (simp add: remember_tip)
  next
    case False
    with inv(3) have "fs_tipHash s \<noteq> []" by auto
    with inv(4) keep have "\<exists>c. fmlookup (fs_blocks (remember b s)) (fs_tipHash s) = Some c \<and> b_Index c = fs_tipHeight s" by blast
    with False \<open>fs_tipHash s \<noteq> []\<close> show ?thesis by (simp add: remember_tip)
  qed
  have heights: "\<exists>c. fmlookup (fs_blocks (remember b s)) x = Some c \<and> b_Index c = i"
    if "fmlookup (fs_heightToHash (remember b s)) i = Some x" for i x
  proof (cases "i = b_Index b")
    case True
    with that show ?thesis by auto
  next
    case False
    with that inv(2) keep show ?thesis by (metis fmupd_lookup remember_simps(3))
  qed
  have "b_Hash c = x" if "fmlookup (fs_blocks (remember b s)) x = Some c" for x c
    using that inv(1) by (auto split: if_splits)
  with heights tip show "file_inv (remember b s)" unfolding file_inv_def by blast
  show "file_GetTip (remember b s) = (case file_GetTip s of None \<Rightarrow> Some b
      | Some t \<Rightarrow> if b_Index t \<le> b_Index b then Some b else Some t)"
  proof (cases "fs_tipHash s = []")
    case True
    with inv(3) b(1) show ?thesis by (simp add: file_GetTip_def remember_tip)
  next
    case False
    then obtain t where t: "fmlookup (fs_blocks s) (fs_tipHash s) = Some t" "b_Index t = fs_tipHeight s" using inv(4) by blast
    with False b(1) keep [OF t(1)] show ?thesis by (auto simp: file_GetTip_def remember_tip)
  qed
qed

lemma remember_height:
  assumes "file_inv s" "storable file_GetBlockByHash s b"
  shows "file_GetBlockByHeight (remember b s) i = (if i = b_Index b then Some b else file_GetBlockByHeight s i)"
proof (cases "i = b_Index b \<or> fmlookup (fs_heightToHash s) i = None")
  case True
  then show ?thesis by (auto simp: file_GetBlockByHeight_def)
next
  case False
  have b: "fmlookup (fs_blocks s) (b_Hash b) = None \<or> fmlookup (fs_blocks s) (b_Hash b) = Some b"
    using assms(2) by (simp add: storable_def file_GetBlockByHash_def)
  from False obtain x where x: "fmlookup (fs_heightToHash s) i = Some x" by blast
  from file_invD(2) [OF assms(1) x] b x False show ?thesis by (auto simp: file_GetBlockByHeight_def)
qed

interpretation file_store: block_store file_inv "file_SaveBlock J" file_GetBlockByHash file_GetBlockByHeight file_GetTip for J
proof
  fix s s' b
  assume inv: "file_inv s" and st: "storable file_GetBlockByHash s b" and run: "file_SaveBlock J s b = (s', None)"
  from file_SaveBlock_memory [OF run] obtain d where s': "s' = (remember b s)\<lparr>fs_disk := d\<rparr>" by blast
  have disk: "file_inv (t\<lparr>fs_disk := d\<rparr>) = file_inv t" "file_GetTip (t\<lparr>fs_disk := d\<rparr>) = file_GetTip t"
    "file_GetBlockByHeight (t\<lparr>fs_disk := d\<rparr>) = file_GetBlockByHeight t" for t
    by (auto simp: file_inv_def file_GetTip_def file_GetBlockByHeight_def fun_eq_iff split: option.split)
  show "file_inv s'" unfolding s' disk by (rule file_inv_remember [OF inv st])
  show "file_GetTip s' = (case file_GetTip s of None \<Rightarrow> Some b | Some t \<Rightarrow> if b_Index t \<le> b_Index b then Some b else Some t)"
    unfolding s' disk by (rule file_inv_remember [OF inv st])
  show "file_GetBlockByHash s' h = (if h = b_Hash b then Some b else file_GetBlockByHash s h)" for h
    by (simp add: s' file_GetBlockByHash_def)
  show "file_GetBlockByHeight s' i = (if i = b_Index b then Some b else file_GetBlockByHeight s i)" for i
    unfolding s' disk by (rule remember_height [OF inv st])
qed

section \<open>Reading a range\<close>

lemma range_walk_run:
  assumes "hi \<noteq> - 1"
  shows "\<exists>r. range_walk s lo hi out = Some r \<and> (\<forall>bs. r = Inr bs \<longleftrightarrow>
    map Some bs = map Some out @ map (file_GetBlockByHeight s) (slots_between lo hi))"
proof (induction "Suc (unat hi) - unat lo" arbitrary: lo out)
  case 0
  then have "hi < lo" by (simp add: word_less_nat_alt)
  then show ?case by (subst range_walk.simps) (auto simp: inj_map_eq_map)
next
  case (Suc n)
  then have le: "lo \<le> hi" by (simp add: word_le_nat_alt)
  have next_lo: "slots_between lo hi = lo # slots_between (lo + 1) hi"
  proof (cases "lo = hi")
    case True
    with assms less_plus_one_64 [of hi] show ?thesis by (simp add: slots_between_Cons)
  next
    case False
    with le show ?thesis by (simp add: slots_between_Cons)
  qed
  show ?case
  proof (cases "file_GetBlockByHeight s lo")
    case None
    then have "\<exists>e. range_walk s lo hi out = Some (Inl e)"
      using le by (subst range_walk.simps) (auto simp: file_GetBlockByHeight_def split: option.splits)
    moreover have "map Some bs \<noteq> map Some out @ map (file_GetBlockByHeight s) (slots_between lo hi)" for bs
    proof
      assume "map Some bs = map Some out @ map (file_GetBlockByHeight s) (slots_between lo hi)"
      then have "None \<in> set (map Some bs)" using None by (simp add: next_lo)
      then show False by auto
    qed
    ultimately show ?thesis by auto
  next
    case (Some b)
    have "lo \<noteq> - 1" using le assms word_order.extremum_uniqueI by auto
    then have "unat (lo + 1) = Suc (unat lo)" by (metis add.commute less_plus_one_64 unat_Suc_64)
    with Suc.hyps(2) have "n = Suc (unat hi) - unat (lo + 1)" by simp
    from Suc.hyps(1) [OF this, of "out @ [b]"] show ?thesis
      using le Some by (subst range_walk.simps) (auto simp: file_GetBlockByHeight_def next_lo split: option.splits)
  qed
qed

text \<open>
  \<open>GetRange\<close> returns for every end but \<open>2^64 - 1\<close>, and its result is the list of the blocks at all
  the heights from start to end, in order (the empty list when the end lies before the start); it
  is an error exactly when some height of the range has no block.
\<close>

theorem GetRange_exact:
  assumes "hi \<noteq> - 1"
  shows "\<exists>r. file_GetRange s lo hi = Some r \<and>
    (\<forall>bs. r = Inr bs \<longleftrightarrow> map Some bs = map (file_GetBlockByHeight s) (slots_between lo hi))"
  using range_walk_run [OF assms, of s lo "[]"] by (auto simp: file_GetRange_def)

theorem GetRange_exact_witness:
  "file_GetRange (memory_of [stored_block CHR ''g'' 0] empty_disk) 0 0 = Some (Inr [stored_block CHR ''g'' 0])"
proof -
  let ?s = "memory_of [stored_block CHR ''g'' 0] empty_disk"
  have at: "file_GetBlockByHeight ?s 0 = Some (stored_block CHR ''g'' 0)"
    by (simp add: file_GetBlockByHeight_def stored_block_def zero_block_def)
  have slots: "slots_between 0 (0 :: u64) = [0]" by (simp add: slots_between_Cons)
  have "(0 :: u64) \<noteq> - 1" by simp
  from GetRange_exact [OF this, of ?s 0, unfolded slots list.map at] obtain r where r: "file_GetRange ?s 0 0 = Some r"
    "\<forall>bs. r = Inr bs \<longleftrightarrow> map Some bs = [Some (stored_block CHR ''g'' 0)]"
    by blast
  from r(2) [THEN spec, of "[stored_block CHR ''g'' 0]"] have "r = Inr [stored_block CHR ''g'' 0]" by simp
  with r(1) show ?thesis by simp
qed

lemma chain_range:
  assumes "\<forall>i<length bs. file_GetBlockByHeight s (word_of_nat i) = Some (bs ! i)"
    and "map b_Index bs = map word_of_nat [0..<length bs]" "length bs < 2 ^ 64" "bs \<noteq> []"
  shows "file_GetRange s 0 (b_Index (last bs)) = Some (Inr bs)"
proof -
  let ?n = "length bs - 1"
  have "b_Index (last bs) = map b_Index bs ! ?n" using assms(4) by (simp add: last_conv_nth)
  also have "\<dots> = word_of_nat ?n" unfolding assms(2) using assms(4) by simp
  finally have idx: "b_Index (last bs) = word_of_nat ?n" .
  then have n: "unat (b_Index (last bs)) = ?n" using assms(3) by (simp add: unat_of_nat)
  have top: "b_Index (last bs) \<noteq> - 1"
  proof
    assume "b_Index (last bs) = - 1"
    then have "?n = 2 ^ 64 - 1" using n by (simp add: unsigned_minus_1_eq_mask mask_eq_exp_minus_1)
    with assms(3) show False by simp
  qed
  have "Suc (unat (b_Index (last bs))) = length bs" using n assms(4) by simp
  then have slots: "slots_between 0 (b_Index (last bs)) = map word_of_nat [0..<length bs]"
    by (simp add: slots_between_def del: upt_Suc)
  have "map (file_GetBlockByHeight s) (slots_between 0 (b_Index (last bs))) = map (\<lambda>i. Some (bs ! i)) [0..<length bs]"
    unfolding slots map_map by (rule map_cong) (use assms(1) in auto)
  also have "\<dots> = map Some (map ((!) bs) [0..<length bs])" by simp
  finally have "map Some bs = map (file_GetBlockByHeight s) (slots_between 0 (b_Index (last bs)))" by (simp add: map_nth)
  with range_walk_run [OF top, of s 0 "[]"] show ?thesis by (auto simp: file_GetRange_def)
qed

text \<open>
  A chain whose blocks were saved from the root on is read back, by the client's lemma on the interface:
  once for a run of \<open>SaveBlock\<close>, once for the contents of the memory alone.
\<close>

lemma stored_chain_range:
  assumes "file_inv s" "file_GetTip s = None" "\<And>h. file_GetBlockByHash s h = None"
    and "map b_Index bs = map word_of_nat [0..<length bs]" "length bs < 2 ^ 64" "bs \<noteq> []"
    and "distinct (map b_Hash bs)" "[] \<notin> b_Hash ` set bs" "save_all (file_SaveBlock J) s bs = (s', None)"
  shows "file_GetTip s' = Some (last bs) \<and> file_GetRange s' 0 (b_Index (last bs)) = Some (Inr bs)"
  using file_store.save_chain [OF assms(1-5,7-9)] chain_range [OF _ assms(4-6)] assms(6) by auto

interpretation file_memory: block_store file_inv "\<lambda>s b. (remember b s, None)" file_GetBlockByHash file_GetBlockByHeight file_GetTip
proof
  fix s s' :: FileBlockStore and b h i
  assume inv: "file_inv s" and st: "storable file_GetBlockByHash s b" and "(remember b s, None) = (s', None :: failure)"
  then have s': "s' = remember b s" by simp
  show "file_inv s'" "file_GetTip s' = (case file_GetTip s of None \<Rightarrow> Some b | Some t \<Rightarrow> if b_Index t \<le> b_Index b then Some b else Some t)"
    unfolding s' by (rule file_inv_remember [OF inv st])+
  show "file_GetBlockByHash s' h = (if h = b_Hash b then Some b else file_GetBlockByHash s h)"
    by (simp add: s' file_GetBlockByHash_def)
  show "file_GetBlockByHeight s' i = (if i = b_Index b then Some b else file_GetBlockByHeight s i)"
    unfolding s' by (rule remember_height [OF inv st])
qed

lemma save_all_remember: "save_all (\<lambda>s b. (remember b s, None)) s bs = (fold remember bs s, None)"
  by (induction bs arbitrary: s) simp_all

lemma file_ok_chain:
  assumes "file_ok J bs s"
    and "map b_Index bs = map word_of_nat [0..<length bs]" "length bs < 2 ^ 64" "bs \<noteq> []"
    and "distinct (map b_Hash bs)" "[] \<notin> b_Hash ` set bs"
  shows "file_GetTip s = Some (last bs) \<and> file_GetRange s 0 (b_Index (last bs)) = Some (Inr bs)"
proof -
  let ?e = "memory_of [] (fs_disk s)"
  have empty: "file_inv ?e" "file_GetTip ?e = None" "file_GetBlockByHash ?e h = None" for h
    by (simp_all add: memory_of_def file_inv_def file_GetTip_def file_GetBlockByHash_def)
  have "s = memory_of bs (fs_disk s)" using assms(1) by (simp add: file_ok_def)
  then have "save_all (\<lambda>s b. (remember b s, None)) ?e bs = (s, None)"
    unfolding save_all_remember by (simp add: memory_of_def)
  from file_memory.save_chain [OF empty assms(2,3,5,6) this] chain_range [OF _ assms(2-4)] assms(4)
  show ?thesis by auto
qed

section \<open>The store in memory\<close>

record MemoryBlockStore =
  ms_blocks :: "(string, Block) fmap"

definition NewMemoryBlockStore :: MemoryBlockStore where
  "NewMemoryBlockStore = \<lparr>ms_blocks = fmempty\<rparr>"

definition memory_Get :: "MemoryBlockStore \<Rightarrow> string \<Rightarrow> Block option" where
  "memory_Get s hash = fmlookup (ms_blocks s) hash"

definition memory_Put :: "MemoryBlockStore \<Rightarrow> Block \<Rightarrow> MemoryBlockStore" where
  "memory_Put s block = s\<lparr>ms_blocks := fmupd (b_Hash block) block (ms_blocks s)\<rparr>"

interpretation memory_store: hash_store memory_Put memory_Get
  by unfold_locales (simp add: memory_Put_def memory_Get_def)

interpretation file_cache: hash_store "\<lambda>s b. remember b s" file_GetBlockByHash
  by unfold_locales (simp add: file_GetBlockByHash_def)

end
