(* ===== verification/Snapshots.thy ===== *)
theory Snapshots
  imports Storage
begin
text \<open>
  \<open>adapters/storage_file.go\<close>, the snapshot store: one file per epoch, written beside its name and
  renamed.  The disk of this theory is the directory \<open>snapshots\<close>.  \<open>scan_epoch\<close> is \<open>fmt.Sscanf\<close> with the
  format \<open>epoch_%d.json\<close>: it skips blanks before the number and accepts a name as soon as the format is
  used up.
\<close>

section \<open>The store\<close>

record FileSnapshotStore =
  sn_disk :: disk

definition NewFileSnapshotStore :: "string \<Rightarrow> disk \<Rightarrow> disk \<times> FileSnapshotStore result" where
  "NewFileSnapshotStore dir d =
    (if dir = [] then (d, Inl (ErrNew ''data dir required''))
     else case MkdirAll d of
       (d, Some e) \<Rightarrow> (d, Inl e)
     | (d, None) \<Rightarrow> (d, Inr \<lparr>sn_disk = d\<rparr>))"

definition epoch_file :: "u64 \<Rightarrow> string" where
  "epoch_file epoch = ''epoch_'' @ FormatUint epoch @ ''.json''"

definition file_SaveEpochSnapshot :: "jsonlib \<Rightarrow> FileSnapshotStore \<Rightarrow> u64 \<Rightarrow> string \<Rightarrow> stakes \<Rightarrow> FileSnapshotStore \<times> failure" where
  "file_SaveEpochSnapshot J s epoch stateRoot validatorSet =
    (let path = epoch_file epoch in
     case MarshalSnapshot J \<lparr>sf_Epoch = epoch, sf_StateRoot = stateRoot, sf_ValidatorSet = validatorSet\<rparr> of
       Inl e \<Rightarrow> (s, Some e)
     | Inr bs \<Rightarrow>
       (let tmp = path @ ''.tmp'' in
        case WriteFile tmp bs (sn_disk s) of
          (d, Some e) \<Rightarrow> (s\<lparr>sn_disk := d\<rparr>, Some e)
        | (d, None) \<Rightarrow> (case Rename tmp path d of (d, err) \<Rightarrow> (s\<lparr>sn_disk := d\<rparr>, err))))"

definition is_blank :: "char \<Rightarrow> bool" where
  "is_blank c \<longleftrightarrow> (of_char c :: nat) \<in> {9, 11, 12, 13, 32}"

definition is_digit :: "char \<Rightarrow> bool" where
  "is_digit c \<longleftrightarrow> 48 \<le> (of_char c :: nat) \<and> of_char c \<le> (57 :: nat)"

definition scan_epoch :: "string \<Rightarrow> u64 option" where
  "scan_epoch name =
    (if take 6 name \<noteq> ''epoch_'' then None
     else let rest = dropWhile is_blank (drop 6 name);
              digits = takeWhile is_digit rest
       in if digits = [] \<or> 2 ^ 64 \<le> undec digits \<or> take 5 (dropWhile is_digit rest) \<noteq> ''.json'' then None
          else Some (word_of_nat (undec digits)))"

definition ReadDir :: "disk \<Rightarrow> disk \<times> string list result option" where
  \<comment> \<open>\<open>None\<close> when the directory does not exist\<close>
  "ReadDir d = (case os_step d of
      (Done, d) \<Rightarrow> (d, if dk_exists d then Some (Inr (keys_of (dk_files d))) else None)
    | (_, d) \<Rightarrow> (d, Some (Inl (ErrIO ''readdir''))))"

definition loadSnapshotFile :: "jsonlib \<Rightarrow> string \<Rightarrow> FileSnapshotStore \<Rightarrow> FileSnapshotStore \<times> snapshotFile result" where
  "loadSnapshotFile J path s =
    (case ReadFile path (sn_disk s) of
      (d, NotExist) \<Rightarrow> (s\<lparr>sn_disk := d\<rparr>, Inl (ErrIO ''open''))
    | (d, ReadError e) \<Rightarrow> (s\<lparr>sn_disk := d\<rparr>, Inl e)
    | (d, Contents bs) \<Rightarrow> (s\<lparr>sn_disk := d\<rparr>, UnmarshalSnapshot J bs))"

definition later_entry :: "string \<Rightarrow> u64 \<times> string \<Rightarrow> u64 \<times> string" where
  \<comment> \<open>the body of the loop over the directory's entries\<close>
  "later_entry name latest =
    (case scan_epoch name of
      None \<Rightarrow> latest
    | Some ep \<Rightarrow> if fst latest \<le> ep then (ep, name) else latest)"

definition file_LoadLatestSnapshot :: "jsonlib \<Rightarrow> FileSnapshotStore \<Rightarrow> FileSnapshotStore \<times> (u64 \<times> string \<times> stakes) option result" where
  "file_LoadLatestSnapshot J s =
    (case ReadDir (sn_disk s) of
      (d, None) \<Rightarrow> (s\<lparr>sn_disk := d\<rparr>, Inr None)
    | (d, Some (Inl e)) \<Rightarrow> (s\<lparr>sn_disk := d\<rparr>, Inl e)
    | (d, Some (Inr entries)) \<Rightarrow>
      (let s = s\<lparr>sn_disk := d\<rparr>; (latestEpoch, latestPath) = fold later_entry entries (0, []) in
       if latestPath = [] then (s, Inr None)
       else case loadSnapshotFile J latestPath s of
         (s, Inl e) \<Rightarrow> (s, Inl e)
       | (s, Inr sf) \<Rightarrow> (s, Inr (Some (sf_Epoch sf, sf_StateRoot sf, sf_ValidatorSet sf)))))"

definition file_LoadSnapshotByEpoch :: "jsonlib \<Rightarrow> FileSnapshotStore \<Rightarrow> u64 \<Rightarrow> FileSnapshotStore \<times> (string \<times> stakes) option result" where
  "file_LoadSnapshotByEpoch J s epoch =
    (let path = epoch_file epoch in
     case os_step (sn_disk s) of
       (Done, d) \<Rightarrow>
         (let s = s\<lparr>sn_disk := d\<rparr> in
          if fmlookup (dk_files d) path = None then (s, Inr None)
          else case loadSnapshotFile J path s of
            (s, Inl e) \<Rightarrow> (s, Inl e)
          | (s, Inr sf) \<Rightarrow> (s, Inr (Some (sf_StateRoot sf, sf_ValidatorSet sf))))
     | (_, d) \<Rightarrow> (s\<lparr>sn_disk := d\<rparr>, Inl (ErrIO ''stat'')))"

section \<open>File names\<close>

lemma dec_is_digit: "c \<in> set (dec n) \<Longrightarrow> is_digit c"
  using dec_digits by (simp add: is_digit_def)

lemma takeWhile_dec: "takeWhile is_digit (dec n @ CHR ''.'' # xs) = dec n"
    "dropWhile is_digit (dec n @ CHR ''.'' # xs) = CHR ''.'' # xs"
  using dec_is_digit by (auto simp: takeWhile_append2 dropWhile_append2 is_digit_def)

lemma skip_dec: "dropWhile is_blank (dec n @ xs) = dec n @ xs"
proof -
  have "hd (dec n) \<in> set (dec n)" by simp
  then have "is_digit (hd (dec n))" by (rule dec_is_digit)
  then have "\<not> is_blank (hd (dec n))" by (auto simp: is_digit_def is_blank_def)
  then show ?thesis by (cases "dec n") auto
qed

lemma scan_epoch_file [simp]: "scan_epoch (epoch_file e @ xs) = Some e" "scan_epoch (epoch_file e) = Some e"
proof -
  have "undec (dec (unat e)) < 2 ^ 64" using unat_bound64 [of e] by simp
  then show *: "scan_epoch (epoch_file e @ xs) = Some e" for xs
    by (simp add: scan_epoch_def epoch_file_def FormatUint_def skip_dec takeWhile_dec Let_def word_of_unat)
  from * [of "[]"] show "scan_epoch (epoch_file e) = Some e" by simp
qed

lemma epoch_file_inject [simp]: "epoch_file a = epoch_file b \<longleftrightarrow> a = b"
  by (metis option.inject scan_epoch_file(2))

lemma epoch_tmp [simp]: "epoch_file a @ ''.tmp'' \<noteq> epoch_file b" "epoch_file b \<noteq> epoch_file a @ ''.tmp''"
proof -
  show "epoch_file a @ ''.tmp'' \<noteq> epoch_file b"
  proof
    assume eq: "epoch_file a @ ''.tmp'' = epoch_file b"
    then have "Some a = Some b" by (metis scan_epoch_file)
    with eq show False by simp
  qed
  then show "epoch_file b \<noteq> epoch_file a @ ''.tmp''" by metis
qed

lemma epoch_file_nonempty [simp]: "epoch_file e \<noteq> []"
  by (simp add: epoch_file_def)

section \<open>The latest entry\<close>

lemma later_fold:
  assumes "fold later_entry names (e0, p0) = (e, p)"
  shows "e0 \<le> e \<and> (\<forall>n\<in>set names. \<forall>x. scan_epoch n = Some x \<longrightarrow> x \<le> e) \<and>
    ((e, p) = (e0, p0) \<and> (\<forall>n\<in>set names. \<forall>x. scan_epoch n = Some x \<longrightarrow> x < e0) \<or>
     (\<exists>before after. names = before @ p # after \<and> scan_epoch p = Some e \<and>
       (\<forall>n\<in>set after. \<forall>x. scan_epoch n = Some x \<longrightarrow> x < e)))"
  using assms
proof (induction names arbitrary: e p rule: rev_induct)
  case (snoc n names)
  obtain e1 p1 where r: "fold later_entry names (e0, p0) = (e1, p1)" by fastforce
  note IH = snoc.IH [OF r]
  have step: "later_entry n (e1, p1) = (e, p)" using snoc.prems r by simp
  show ?case
  proof (cases "\<exists>x. scan_epoch n = Some x \<and> e1 \<le> x")
    case True
    then obtain x where x: "scan_epoch n = Some x" "e1 \<le> x" by blast
    then have "e = x" "p = n" using step by (simp_all add: later_entry_def)
    moreover have "\<forall>m\<in>set (names @ [n]). \<forall>y. scan_epoch m = Some y \<longrightarrow> y \<le> x" using IH x by fastforce
    moreover have "e0 \<le> x" using IH x(2) by (meson order_trans)
    moreover have "names @ [n] = names @ n # []" "\<forall>m\<in>set []. \<forall>y. scan_epoch m = Some y \<longrightarrow> y < x" by simp_all
    ultimately show ?thesis using x(1) by blast
  next
    case False
    then have ep: "e = e1" "p = p1" using step by (auto simp: later_entry_def split: option.splits if_splits)
    have small: "y < e1" if "scan_epoch n = Some y" for y using False that by auto
    have le: "\<forall>m\<in>set (names @ [n]). \<forall>y. scan_epoch m = Some y \<longrightarrow> y \<le> e1" using IH small by fastforce
    from IH have "(e1, p1) = (e0, p0) \<and> (\<forall>m\<in>set names. \<forall>x. scan_epoch m = Some x \<longrightarrow> x < e0) \<or>
      (\<exists>before after. names = before @ p1 # after \<and> scan_epoch p1 = Some e1 \<and>
       (\<forall>m\<in>set after. \<forall>x. scan_epoch m = Some x \<longrightarrow> x < e1))" by blast
    then have "(e1, p1) = (e0, p0) \<and> (\<forall>m\<in>set (names @ [n]). \<forall>x. scan_epoch m = Some x \<longrightarrow> x < e0) \<or>
      (\<exists>before after. names @ [n] = before @ p1 # after \<and> scan_epoch p1 = Some e1 \<and>
       (\<forall>m\<in>set after. \<forall>x. scan_epoch m = Some x \<longrightarrow> x < e1))"
    proof
      assume "(e1, p1) = (e0, p0) \<and> (\<forall>m\<in>set names. \<forall>x. scan_epoch m = Some x \<longrightarrow> x < e0)"
      then show ?thesis using small by auto
    next
      assume "\<exists>before after. names = before @ p1 # after \<and> scan_epoch p1 = Some e1 \<and>
        (\<forall>m\<in>set after. \<forall>x. scan_epoch m = Some x \<longrightarrow> x < e1)"
      then obtain before after where s: "names = before @ p1 # after" "scan_epoch p1 = Some e1"
        "\<forall>m\<in>set after. \<forall>x. scan_epoch m = Some x \<longrightarrow> x < e1" by blast
      then show ?thesis using small by (intro disjI2 exI [of _ before] exI [of _ "after @ [n]"]) auto
    qed
    with le IH ep show ?thesis by blast
  qed
qed simp

section \<open>The store as a map from epochs\<close>

definition snapshots_are :: "jsonlib \<Rightarrow> (u64, snapshotFile) fmap \<Rightarrow> FileSnapshotStore \<Rightarrow> bool" where
  "snapshots_are J m s \<longleftrightarrow> dk_exists (sn_disk s) \<and> dk_script (sn_disk s) = [] \<and>
     (\<forall>e. case fmlookup m e of None \<Rightarrow> fmlookup (dk_files (sn_disk s)) (epoch_file e) = None
      | Some sf \<Rightarrow> sf_Epoch sf = e \<and> (\<exists>bs. fmlookup (dk_files (sn_disk s)) (epoch_file e) = Some bs \<and> UnmarshalSnapshot J bs = Inr sf)) \<and>
     (\<forall>n x. n |\<in>| fmdom (dk_files (sn_disk s)) \<longrightarrow> scan_epoch n = Some x \<longrightarrow> n = epoch_file x)"

definition snapshot_at :: "(u64, snapshotFile) fmap \<Rightarrow> u64 \<Rightarrow> (string \<times> stakes) option" where
  "snapshot_at m e = map_option (\<lambda>sf. (sf_StateRoot sf, sf_ValidatorSet sf)) (fmlookup m e)"

definition newest_snapshot :: "(u64, snapshotFile) fmap \<Rightarrow> (u64 \<times> string \<times> stakes) option" where
  "newest_snapshot m = (if m = fmempty then None
     else let e = Max (fset (fmdom m)) in map_option (\<lambda>(root, vs). (e, root, vs)) (snapshot_at m e))"

lemma snapshots_areD:
  assumes "snapshots_are J m s"
  shows "dk_exists (sn_disk s)" "dk_script (sn_disk s) = []"
    "fmlookup m e = None \<Longrightarrow> fmlookup (dk_files (sn_disk s)) (epoch_file e) = None"
    "fmlookup m e = Some sf \<Longrightarrow> sf_Epoch sf = e \<and> (\<exists>bs. fmlookup (dk_files (sn_disk s)) (epoch_file e) = Some bs \<and> UnmarshalSnapshot J bs = Inr sf)"
    "n |\<in>| fmdom (dk_files (sn_disk s)) \<Longrightarrow> scan_epoch n = Some x \<Longrightarrow> n = epoch_file x"
proof -
  note d = assms [unfolded snapshots_are_def]
  from d show "dk_exists (sn_disk s)" "dk_script (sn_disk s) = []"
    "n |\<in>| fmdom (dk_files (sn_disk s)) \<Longrightarrow> scan_epoch n = Some x \<Longrightarrow> n = epoch_file x" by blast+
  from d have "case fmlookup m e of None \<Rightarrow> fmlookup (dk_files (sn_disk s)) (epoch_file e) = None
      | Some sf \<Rightarrow> sf_Epoch sf = e \<and> (\<exists>bs. fmlookup (dk_files (sn_disk s)) (epoch_file e) = Some bs \<and> UnmarshalSnapshot J bs = Inr sf)"
    by blast
  then show "fmlookup m e = None \<Longrightarrow> fmlookup (dk_files (sn_disk s)) (epoch_file e) = None"
    "fmlookup m e = Some sf \<Longrightarrow> sf_Epoch sf = e \<and> (\<exists>bs. fmlookup (dk_files (sn_disk s)) (epoch_file e) = Some bs \<and> UnmarshalSnapshot J bs = Inr sf)"
    by simp_all
qed

lemma save_snapshot_ok:
  assumes "snapshots_are J m s" "json_snapshot J \<lparr>sf_Epoch = e, sf_StateRoot = root, sf_ValidatorSet = vs\<rparr>"
  shows "\<exists>s'. file_SaveEpochSnapshot J s e root vs = (s', None) \<and>
    snapshots_are J (fmupd e \<lparr>sf_Epoch = e, sf_StateRoot = root, sf_ValidatorSet = vs\<rparr> m) s'"
proof -
  let ?sf = "\<lparr>sf_Epoch = e, sf_StateRoot = root, sf_ValidatorSet = vs\<rparr>" and ?p = "epoch_file e" and ?F = "dk_files (sn_disk s)"
  note D = snapshots_areD [OF assms(1)]
  from assms(2) obtain bs where bs: "MarshalSnapshot J ?sf = Inr bs" "UnmarshalSnapshot J bs = Inr ?sf"
    by (auto simp: json_snapshot_def)
  let ?G = "fmupd ?p bs (fmdrop (?p @ ''.tmp'') (fmupd (?p @ ''.tmp'') bs ?F))"
  let ?s = "s\<lparr>sn_disk := (sn_disk s)\<lparr>dk_files := ?G\<rparr>\<rparr>"
  have run: "file_SaveEpochSnapshot J s e root vs = (?s, None)"
    using bs(1) D(1,2) by (simp add: file_SaveEpochSnapshot_def os_defs Let_def)
  have look: "fmlookup ?G n = (if n = ?p then Some bs else if n = ?p @ ''.tmp'' then None else fmlookup ?F n)" for n
    by simp
  have at: "case fmlookup (fmupd e ?sf m) x of None \<Rightarrow> fmlookup ?G (epoch_file x) = None
      | Some sf \<Rightarrow> sf_Epoch sf = x \<and> (\<exists>bs. fmlookup ?G (epoch_file x) = Some bs \<and> UnmarshalSnapshot J bs = Inr sf)" for x
    using bs(2) D(3,4) [of x] by (cases "x = e") (auto simp: look split: option.split)
  have names: "n = epoch_file x" if "n |\<in>| fmdom ?G" "scan_epoch n = Some x" for n x
  proof (cases "n = ?p")
    case True
    with that(2) show ?thesis by simp
  next
    case False
    from that(1) have "fmlookup ?G n \<noteq> None" by (meson fmdom_notI)
    with False have "fmlookup ?F n \<noteq> None" by (simp only: look) (simp split: if_splits)
    then have "n |\<in>| fmdom ?F" by (meson fmdom_notD)
    then show ?thesis using D(5) that(2) by blast
  qed
  have disk: "dk_files (sn_disk ?s) = ?G" "dk_exists (sn_disk ?s)" "dk_script (sn_disk ?s) = []" using D(1,2) by simp_all
  have "snapshots_are J (fmupd e ?sf m) ?s"
    unfolding snapshots_are_def disk(1) using disk(2,3) at names by blast
  with run show ?thesis by blast
qed

lemma load_snapshot_ok:
  assumes "snapshots_are J m s"
  shows "file_LoadSnapshotByEpoch J s e = (s, Inr (snapshot_at m e))"
proof (cases "fmlookup m e")
  case None
  with snapshots_areD(2,3) [OF assms] have "dk_script (sn_disk s) = []" "fmlookup (dk_files (sn_disk s)) (epoch_file e) = None"
    by blast+
  with None show ?thesis by (simp add: file_LoadSnapshotByEpoch_def os_defs Let_def snapshot_at_def)
next
  case (Some sf)
  with snapshots_areD(4) [OF assms] obtain bs where bs: "fmlookup (dk_files (sn_disk s)) (epoch_file e) = Some bs"
    "UnmarshalSnapshot J bs = Inr sf" by blast
  with Some snapshots_areD(2) [OF assms] show ?thesis
    by (simp add: file_LoadSnapshotByEpoch_def loadSnapshotFile_def os_defs Let_def snapshot_at_def)
qed

lemma newest_name:
  assumes "snapshots_are J m s" "fold later_entry (keys_of (dk_files (sn_disk s))) (0, []) = (e, p)"
  shows "if m = fmempty then p = [] else e = Max (fset (fmdom m)) \<and> p = epoch_file e \<and> e |\<in>| fmdom m"
proof -
  note D = snapshots_areD [OF assms(1)]
  let ?F = "dk_files (sn_disk s)"
  have present: "epoch_file x |\<in>| fmdom ?F" if "x |\<in>| fmdom m" for x
    using that D(4) [of x] by (auto simp: fmlookup_dom_iff)
  have dom: "x |\<in>| fmdom m" if "epoch_file x |\<in>| fmdom ?F" for x
    using that D(3) [of x] by (auto simp: fmlookup_dom_iff) (metis not_None_eq option.distinct(1))
  note L = later_fold [OF assms(2)]
  have top: "x \<le> e" if "x |\<in>| fmdom m" for x using L present [OF that] by auto
  from L show ?thesis
  proof (elim conjE disjE)
    assume "(e, p) = (0, [])" "\<forall>n\<in>set (keys_of ?F). \<forall>x. scan_epoch n = Some x \<longrightarrow> x < 0"
    then have "x |\<notin>| fmdom m" for x using present [of x] scan_epoch_file(2) [of x] by fastforce
    then have "m = fmempty" by (metis fmdom_notI fmempty_lookup fmap_ext fmdomE fmdom_notD)
    with \<open>(e, p) = (0, [])\<close> show ?thesis by simp
  next
    assume "\<exists>before after. keys_of ?F = before @ p # after \<and> scan_epoch p = Some e \<and>
       (\<forall>n\<in>set after. \<forall>x. scan_epoch n = Some x \<longrightarrow> x < e)"
    then obtain before after where k: "keys_of ?F = before @ p # after" and scan: "scan_epoch p = Some e" by blast
    have "p \<in> set (keys_of ?F)" unfolding k by simp
    then have p: "p |\<in>| fmdom ?F" by simp
    with D(5) scan have pe: "p = epoch_file e" by blast
    with p dom have e: "e |\<in>| fmdom m" by blast
    then have "Max (fset (fmdom m)) = e" using top by (intro Max_eqI) auto
    with pe e show ?thesis by auto
  qed
qed

lemma load_latest_ok:
  assumes "snapshots_are J m s"
  shows "file_LoadLatestSnapshot J s = (s, Inr (newest_snapshot m))"
proof -
  note D = snapshots_areD [OF assms]
  obtain e p where f: "fold later_entry (keys_of (dk_files (sn_disk s))) (0, []) = (e, p)" by fastforce
  note N = newest_name [OF assms f]
  show ?thesis
  proof (cases "m = fmempty")
    case True
    with N f D(1,2) show ?thesis by (simp add: file_LoadLatestSnapshot_def ReadDir_def os_defs newest_snapshot_def)
  next
    case False
    with N have e: "e = Max (fset (fmdom m))" "p = epoch_file e" "e |\<in>| fmdom m" by auto
    then obtain sf where sf: "fmlookup m e = Some sf" by (auto simp: fmlookup_dom_iff)
    with D(4) obtain bs where bs: "sf_Epoch sf = e" "fmlookup (dk_files (sn_disk s)) (epoch_file e) = Some bs"
      "UnmarshalSnapshot J bs = Inr sf" by blast
    have "newest_snapshot m = Some (e, sf_StateRoot sf, sf_ValidatorSet sf)"
      using False sf by (simp add: newest_snapshot_def snapshot_at_def flip: e(1))
    then show ?thesis using f D(1,2) bs e(2)
      by (simp add: file_LoadLatestSnapshot_def ReadDir_def loadSnapshotFile_def os_defs)
  qed
qed

section \<open>The interface\<close>

text \<open>
  What a chain relies on: a snapshot store is a map from epochs to snapshots.  A client that saves the
  epochs in rising order gets the one it saved last from \<open>LoadLatestSnapshot\<close>.
\<close>

locale snapshot_store =
  fixes holds :: "(u64, snapshotFile) fmap \<Rightarrow> 's \<Rightarrow> bool" and fits :: "snapshotFile \<Rightarrow> bool"
    and save :: "'s \<Rightarrow> u64 \<Rightarrow> string \<Rightarrow> stakes \<Rightarrow> 's \<times> failure"
    and by_epoch :: "'s \<Rightarrow> u64 \<Rightarrow> 's \<times> (string \<times> stakes) option result"
    and newest :: "'s \<Rightarrow> 's \<times> (u64 \<times> string \<times> stakes) option result"
  assumes save_law: "\<lbrakk>holds m s; fits \<lparr>sf_Epoch = e, sf_StateRoot = root, sf_ValidatorSet = vs\<rparr>\<rbrakk> \<Longrightarrow>
      \<exists>s'. save s e root vs = (s', None) \<and> holds (fmupd e \<lparr>sf_Epoch = e, sf_StateRoot = root, sf_ValidatorSet = vs\<rparr> m) s'"
    and epoch_law: "holds m s \<Longrightarrow> by_epoch s e = (s, Inr (snapshot_at m e))"
    and newest_law: "holds m s \<Longrightarrow> newest s = (s, Inr (newest_snapshot m))"
begin

lemma save_newest:
  assumes "holds m s" "fits \<lparr>sf_Epoch = e, sf_StateRoot = root, sf_ValidatorSet = vs\<rparr>" "\<forall>x\<in>fset (fmdom m). x \<le> e"
  shows "\<exists>s'. save s e root vs = (s', None) \<and> newest s' = (s', Inr (Some (e, root, vs)))"
proof -
  let ?m = "fmupd e \<lparr>sf_Epoch = e, sf_StateRoot = root, sf_ValidatorSet = vs\<rparr> m"
  obtain s' where s': "save s e root vs = (s', None)" "holds ?m s'" using save_law [OF assms(1,2)] by blast
  have "Max (fset (fmdom ?m)) = e" by (rule Max_eqI) (use assms(3) in auto)
  moreover have "?m \<noteq> fmempty" by (metis fmempty_lookup fmupd_lookup option.distinct(1))
  ultimately have "newest_snapshot ?m = Some (e, root, vs)" by (simp add: newest_snapshot_def snapshot_at_def)
  with s' newest_law [OF s'(2)] show ?thesis by metis
qed

end

interpretation file_snapshots: snapshot_store "snapshots_are J" "json_snapshot J" "file_SaveEpochSnapshot J"
  "file_LoadSnapshotByEpoch J" "file_LoadLatestSnapshot J" for J
  by unfold_locales (rule save_snapshot_ok load_snapshot_ok load_latest_ok; assumption)+

text \<open>
  C17: the snapshot directory refines a finite map from epochs to snapshots.  While the operating system
  refuses nothing, \<open>SaveEpochSnapshot\<close> updates the map at its epoch, \<open>LoadSnapshotByEpoch\<close> looks an
  epoch up, and \<open>LoadLatestSnapshot\<close> finds the entry of the greatest epoch by reading the file names.
\<close>

theorem snapshots_refine_map:
  assumes "snapshots_are J m s" "json_snapshot J \<lparr>sf_Epoch = e, sf_StateRoot = root, sf_ValidatorSet = vs\<rparr>"
    and "m' = fmupd e \<lparr>sf_Epoch = e, sf_StateRoot = root, sf_ValidatorSet = vs\<rparr> m"
  shows "\<exists>s'. file_SaveEpochSnapshot J s e root vs = (s', None) \<and> snapshots_are J m' s' \<and>
    file_LoadSnapshotByEpoch J s' x = (s', Inr (snapshot_at m' x)) \<and>
    file_LoadLatestSnapshot J s' = (s', Inr (newest_snapshot m'))"
proof -
  from file_snapshots.save_law [OF assms(1,2)] obtain s' where s': "file_SaveEpochSnapshot J s e root vs = (s', None)"
    "snapshots_are J m' s'" unfolding assms(3) by blast
  show ?thesis by (intro exI [of _ s'] conjI s' file_snapshots.epoch_law file_snapshots.newest_law)
qed

lemma new_snapshots: "dk_script d = [] \<Longrightarrow> fmdom (dk_files d) = {||} \<Longrightarrow> dir \<noteq> [] \<Longrightarrow>
    \<exists>s. NewFileSnapshotStore dir d = (d\<lparr>dk_exists := True\<rparr>, Inr s) \<and> snapshots_are J fmempty s"
  by (intro exI [of _ "\<lparr>sn_disk = d\<lparr>dk_exists := True\<rparr>\<rparr>"])
    (simp add: NewFileSnapshotStore_def os_defs snapshots_are_def fmdom_notD)

lemma demo_snapshots: "\<exists>s. NewFileSnapshotStore ''data'' empty_disk = (empty_disk, Inr s) \<and> snapshots_are demo_json fmempty s"
  using new_snapshots [of empty_disk "''data''" demo_json] by (simp add: empty_disk_def)

lemma demo_json_snapshot: "json_snapshot demo_json \<lparr>sf_Epoch = 3, sf_StateRoot = [], sf_ValidatorSet = fmempty\<rparr>"
  by (simp add: json_snapshot_def demo_json_def)

theorem snapshots_refine_map_witness:
  "\<exists>s s'. NewFileSnapshotStore ''data'' empty_disk = (empty_disk, Inr s) \<and>
    file_SaveEpochSnapshot demo_json s 3 [] fmempty = (s', None) \<and>
    file_LoadSnapshotByEpoch demo_json s' 3 = (s', Inr (Some ([], fmempty))) \<and>
    file_LoadLatestSnapshot demo_json s' = (s', Inr (Some (3, [], fmempty)))"
proof -
  obtain s where s: "NewFileSnapshotStore ''data'' empty_disk = (empty_disk, Inr s)" "snapshots_are demo_json fmempty s"
    using demo_snapshots by blast
  from snapshots_refine_map [OF s(2) demo_json_snapshot refl, of 3] s(1) show ?thesis
    by (auto simp: snapshot_at_def newest_snapshot_def Let_def)
qed

section \<open>A torn snapshot\<close>

lemma le_append: "xs \<le> xs @ (ys :: 'a :: linorder list)"
  by (induction xs) simp_all

lemma tmp_shadows:
  assumes "snapshots_are J m s" "\<forall>x\<in>fset (fmdom m). x \<le> e"
  shows "snd (fold later_entry (keys_of (fmupd (epoch_file e @ ''.tmp'') bs (dk_files (sn_disk s)))) (0, [])) =
    epoch_file e @ ''.tmp''"
proof -
  let ?F = "dk_files (sn_disk s)" and ?t = "epoch_file e @ ''.tmp''"
  let ?names = "keys_of (fmupd ?t bs ?F)"
  note D = snapshots_areD [OF assms(1)]
  obtain e' q where f: "fold later_entry ?names (0, []) = (e', q)" by fastforce
  note L = later_fold [OF f]
  have t: "?t \<in> set ?names" by (simp del: keys_of_upd)
  with L have le: "e \<le> e'" using scan_epoch_file(1) by blast
  from L t obtain before after where k: "?names = before @ q # after" and scan: "scan_epoch q = Some e'"
    and late: "\<forall>n\<in>set after. \<forall>x. scan_epoch n = Some x \<longrightarrow> x < e'"
    using scan_epoch_file(1) [of e "''.tmp''"] by fastforce
  have "q = ?t"
  proof (rule ccontr)
    assume q: "q \<noteq> ?t"
    have "q \<in> set ?names" unfolding k by simp
    with q have "q |\<in>| fmdom ?F" by (simp del: keys_of_upd)
    with D(5) scan have qe: "q = epoch_file e'" by blast
    have "fmlookup m e' \<noteq> None" using \<open>q |\<in>| fmdom ?F\<close> D(3) [of e'] unfolding qe by (meson fmdom_notI)
    then have "e' \<in> fset (fmdom m)" by (meson fmdom_notD)
    with assms(2) le have "e' = e" by auto
    with late have "?t \<notin> set after" using scan_epoch_file(1) by fastforce
    with t q have "?t \<in> set before" unfolding k by auto
    moreover have "sorted (before @ q # after)" using sorted_keys_of [of "fmupd ?t bs ?F"] unfolding k .
    ultimately have "?t \<le> q" by (simp add: sorted_append)
    with le_append [of q "''.tmp''"] q show False unfolding qe \<open>e' = e\<close> by (metis order.antisym)
  qed
  then show ?thesis by (simp only: f snd_conv)
qed

text \<open>
  C18: a snapshot that is written in part.  When the write of the newest epoch's snapshot is torn, every
  epoch can still be loaded by its number as before, but \<open>LoadLatestSnapshot\<close> takes the temporary
  file that was left behind for the newest snapshot and fails on its contents.
\<close>

theorem torn_snapshot:
  assumes "snapshots_are J m s" "\<forall>x\<in>fset (fmdom m). x \<le> e"
    and "MarshalSnapshot J \<lparr>sf_Epoch = e, sf_StateRoot = root, sf_ValidatorSet = vs\<rparr> = Inr bs"
    and "UnmarshalSnapshot J (take n bs) = Inl err"
    and "file_SaveEpochSnapshot J (s\<lparr>sn_disk := (sn_disk s)\<lparr>dk_script := [Torn n]\<rparr>\<rparr>) e root vs = (s', r)"
  shows "r \<noteq> None \<and> file_LoadSnapshotByEpoch J s' x = (s', Inr (snapshot_at m x)) \<and>
    file_LoadLatestSnapshot J s' = (s', Inl err)"
proof -
  note D = snapshots_areD [OF assms(1)]
  let ?t = "epoch_file e @ ''.tmp''" and ?F = "dk_files (sn_disk s)"
  let ?d = "(sn_disk s)\<lparr>dk_files := fmupd ?t (take n bs) ?F\<rparr>"
  have "(sn_disk s)\<lparr>dk_script := [], dk_files := fmupd ?t (take n bs) ?F\<rparr> = ?d" using D(2) by (cases "sn_disk s") simp
  then have run: "r \<noteq> None" "s' = s\<lparr>sn_disk := ?d\<rparr>"
    using assms(3,5) D(1) by (auto simp: file_SaveEpochSnapshot_def os_defs Let_def)
  have same: "s'\<lparr>sn_disk := ?d\<rparr> = s'" "sn_disk s' = ?d" "dk_script ?d = []" "dk_exists ?d" using run(2) D(1,2) by simp_all
  have files: "fmlookup (dk_files ?d) (epoch_file x) = fmlookup ?F (epoch_file x)" by simp
  have "file_LoadSnapshotByEpoch J s' x = (s', Inr (snapshot_at m x))"
  proof (cases "fmlookup m x")
    case None
    with D(3) have "fmlookup ?F (epoch_file x) = None" by blast
    with None same show ?thesis by (simp add: file_LoadSnapshotByEpoch_def os_defs Let_def snapshot_at_def)
  next
    case (Some sf)
    with D(4) obtain bs' where "fmlookup ?F (epoch_file x) = Some bs'" "UnmarshalSnapshot J bs' = Inr sf" by blast
    with Some same show ?thesis by (simp add: file_LoadSnapshotByEpoch_def loadSnapshotFile_def os_defs Let_def snapshot_at_def)
  qed
  moreover have "file_LoadLatestSnapshot J s' = (s', Inl err)"
  proof -
    obtain e' where "fold later_entry (keys_of (fmupd ?t (take n bs) ?F)) (0, []) = (e', ?t)"
      using tmp_shadows [OF assms(1,2), of "take n bs"] by (metis prod.collapse)
    then show ?thesis using same assms(4)
      by (simp add: file_LoadLatestSnapshot_def ReadDir_def loadSnapshotFile_def os_defs del: keys_of_upd)
  qed
  ultimately show ?thesis using run(1) by blast
qed

theorem torn_snapshot_witness:
  "\<exists>s s' err. NewFileSnapshotStore ''data'' empty_disk = (empty_disk, Inr s) \<and>
    file_SaveEpochSnapshot demo_json (s\<lparr>sn_disk := (sn_disk s)\<lparr>dk_script := [Torn 1]\<rparr>\<rparr>) 3 [] fmempty = (s', Some (ErrIO ''write'')) \<and>
    file_LoadLatestSnapshot demo_json s' = (s', Inl err)"
proof -
  obtain s where s: "NewFileSnapshotStore ''data'' empty_disk = (empty_disk, Inr s)" "snapshots_are demo_json fmempty s"
    using demo_snapshots by blast
  have bs: "MarshalSnapshot demo_json \<lparr>sf_Epoch = 3, sf_StateRoot = [], sf_ValidatorSet = fmempty\<rparr> = Inr [123, 51, 125]"
    "UnmarshalSnapshot demo_json (take 1 [123, 51, 125]) = Inl (ErrNew ''unexpected end of JSON input'')"
    by (simp_all add: demo_json_def)
  obtain s' r where run: "file_SaveEpochSnapshot demo_json (s\<lparr>sn_disk := (sn_disk s)\<lparr>dk_script := [Torn 1]\<rparr>\<rparr>) 3 [] fmempty = (s', r)"
    by fastforce
  have top: "\<forall>x\<in>fset (fmdom fmempty). x \<le> (3 :: u64)" by simp
  from torn_snapshot [OF s(2) top bs run, of 0] have "file_LoadLatestSnapshot demo_json s' = (s', Inl (ErrNew ''unexpected end of JSON input''))"
    by blast
  moreover from run snapshots_areD(1) [OF s(2)] bs(1) have "r = Some (ErrIO ''write'')"
    by (simp add: file_SaveEpochSnapshot_def os_defs Let_def)
  ultimately show ?thesis using s(1) run by blast
qed

end
