(* ===== verification/Recovery.thy ===== *)
theory Recovery
  imports Production Snapshots
begin

text \<open>
  \<open>core/recovery.go\<close> and \<open>app\<close>: a node with its directory.  The stores are shared between the caller and
  the chain; the model passes them to \<open>RestoreFromStorage\<close>, which returns them, and puts them into the
  chain again afterwards.  The directory of the blocks and its subdirectory of snapshots are two disks.
\<close>

section \<open>The file stores as ports\<close>

definition file_block_store :: "jsonlib \<Rightarrow> FileBlockStore \<Rightarrow> FileBlockStore BlockStore" where
  "file_block_store J s = \<lparr>bs_state = s, bs_SaveBlock = file_SaveBlock J, bs_GetBlockByHash = file_GetBlockByHash,
     bs_GetBlockByHeight = file_GetBlockByHeight, bs_GetTip = file_GetTip, bs_GetRange = file_GetRange\<rparr>"

definition file_snapshot_store :: "jsonlib \<Rightarrow> FileSnapshotStore \<Rightarrow> FileSnapshotStore SnapshotStore" where
  "file_snapshot_store J s = \<lparr>ss_state = s, ss_SaveEpochSnapshot = file_SaveEpochSnapshot J,
     ss_LoadLatestSnapshot = file_LoadLatestSnapshot J, ss_LoadSnapshotByEpoch = file_LoadSnapshotByEpoch J\<rparr>"

section \<open>Restoring a chain\<close>

definition restore_snapshot :: "'ss SnapshotStore option \<Rightarrow> ('bs, 'ss) Blockchain
    \<Rightarrow> 'ss SnapshotStore option \<times> ('bs, 'ss) Blockchain \<times> failure" where
  "restore_snapshot snapshotStore bc =
    (case snapshotStore of
      None \<Rightarrow> (None, bc, None)
    | Some st \<Rightarrow>
      (case ss_LoadLatestSnapshot st (ss_state st) of
        (s, Inl e) \<Rightarrow> (Some (st\<lparr>ss_state := s\<rparr>), bc, Some e)
      | (s, Inr None) \<Rightarrow> (Some (st\<lparr>ss_state := s\<rparr>), bc, None)
      | (s, Inr (Some (epoch, stateRoot, validatorSet))) \<Rightarrow>
        (let snap = \<lparr>es_Epoch = epoch, es_TotalStake = 0, es_Validators = validatorSet\<rparr>;
             snap = range_loop (\<lambda>_ stake snap. snap\<lparr>es_TotalStake := es_TotalStake snap + stake\<rparr>) validatorSet snap;
             bc = bc\<lparr>bc_snapshots := fmupd epoch snap (bc_snapshots bc)\<rparr>
         in (Some (st\<lparr>ss_state := s\<rparr>), bc\<lparr>bc_currentEpoch := epoch\<rparr>, None))))"

definition RestoreFromStorage :: "golib \<Rightarrow> 'bs BlockStore option \<Rightarrow> 'ss SnapshotStore option \<Rightarrow> ('bs, 'ss) Blockchain
    \<Rightarrow> ('bs BlockStore option \<times> 'ss SnapshotStore option \<times> ('bs, 'ss) Blockchain \<times> failure) option" where
  "RestoreFromStorage G blockStore snapshotStore bc =
    (case blockStore of
      None \<Rightarrow> Some (None, snapshotStore, bc, Some (ErrNew ''block store required''))
    | Some st \<Rightarrow>
      (case bs_GetTip st (bs_state st) of
        None \<Rightarrow>
          (let st = (if 0 < length (bc_Chain bc) then fst (SaveBlock st (bc_Chain bc ! 0)) else st)
           in Some (Some st, snapshotStore, bc, None))
      | Some tip \<Rightarrow>
        (case restore_snapshot snapshotStore bc of
          (snapshotStore, bc, Some e) \<Rightarrow> Some (Some st, snapshotStore, bc, Some e)
        | (snapshotStore, bc, None) \<Rightarrow> do {
            r \<leftarrow> bs_GetRange st (bs_state st) 0 (b_Index tip);
            case r of
              Inl e \<Rightarrow> Some (Some st, snapshotStore, bc, Some e)
            | Inr blocks \<Rightarrow> do {
                let bc = bc\<lparr>bc_Blocks := fmempty\<rparr>;
                let bc = bc\<lparr>bc_Parents := fmempty\<rparr>;
                let bc = fold insertBlock blocks bc;
                let bc = bc\<lparr>bc_CanonicalTip := b_Hash tip\<rparr>;
                bc \<leftarrow> rebuildCanonicalChain G bc;
                Some (Some st, snapshotStore, updateFinality bc, None)
              }
          })))"

section \<open>A node\<close>

record Config =
  cf_Chain :: ChainConfig
  cf_DataDir :: string

record Node =
  nd_Chain :: "(FileBlockStore, FileSnapshotStore) Blockchain"

definition DefaultConfig :: Config where
  "DefaultConfig = \<lparr>cf_Chain = \<lparr>cfg_MaxReorgDepth = 2, cfg_FinalitySlots = 2, cfg_MinReorgWeightDeltaP = 10,
       cfg_EpochLength = 50, cfg_DeterministicPoH = False, cfg_PoHSeed = 0, cfg_MaxBlockTxs = 100\<rparr>,
     cf_DataDir = ''data''\<rparr>"

definition NewNode :: "golib \<Rightarrow> jsonlib \<Rightarrow> Config \<Rightarrow> i64 option \<Rightarrow> disk \<Rightarrow> disk \<Rightarrow> (disk \<times> disk \<times> Node result) option" where
  \<comment> \<open>\<open>bd\<close> and \<open>sd\<close> are the directory and its snapshots before the call, and are returned also when it fails\<close>
  "NewNode G J cfg clock bd sd = do {
     chain \<leftarrow> NewBlockchain G (cf_Chain cfg) clock;
     if cf_DataDir cfg = [] then Some (bd, sd, Inr \<lparr>nd_Chain = chain\<rparr>)
     else case NewFileBlockStore J (cf_DataDir cfg) bd of
       (bd, Inl e) \<Rightarrow> Some (bd, sd, Inl e)
     | (bd, Inr blockStore) \<Rightarrow>
       (case NewFileSnapshotStore (cf_DataDir cfg) sd of
         (sd, Inl e) \<Rightarrow> Some (bd, sd, Inl e)
       | (sd, Inr snapshotStore) \<Rightarrow> do {
           let bst = Some (file_block_store J blockStore);
           let sst = Some (file_snapshot_store J snapshotStore);
           let chain = SetStorage bst sst chain;
           (bst, sst, chain, err) \<leftarrow> RestoreFromStorage G bst sst chain;
           let chain = SetStorage bst sst chain;
           let bd = fs_disk (bs_state (the bst));
           let sd = sn_disk (ss_state (the sst));
           Some (bd, sd, case err of Some e \<Rightarrow> Inl e | None \<Rightarrow> Inr \<lparr>nd_Chain = chain\<rparr>)
         })
   }"

section \<open>Linked chains\<close>

definition linked :: "Block list \<Rightarrow> bool" where
  "linked bs \<longleftrightarrow> bs \<noteq> [] \<and> b_PrevHash (hd bs) = ''GENESIS'' \<and>
     (\<forall>i. Suc i < length bs \<longrightarrow> b_PrevHash (bs ! Suc i) = b_Hash (bs ! i)) \<and>
     distinct (map b_Hash bs) \<and> [] \<notin> b_Hash ` set bs \<and> ''GENESIS'' \<notin> b_Hash ` set bs \<and>
     map b_Index bs = map word_of_nat [0..<length bs] \<and> length bs < 2 ^ 64"

abbreviation blocks_of :: "Block list \<Rightarrow> blocks" where
  "blocks_of bs \<equiv> fold (\<lambda>b. fmupd (b_Hash b) b) bs fmempty"

lemma linked_snoc: "linked (bs @ [b]) \<Longrightarrow> bs \<noteq> [] \<Longrightarrow> linked bs \<and> b_PrevHash b = b_Hash (last bs)"
proof -
  assume l: "linked (bs @ [b])" and ne: "bs \<noteq> []"
  have "b_PrevHash (bs ! Suc i) = b_Hash (bs ! i)" if "Suc i < length bs" for i
    using l that unfolding linked_def by (metis Suc_lessD length_append_singleton less_SucI nth_append)
  moreover have "b_PrevHash b = b_Hash (last bs)"
  proof -
    have "Suc (length bs - 1) < length (bs @ [b])" using ne by simp
    with l have "b_PrevHash ((bs @ [b]) ! Suc (length bs - 1)) = b_Hash ((bs @ [b]) ! (length bs - 1))"
      unfolding linked_def by blast
    with ne show ?thesis by (simp add: nth_append last_conv_nth)
  qed
  moreover have "map b_Index bs = map word_of_nat [0..<length bs]" using l unfolding linked_def by simp
  ultimately show ?thesis using l ne unfolding linked_def by auto
qed

lemma blocks_of_other: "h \<notin> b_Hash ` set bs \<Longrightarrow> fmlookup (blocks_of bs) h = None"
  by (induction bs rule: rev_induct) auto

lemma linked_rooted: "linked bs \<Longrightarrow> tree_ok (blocks_of bs) \<and> rooted (blocks_of bs) (b_Hash (last bs)) bs"
proof (induction bs rule: rev_induct)
  case Nil
  then show ?case by (simp add: linked_def)
next
  case (snoc b bs)
  have b: "b_Hash b \<noteq> []" "b_Hash b \<noteq> ''GENESIS''" "b_Hash b \<notin> b_Hash ` set bs"
    using snoc.prems by (auto simp: linked_def)
  show ?case
  proof (cases "bs = []")
    case True
    then have "b_PrevHash b = ''GENESIS''" using snoc.prems by (simp add: linked_def)
    then show ?thesis using True tree_ok_singleton [OF _ refl b(1,2)] rooted.root [of "fmupd (b_Hash b) b fmempty" "b_Hash b" b]
      by simp
  next
    case False
    note l = linked_snoc [OF snoc.prems False]
    with snoc.IH have IH: "tree_ok (blocks_of bs)" "rooted (blocks_of bs) (b_PrevHash b) bs" by simp_all
    have new: "fmlookup (blocks_of bs) (b_Hash b) = None" by (rule blocks_of_other [OF b(3)])
    from IH(2) have parent: "fmlookup (blocks_of bs) (b_PrevHash b) \<noteq> None" by (auto dest: rooted_last)
    then have "b_PrevHash b \<noteq> ''GENESIS''" using tree_okD(3) [OF IH(1)] by blast
    from tree_ok_insert [OF IH(1) parent new b(1,2)] rooted_insert_child(1) [OF IH(2) this new] show ?thesis by simp
  qed
qed

lemma insert_fold:
  "bc_Blocks (fold insertBlock bs bc) = fold (\<lambda>b. fmupd (b_Hash b) b) bs (bc_Blocks bc)"
  "bc_Chain (fold insertBlock bs bc) = bc_Chain bc" "bc_Validators (fold insertBlock bs bc) = bc_Validators bc"
  "bc_Genesis (fold insertBlock bs bc) = bc_Genesis bc" "bc_State (fold insertBlock bs bc) = bc_State bc"
  "bc_snapshots (fold insertBlock bs bc) = bc_snapshots bc" "bc_Config (fold insertBlock bs bc) = bc_Config bc"
  "bc_currentEpoch (fold insertBlock bs bc) = bc_currentEpoch bc" "bc_FinalizedSlot (fold insertBlock bs bc) = bc_FinalizedSlot bc"
  "bc_poh (fold insertBlock bs bc) = bc_poh bc" "bc_Mempool (fold insertBlock bs bc) = bc_Mempool bc"
  by (induction bs arbitrary: bc) (simp_all add: insertBlock_def Let_def)

section \<open>A new chain\<close>

definition fresh_seed :: "ChainConfig \<Rightarrow> i64 option \<Rightarrow> i64" where
  "fresh_seed cfg clock = (if cfg_DeterministicPoH cfg then cfg_PoHSeed cfg else case clock of Some now \<Rightarrow> now | None \<Rightarrow> 0)"

lemma genesis_hash_fresh: "b_Hash (genesis_block G seed) \<noteq> []" "b_Hash (genesis_block G seed) \<noteq> ''GENESIS''"
proof -
  have "length (b_Hash (genesis_block G seed)) = 64" unfolding genesis_block_hash by (simp add: HashBlock_def)
  then show "b_Hash (genesis_block G seed) \<noteq> []" "b_Hash (genesis_block G seed) \<noteq> ''GENESIS''" by auto
qed

lemma default_config_fields:
  "cfg_DeterministicPoH (default_config cfg) = cfg_DeterministicPoH cfg" "cfg_PoHSeed (default_config cfg) = cfg_PoHSeed cfg"
  "cfg_EpochLength (default_config cfg) \<noteq> 0" "cfg_MaxReorgDepth (default_config cfg) \<noteq> 0"
  "cfg_FinalitySlots (default_config cfg) \<noteq> 0" "cfg_MaxBlockTxs (default_config cfg) \<noteq> 0"
  by (simp_all add: default_config_def Let_def SlotsPerEpoch_def)

lemma rebuild_rooted:
  assumes "rooted (bc_Blocks bc) (bc_CanonicalTip bc) c" "bc_CanonicalTip bc \<noteq> []"
  shows "rebuildCanonicalChain G bc = Some (rebuildStateFromCanonical G (rebuildSlotMap (bc\<lparr>bc_Chain := c\<rparr>)))"
  using canonical_walk_rooted [OF assms(1), of "[]"] assms(2) by (simp add: rebuildCanonicalChain_def Let_def)

lemma adopt_finality: "bc_FinalizedSlot (adopt G tip c bc) =
    (if chainTipSlot (bc\<lparr>bc_Chain := c\<rparr>) < cfg_FinalitySlots (bc_Config bc) then bc_FinalizedSlot bc
     else max (bc_FinalizedSlot bc) (chainTipSlot (bc\<lparr>bc_Chain := c\<rparr>) - cfg_FinalitySlots (bc_Config bc)))"
  by (simp add: adopt_def FinalizedSlot_updateFinality rebuildState_frame rebuildSlotMap_def chainTipSlot_def)

lemma finality_rebuilt: "updateFinality (rebuildStateFromCanonical G (rebuildSlotMap (bc\<lparr>bc_Chain := c\<rparr>))) = adopt G (bc_CanonicalTip bc) c bc"
  by (cases bc) (simp add: adopt_def)

lemma NewBlockchain_run:
  fixes G :: golib and cfg :: ChainConfig and clock :: "i64 option"
  defines "g \<equiv> genesis_block G (fresh_seed cfg clock)"
  shows "\<exists>bc :: ('bs, 'ss) Blockchain. NewBlockchain G cfg clock = Some bc \<and> bc_Chain bc = [g] \<and>
    bc_Blocks bc = fmupd (b_Hash g) g fmempty \<and> bc_Parents bc = fmupd (b_Hash g) (b_PrevHash g) fmempty \<and> bc_CanonicalTip bc = b_Hash g \<and> bc_Validators bc = fmempty \<and>
    bc_Genesis bc = fmempty \<and> bc_State bc = fmempty \<and> bc_snapshots bc = fmempty \<and> bc_FinalizedSlot bc = 0 \<and>
    bc_Config bc = default_config cfg \<and> bc_poh bc = Some (NewPoH (HashPoHSeed G (Int63 G (fresh_seed cfg clock)))) \<and>
    bc_Mempool bc = Some NewMempool \<and> bc_Stats bc = Some fmempty \<and> bc_SlotProducers bc = fmempty \<and> bc_blockStore bc = None"
proof -
  define bc :: "('bs, 'ss) Blockchain" where "bc = \<lparr>bc_Chain = [], bc_Blocks = fmupd (b_Hash g) g fmempty,
      bc_Parents = fmupd (b_Hash g) (b_PrevHash g) fmempty, bc_CanonicalTip = b_Hash g,
      bc_Validators = fmempty, bc_Stats = Some fmempty, bc_poh = Some (NewPoH (HashPoHSeed G (Int63 G (fresh_seed cfg clock)))),
      bc_State = fmempty, bc_Genesis = fmempty, bc_SlotProduced = fmempty, bc_SlotProducers = fmempty,
      bc_Equivocations = [], bc_LastProcessedSlot = 0, bc_FinalizedSlot = 0, bc_Config = default_config cfg,
      bc_ReorgStats = \<lparr>rm_Info = 0, rm_Warn = 0, rm_Error = 0, rm_Critical = 0\<rparr>, bc_currentEpoch = 0,
      bc_snapshots = fmempty, bc_blockStore = None, bc_snapshotStore = None, bc_Mempool = None\<rparr>"
  have root: "rooted (bc_Blocks bc) (bc_CanonicalTip bc) [g]" "bc_CanonicalTip bc \<noteq> []"
    by (simp_all add: bc_def g_def genesis_block_fields genesis_hash_fresh rooted.root)
  have "NewBlockchain G cfg clock = do { bc \<leftarrow> rebuildCanonicalChain G bc; Some ((updateFinality bc)\<lparr>bc_Mempool := Some NewMempool\<rparr>) }"
    by (simp add: NewBlockchain_def insertBlock_def default_config_fields genesis_block_fields Let_def bc_def g_def
        fresh_seed_def cong: option.case_cong)
  then have "NewBlockchain G cfg clock = Some ((adopt G (b_Hash g) [g] bc)\<lparr>bc_Mempool := Some NewMempool\<rparr>)"
    by (simp add: rebuild_rooted [OF root] finality_rebuilt) (simp add: bc_def)
  then show ?thesis
    by (simp add: adopt_frame State_adopt bc_def adopt_finality chainTipSlot_def) (simp add: g_def genesis_block_fields word_gt_0)
qed

text \<open>
  C21: a new chain.  \<open>NewBlockchain\<close> returns: its canonical chain is the genesis block of the configured
  seed (or of the clock, or of 0), it is well formed, its proof-of-history clock starts at the hash in
  the genesis block, the mempool is empty, and no length of the configuration is left at 0, so that no
  division by the epoch length can fail.
\<close>

theorem NewBlockchain_fresh:
  "\<exists>bc :: ('bs, 'ss) Blockchain. NewBlockchain G cfg clock = Some bc \<and>
    bc_Chain bc = [genesis_block G (fresh_seed cfg clock)] \<and> canonical_ok bc \<and> bc_FinalizedSlot bc = 0 \<and>
    map_option (\<lambda>p. Inr (p_Hash p)) (bc_poh bc) = Some (ParsePoHHashHex (b_PoHHash (hd (bc_Chain bc)))) \<and>
    bc_Mempool bc = Some NewMempool \<and> mempool_ok G NewMempool \<and>
    cfg_EpochLength (bc_Config bc) \<noteq> 0 \<and> cfg_MaxReorgDepth (bc_Config bc) \<noteq> 0 \<and>
    cfg_FinalitySlots (bc_Config bc) \<noteq> 0 \<and> cfg_MaxBlockTxs (bc_Config bc) \<noteq> 0"
proof -
  let ?g = "genesis_block G (fresh_seed cfg clock)"
  obtain bc :: "('bs, 'ss) Blockchain" where bc: "NewBlockchain G cfg clock = Some bc" "bc_Chain bc = [?g]"
    "bc_Blocks bc = fmupd (b_Hash ?g) ?g fmempty" "bc_CanonicalTip bc = b_Hash ?g" "bc_FinalizedSlot bc = 0"
    "bc_Config bc = default_config cfg" "bc_poh bc = Some (NewPoH (HashPoHSeed G (Int63 G (fresh_seed cfg clock))))"
    "bc_Mempool bc = Some NewMempool"
    using NewBlockchain_run [of G cfg clock] by blast
  have "canonical_ok bc"
    unfolding canonical_ok_def bc using tree_ok_singleton [OF _ refl, of ?g] rooted.root [of "fmupd (b_Hash ?g) ?g fmempty" "b_Hash ?g" ?g]
    by (simp add: genesis_block_fields genesis_hash_fresh)
  then show ?thesis using bc
    by (intro exI [of _ bc]) (simp add: default_config_fields mempool_ok_new genesis_block_fields NewPoH_def)
qed

section \<open>Restarting\<close>

definition restored_snapshots :: "(u64 \<times> string \<times> stakes) option \<Rightarrow> (u64, EpochSnapshot) fmap" where
  "restored_snapshots r = (case r of None \<Rightarrow> fmempty
    | Some (e, root, vs) \<Rightarrow> fmupd e \<lparr>es_Epoch = e, es_TotalStake = sum_list (map (get_or 0 vs) (keys_of vs)), es_Validators = vs\<rparr> fmempty)"

lemma snapshot_sum: "range_loop (\<lambda>_ stake snap. snap\<lparr>es_TotalStake := es_TotalStake snap + stake\<rparr>) vs
    \<lparr>es_Epoch = e, es_TotalStake = 0, es_Validators = w\<rparr> =
    \<lparr>es_Epoch = e, es_TotalStake = sum_list (map (get_or 0 vs) (keys_of vs)), es_Validators = w\<rparr>"
proof -
  have total: "fold (\<lambda>k snap. snap\<lparr>es_TotalStake := es_TotalStake snap + the (fmlookup vs k)\<rparr>) ks
      \<lparr>es_Epoch = e, es_TotalStake = t, es_Validators = w\<rparr> =
      \<lparr>es_Epoch = e, es_TotalStake = t + sum_list (map (\<lambda>k. the (fmlookup vs k)) ks), es_Validators = w\<rparr>" for ks t
    by (induction ks arbitrary: t) (simp_all add: add.assoc)
  have "map (\<lambda>k. the (fmlookup vs k)) (keys_of vs) = map (get_or 0 vs) (keys_of vs)"
    by (auto simp: get_or_def fmlookup_dom_iff)
  then show ?thesis unfolding range_loop_def total by (simp only: add_0)
qed

lemma restore_snapshot_run:
  assumes "ss_LoadLatestSnapshot st (ss_state st) = (ss_state st, Inr r)" "bc_snapshots bc = fmempty"
  shows "\<exists>e. restore_snapshot (Some st) bc = (Some st, bc\<lparr>bc_snapshots := restored_snapshots r, bc_currentEpoch := e\<rparr>, None)"
proof -
  have same: "st\<lparr>ss_state := ss_state st\<rparr> = st" by simp
  have none: "bc = bc\<lparr>bc_snapshots := fmempty, bc_currentEpoch := bc_currentEpoch bc\<rparr>" using assms(2) by (cases bc) simp
  show ?thesis
  proof (cases r)
    case None
    then show ?thesis using assms(1) none
      by (intro exI [of _ "bc_currentEpoch bc"]) (simp add: restore_snapshot_def restored_snapshots_def)
  next
    case (Some x)
    obtain e root vs where "x = (e, root, vs)" by (cases x)
    with Some show ?thesis using assms
      by (intro exI [of _ e]) (simp add: restore_snapshot_def restored_snapshots_def Let_def snapshot_sum)
  qed
qed

text \<open>
  \<open>RestoreFromStorage\<close> for any blocks that the range gives: the restored chain is what the walk from the tip finds
  among them.
\<close>

lemma RestoreFromStorage_walk:
  fixes bst :: "'bs BlockStore" and sst :: "'ss SnapshotStore"
  assumes "bs_GetTip bst (bs_state bst) = Some t" "bs_GetRange bst (bs_state bst) 0 (b_Index t) = Some (Inr bs)"
    and "b_Hash t \<noteq> []" "canonical_walk (blocks_of bs) (b_Hash t) [] = Some (rev c)"
    and "ss_LoadLatestSnapshot sst (ss_state sst) = (ss_state sst, Inr r)" "bc_snapshots bc = fmempty"
  shows "\<exists>bc'. RestoreFromStorage G (Some bst) (Some sst) bc = Some (Some bst, Some sst, adopt G (b_Hash t) c bc', None) \<and>
    bc_Blocks bc' = blocks_of bs \<and> bc_snapshots bc' = restored_snapshots r \<and> bc_Validators bc' = bc_Validators bc \<and>
    bc_Genesis bc' = bc_Genesis bc \<and> bc_State bc' = bc_State bc \<and> bc_FinalizedSlot bc' = bc_FinalizedSlot bc \<and>
    bc_Config bc' = bc_Config bc \<and> bc_poh bc' = bc_poh bc"
proof -
  obtain e where snap: "restore_snapshot (Some sst) bc = (Some sst, bc\<lparr>bc_snapshots := restored_snapshots r, bc_currentEpoch := e\<rparr>, None)"
    using restore_snapshot_run [OF assms(5,6)] by blast
  define bc1 where "bc1 = (fold insertBlock bs (bc\<lparr>bc_snapshots := restored_snapshots r, bc_currentEpoch := e,
      bc_Blocks := fmempty, bc_Parents := fmempty\<rparr>))\<lparr>bc_CanonicalTip := b_Hash t\<rparr>"
  have blocks: "bc_Blocks bc1 = blocks_of bs" "bc_CanonicalTip bc1 = b_Hash t"
    by (simp_all add: bc1_def insert_fold)
  have "rebuildCanonicalChain G bc1 = Some (rebuildStateFromCanonical G (rebuildSlotMap (bc1\<lparr>bc_Chain := c\<rparr>)))"
    using assms(3,4) by (simp add: rebuildCanonicalChain_def blocks Let_def)
  then have "RestoreFromStorage G (Some bst) (Some sst) bc = Some (Some bst, Some sst, adopt G (b_Hash t) c bc1, None)"
    using assms(1,2) by (simp add: RestoreFromStorage_def snap finality_rebuilt blocks(2) flip: bc1_def)
  then show ?thesis using blocks(1) by (intro exI [of _ bc1]) (simp add: bc1_def insert_fold)
qed

lemma NewNode_walk:
  fixes cfg :: Config
  assumes "file_ok J log s" "\<forall>b\<in>set log. json_block J b \<and> line_fits J b" "snapshots_are J m ss" "cf_DataDir cfg \<noteq> []"
    and "file_GetTip s = Some t" "file_GetRange s 0 (b_Index t) = Some (Inr bs)"
    and "b_Hash t \<noteq> []" "canonical_walk (blocks_of bs) (b_Hash t) [] = Some (rev c)"
  shows "\<exists>bc'. NewNode G J cfg clock (fs_disk s) (sn_disk ss) = Some (fs_disk s, sn_disk ss, Inr \<lparr>nd_Chain =
      SetStorage (Some (file_block_store J s)) (Some (file_snapshot_store J ss)) (adopt G (b_Hash t) c bc')\<rparr>) \<and>
    bc_Blocks bc' = blocks_of bs \<and> bc_snapshots bc' = restored_snapshots (newest_snapshot m) \<and> bc_Validators bc' = fmempty \<and>
    bc_Genesis bc' = fmempty \<and> bc_State bc' = fmempty \<and> bc_FinalizedSlot bc' = 0 \<and> bc_Config bc' = default_config (cf_Chain cfg) \<and>
    bc_poh bc' = Some (NewPoH (HashPoHSeed G (Int63 G (fresh_seed (cf_Chain cfg) clock))))"
proof -
  obtain bc :: "(FileBlockStore, FileSnapshotStore) Blockchain" where bc: "NewBlockchain G (cf_Chain cfg) clock = Some bc"
    "bc_Validators bc = fmempty" "bc_Genesis bc = fmempty" "bc_State bc = fmempty" "bc_snapshots bc = fmempty"
    "bc_FinalizedSlot bc = 0" "bc_Config bc = default_config (cf_Chain cfg)"
    "bc_poh bc = Some (NewPoH (HashPoHSeed G (Int63 G (fresh_seed (cf_Chain cfg) clock))))"
    using NewBlockchain_run [of G "cf_Chain cfg" clock] by blast
  let ?bst = "file_block_store J s" and ?sst = "file_snapshot_store J ss"
  let ?bc = "SetStorage (Some ?bst) (Some ?sst) bc"
  have stores: "bs_GetTip ?bst (bs_state ?bst) = Some t" "bs_GetRange ?bst (bs_state ?bst) 0 (b_Index t) = Some (Inr bs)"
    "ss_LoadLatestSnapshot ?sst (ss_state ?sst) = (ss_state ?sst, Inr (newest_snapshot m))" "bc_snapshots ?bc = fmempty"
    using assms(5,6) file_snapshots.newest_law [OF assms(3)] bc(5)
    by (simp_all add: file_block_store_def file_snapshot_store_def SetStorage_def Let_def)
  obtain bc' where run: "RestoreFromStorage G (Some ?bst) (Some ?sst) ?bc = Some (Some ?bst, Some ?sst, adopt G (b_Hash t) c bc', None)"
    and bc': "bc_Blocks bc' = blocks_of bs" "bc_snapshots bc' = restored_snapshots (newest_snapshot m)" "bc_Validators bc' = fmempty"
      "bc_Genesis bc' = fmempty" "bc_State bc' = fmempty" "bc_FinalizedSlot bc' = 0" "bc_Config bc' = default_config (cf_Chain cfg)"
      "bc_poh bc' = bc_poh bc"
    using RestoreFromStorage_walk [OF stores(1,2) assms(7,8) stores(3,4), of G] bc(2-4,6,7) by (auto simp: SetStorage_def Let_def)
  have sn: "NewFileSnapshotStore (cf_DataDir cfg) (sn_disk ss) = (sn_disk ss, Inr ss)"
    using snapshots_areD(1,2) [OF assms(3)] assms(4) by (cases ss) (simp add: NewFileSnapshotStore_def os_defs)
  have "NewNode G J cfg clock (fs_disk s) (sn_disk ss) = Some (fs_disk s, sn_disk ss, Inr \<lparr>nd_Chain =
      SetStorage (Some ?bst) (Some ?sst) (adopt G (b_Hash t) c bc')\<rparr>)"
    using bc(1) run sn reload_file_ok [OF assms(1,2,4)] assms(4)
    by (simp add: NewNode_def Let_def) (simp add: file_block_store_def file_snapshot_store_def)
  with bc' bc(8) show ?thesis by (intro exI [of _ bc']) simp
qed

text \<open>
  C5: restarting a node.  When the directory holds a linked chain of blocks, numbered from 0, and any
  snapshots, then \<open>NewNode\<close> succeeds without changing the disks, the canonical chain is exactly the
  stored one and is well formed, blocks up to the configured distance behind its tip are final, and the
  newest snapshot is the only one.  The accounts are what the stored blocks do to empty accounts without
  any validator (or empty, when they cannot be applied), and the clock starts at the genesis block again.
  Two conditions: JSON gives every block back, and no block's line in the file has more than 65535 bytes, the most that
  the scanner of \<open>loadBlocks\<close> takes.
\<close>

theorem restart_restores_chain:
  assumes "file_ok J bs s" "linked bs" "\<forall>b\<in>set bs. json_block J b \<and> line_fits J b"
    and "snapshots_are J m ss" "cf_DataDir cfg \<noteq> []"
  shows "\<exists>node. NewNode G J cfg clock (fs_disk s) (sn_disk ss) = Some (fs_disk s, sn_disk ss, Inr node) \<and>
    bc_Chain (nd_Chain node) = bs \<and> canonical_ok (nd_Chain node) \<and>
    bc_blockStore (nd_Chain node) = Some (file_block_store J s) \<and>
    bc_snapshotStore (nd_Chain node) = Some (file_snapshot_store J ss) \<and>
    bc_snapshots (nd_Chain node) = restored_snapshots (newest_snapshot m) \<and>
    bc_FinalizedSlot (nd_Chain node) = (let F = cfg_FinalitySlots (default_config (cf_Chain cfg)) in
      if b_Slot (last bs) < F then 0 else b_Slot (last bs) - F) \<and>
    bc_Validators (nd_Chain node) = fmempty \<and>
    bc_State (nd_Chain node) = (case replay G fmempty (tl bs) fmempty of Inl e \<Rightarrow> fmempty | Inr t \<Rightarrow> t) \<and>
    bc_poh (nd_Chain node) = Some (NewPoH (HashPoHSeed G (Int63 G (fresh_seed (cf_Chain cfg) clock))))"
proof -
  note l = assms(2) [unfolded linked_def]
  have chain: "file_GetTip s = Some (last bs)" "file_GetRange s 0 (b_Index (last bs)) = Some (Inr bs)"
    using file_ok_chain [OF assms(1)] l by blast+
  have tip: "b_Hash (last bs) \<noteq> []" using l by (metis imageI last_in_set)
  have walk: "canonical_walk (blocks_of bs) (b_Hash (last bs)) [] = Some (rev bs)"
    using canonical_walk_rooted [of "blocks_of bs" "b_Hash (last bs)" bs "[]"] linked_rooted [OF assms(2)] by simp
  let ?bst = "file_block_store J s" and ?sst = "file_snapshot_store J ss"
  obtain bc' where run: "NewNode G J cfg clock (fs_disk s) (sn_disk ss) = Some (fs_disk s, sn_disk ss, Inr \<lparr>nd_Chain =
      SetStorage (Some ?bst) (Some ?sst) (adopt G (b_Hash (last bs)) bs bc')\<rparr>)"
    and bc': "bc_Blocks bc' = blocks_of bs" "bc_snapshots bc' = restored_snapshots (newest_snapshot m)" "bc_Validators bc' = fmempty"
      "bc_Genesis bc' = fmempty" "bc_State bc' = fmempty" "bc_FinalizedSlot bc' = 0" "bc_Config bc' = default_config (cf_Chain cfg)"
      "bc_poh bc' = Some (NewPoH (HashPoHSeed G (Int63 G (fresh_seed (cf_Chain cfg) clock))))"
    using NewNode_walk [OF assms(1,3-5) chain tip walk, of G clock] by blast
  have "canonical_ok (adopt G (b_Hash (last bs)) bs bc')"
    using linked_rooted [OF assms(2)] tip by (simp add: canonical_ok_def adopt_frame bc'(1))
  moreover have "chainTipSlot (bc'\<lparr>bc_Chain := bs\<rparr>) = b_Slot (last bs)" using l by (simp add: chainTipSlot_def last_conv_nth)
  ultimately show ?thesis unfolding run
    by (simp add: SetStorage_def canonical_ok_def Let_def adopt_frame State_adopt adopt_finality bc' drop_Suc split: sum.split)
qed

lemma demo_linked: "linked [stored_block CHR ''g'' 0, stored_block CHR ''h'' 1]"
proof -
  let ?bs = "[stored_block CHR ''g'' 0, stored_block CHR ''h'' 1]"
  have "b_PrevHash (?bs ! Suc i) = b_Hash (?bs ! i)" if "Suc i < length ?bs" for i
    using that by (cases i) (simp_all add: stored_block_def zero_block_def)
  moreover have "[0..<length ?bs] = [0, 1]" by (simp add: upt_rec)
  ultimately show ?thesis unfolding linked_def by (simp add: stored_block_def zero_block_def)
qed

lemma demo_file_two: "\<exists>s. file_ok demo_json [stored_block CHR ''g'' 0, stored_block CHR ''h'' 1] s"
proof -
  obtain s where "file_ok demo_json [stored_block CHR ''g'' 0] s" using demo_file_one by blast
  from file_SaveBlock_ok [OF this demo_block_ok(2) demo_index(2)] show ?thesis by auto
qed

theorem restart_restores_chain_witness:
  "\<exists>s (ss :: FileSnapshotStore) node. file_ok demo_json [stored_block CHR ''g'' 0, stored_block CHR ''h'' 1] s \<and>
    NewNode demo_lib demo_json DefaultConfig None (fs_disk s) (sn_disk ss) = Some (fs_disk s, sn_disk ss, Inr node) \<and>
    bc_Chain (nd_Chain node) = [stored_block CHR ''g'' 0, stored_block CHR ''h'' 1] \<and> canonical_ok (nd_Chain node)"
proof -
  let ?bs = "[stored_block CHR ''g'' 0, stored_block CHR ''h'' 1]"
  obtain s where s: "file_ok demo_json ?bs s" using demo_file_two by blast
  obtain ss where ss: "snapshots_are demo_json fmempty ss" using demo_snapshots by blast
  have json: "\<forall>b\<in>set ?bs. json_block demo_json b \<and> line_fits demo_json b" using demo_block_ok demo_line_fits by simp
  have dir: "cf_DataDir DefaultConfig \<noteq> []" by (simp add: DefaultConfig_def)
  from restart_restores_chain [OF s demo_linked json ss dir, of demo_lib None] obtain node where
    "NewNode demo_lib demo_json DefaultConfig None (fs_disk s) (sn_disk ss) = Some (fs_disk s, sn_disk ss, Inr node)"
    "bc_Chain (nd_Chain node) = ?bs" "canonical_ok (nd_Chain node)" by (elim exE conjE) simp
  with s have "file_ok demo_json ?bs s \<and> NewNode demo_lib demo_json DefaultConfig None (fs_disk s) (sn_disk ss) =
      Some (fs_disk s, sn_disk ss, Inr node) \<and> bc_Chain (nd_Chain node) = ?bs \<and> canonical_ok (nd_Chain node)" by (intro conjI)
  then show ?thesis by (intro exI)
qed

section \<open>The first start\<close>

lemma fresh_restore:
  assumes "bs_GetTip st (bs_state st) = None" "bc_Chain bc = [g]"
  shows "RestoreFromStorage G (Some st) sst bc = Some (Some (fst (SaveBlock st g)), sst, bc, None)"
  using assms by (simp add: RestoreFromStorage_def)

text \<open>
  The first start of a node.  In an empty directory \<open>NewNode\<close> gives the new chain and saves its
  genesis block, so that the directory then holds that one-block chain, which the next start
  restores whatever the clock reads then (as long as its line fits).
\<close>

theorem first_start:
  fixes G :: golib and cfg :: Config and clock :: "i64 option"
  defines "g \<equiv> genesis_block G (fresh_seed (cf_Chain cfg) clock)"
  assumes "json_block J g" "json_index J (index_of (memory_of [g] bd))" "file_ok J [] (memory_of [] bd)"
    and "dk_script sd = []" "dk_files sd = fmempty" "cf_DataDir cfg \<noteq> []"
  shows "\<exists>s node. NewNode G J cfg clock bd sd = Some (fs_disk s, sd\<lparr>dk_exists := True\<rparr>, Inr node) \<and>
    bc_Chain (nd_Chain node) = [g] \<and> bc_blockStore (nd_Chain node) = Some (file_block_store J s) \<and>
    file_ok J [g] s \<and> linked [g]"
proof -
  let ?s0 = "memory_of [] bd"
  obtain bc :: "(FileBlockStore, FileSnapshotStore) Blockchain" where bc: "NewBlockchain G (cf_Chain cfg) clock = Some bc"
    "bc_Chain bc = [g]"
    using NewBlockchain_run [of G "cf_Chain cfg" clock] unfolding g_def by blast
  from assms(3) have ix: "json_index J (index_of (memory_of ([] @ [g]) (fs_disk ?s0)))" by simp
  from file_SaveBlock_ok [OF assms(4,2) ix] obtain s where s: "file_SaveBlock J ?s0 g = (s, None)" "file_ok J [g] s" by auto
  have load: "NewFileBlockStore J (cf_DataDir cfg) bd = (bd, Inr ?s0)"
    using reload_file_ok [OF assms(4) _ assms(7)] by simp
  let ?ss = "\<lparr>sn_disk = sd\<lparr>dk_exists := True\<rparr>\<rparr>"
  have sn: "NewFileSnapshotStore (cf_DataDir cfg) sd = (sd\<lparr>dk_exists := True\<rparr>, Inr ?ss)"
    using assms(5,7) by (simp add: NewFileSnapshotStore_def os_defs)
  let ?bst = "file_block_store J ?s0" and ?sst = "Some (file_snapshot_store J ?ss)"
  have tip: "bs_GetTip ?bst (bs_state ?bst) = None" by (simp add: file_block_store_def file_GetTip_def memory_of_def)
  have stored: "bc_Chain (SetStorage (Some ?bst) ?sst bc) = [g]" using bc(2) by (simp add: SetStorage_def Let_def)
  have saved: "fst (SaveBlock ?bst g) = file_block_store J s" using s(1) by (simp add: SaveBlock_def file_block_store_def)
  note run = fresh_restore [OF tip stored, of G ?sst, unfolded saved]
  let ?node = "\<lparr>nd_Chain = SetStorage (Some (file_block_store J s)) ?sst bc\<rparr>"
  have "NewNode G J cfg clock bd sd = Some (fs_disk s, sd\<lparr>dk_exists := True\<rparr>, Inr ?node)"
    using bc(1) run load sn assms(7)
    by (simp add: NewNode_def Let_def) (simp add: file_block_store_def file_snapshot_store_def SetStorage_def Let_def)
  moreover have "linked [g]" using genesis_hash_fresh [of G "fresh_seed (cf_Chain cfg) clock"]
    by (simp add: linked_def g_def genesis_block_fields)
  ultimately show ?thesis using s(2) bc(2) by (intro exI [of _ s] exI [of _ ?node]) (simp add: SetStorage_def Let_def)
qed

text \<open>A codec for a directory with one block, whatever that block is.\<close>

definition one_block_json :: "Block \<Rightarrow> jsonlib" where
  "one_block_json g = demo_json\<lparr>MarshalBlock := \<lambda>b. Inr (str_bytes ''block''), UnmarshalBlock := \<lambda>bs. Inr g,
     MarshalIndex := \<lambda>ix. Inr (str_bytes ''index''), UnmarshalIndex := \<lambda>bs. Inr (index_of (memory_of [g] empty_disk))\<rparr>"

theorem first_start_witness:
  "\<exists>s node. NewNode demo_lib (one_block_json (genesis_block demo_lib 7)) DefaultConfig (Some 7) empty_disk empty_disk =
      Some (fs_disk s, empty_disk, Inr node) \<and> bc_Chain (nd_Chain node) = [genesis_block demo_lib 7] \<and>
    file_ok (one_block_json (genesis_block demo_lib 7)) [genesis_block demo_lib 7] s"
proof -
  let ?g = "genesis_block demo_lib (fresh_seed (cf_Chain DefaultConfig) (Some 7))" and ?J = "one_block_json (genesis_block demo_lib 7)"
  have g: "?g = genesis_block demo_lib 7" by (simp add: fresh_seed_def DefaultConfig_def)
  have "json_block ?J ?g" "json_index ?J (index_of (memory_of [?g] empty_disk))"
    unfolding g by (simp_all add: json_block_def json_index_def one_block_json_def str_bytes_def byte_of_def)
  moreover have "file_ok ?J [] (memory_of [] empty_disk)" by (simp add: file_ok_def on_disk_def empty_disk_def get_or_def)
  moreover have "dk_script empty_disk = []" "dk_files empty_disk = fmempty" "cf_DataDir DefaultConfig \<noteq> []"
    by (simp_all add: empty_disk_def DefaultConfig_def)
  ultimately have "\<exists>s node. NewNode demo_lib ?J DefaultConfig (Some 7) empty_disk empty_disk =
      Some (fs_disk s, empty_disk\<lparr>dk_exists := True\<rparr>, Inr node) \<and> bc_Chain (nd_Chain node) = [?g] \<and>
      bc_blockStore (nd_Chain node) = Some (file_block_store ?J s) \<and> file_ok ?J [?g] s \<and> linked [?g]"
    by (rule first_start)
  moreover have "empty_disk\<lparr>dk_exists := True\<rparr> = empty_disk" by (simp add: empty_disk_def)
  ultimately show ?thesis unfolding g by (elim exE conjE) (intro exI conjI, simp_all)
qed

section \<open>A fork on disk\<close>

text \<open>
  The index keeps one block per height, the last one saved, whatever branch it is on.  First what a store
  holds after any sequence of blocks of different hashes.
\<close>

lemma memory_of_inv:
  "distinct (map b_Hash log) \<Longrightarrow> [] \<notin> b_Hash ` set log \<Longrightarrow> file_inv (memory_of log d)"
proof (induction log rule: rev_induct)
  case Nil
  then show ?case by (simp add: memory_of_def file_inv_def)
next
  case (snoc b log)
  have "fmlookup (blocks_of log) (b_Hash b) = None" using snoc.prems(1) by (intro blocks_of_other) auto
  then have "storable file_GetBlockByHash (memory_of log d) b" using snoc.prems(2) by (auto simp: storable_def file_GetBlockByHash_def)
  with snoc show ?case unfolding memory_of_simps(5) by (intro file_inv_remember(1)) simp_all
qed

lemma memory_of_height: "b \<in> set log \<Longrightarrow> fmlookup (fs_heightToHash (memory_of log d)) (b_Index b) \<noteq> None"
  by (induction log rule: rev_induct) auto

lemma blocks_of_lookup:
  assumes "\<forall>a\<in>set bs. fmlookup blocks (b_Hash a) = Some a" "b \<in> set bs"
  shows "fmlookup (blocks_of bs) (b_Hash b) = Some b"
  using assms
proof (induction bs rule: rev_induct)
  case (snoc x bs)
  have "x = b" if "b_Hash x = b_Hash b"
  proof -
    have "fmlookup blocks (b_Hash x) = Some x" using snoc.prems(1) by simp
    moreover have "fmlookup blocks (b_Hash b) = Some b" by (rule bspec [OF snoc.prems])
    ultimately show ?thesis unfolding that by (rule option.inject [THEN iffD1, OF trans [OF sym]])
  qed
  moreover have "fmlookup (blocks_of bs) (b_Hash b) = Some b" if "b_Hash x \<noteq> b_Hash b"
  proof (rule snoc.IH)
    show "\<forall>a\<in>set bs. fmlookup blocks (b_Hash a) = Some a" using snoc.prems(1) by simp
    show "b \<in> set bs" using snoc.prems(2) that by auto
  qed
  ultimately show ?case by (cases "b_Hash x = b_Hash b") simp_all
qed simp

lemma blocks_of_set: "fmlookup (blocks_of bs) h = Some b \<Longrightarrow> b \<in> set bs \<and> b_Hash b = h"
  by (induction bs rule: rev_induct) (auto split: if_splits)

lemma canonical_walk_broken:
  assumes "\<And>i. k < i \<Longrightarrow> i < length c \<Longrightarrow>
      fmlookup blocks (b_Hash (c ! i)) = Some (c ! i) \<and> b_PrevHash (c ! i) = b_Hash (c ! (i - 1)) \<and> b_PrevHash (c ! i) \<noteq> ''GENESIS''"
    and "fmlookup blocks (b_Hash (c ! k)) = None"
  shows "k + n < length c \<Longrightarrow> canonical_walk blocks (b_Hash (c ! (k + n))) acc = Some (acc @ rev (take n (drop (Suc k) c)))"
proof (induction n arbitrary: acc)
  case 0
  then show ?case using assms(2) by (subst canonical_walk.simps) simp
next
  case (Suc n)
  let ?b = "c ! (k + Suc n)"
  have b: "fmlookup blocks (b_Hash ?b) = Some ?b" "b_PrevHash ?b = b_Hash (c ! (k + n))" "b_PrevHash ?b \<noteq> ''GENESIS''"
    using assms(1) [of "k + Suc n"] Suc.prems by auto
  have "take (Suc n) (drop (Suc k) c) = take n (drop (Suc k) c) @ [?b]"
    using Suc.prems by (simp add: take_Suc_conv_app_nth)
  with Suc b show ?case by (subst canonical_walk.simps) (simp add: Let_def)
qed

text \<open>The range of a store whose tip has a whole chain: one block for each height, each with its own hash.\<close>

lemma stored_heights:
  assumes "s = memory_of log d" "distinct (map b_Hash log)" "[] \<notin> b_Hash ` set log"
    and "rooted (blocks_of log) h c" "map b_Index c = map word_of_nat [0..<length c]" "i < length c"
  shows "\<exists>b. file_GetBlockByHeight s (word_of_nat i) = Some b \<and> b_Index b = word_of_nat i \<and> b_Index (c ! i) = word_of_nat i \<and>
    fmlookup (blocks_of log) (b_Hash b) = Some b"
proof -
  have inv: "file_inv s" unfolding assms(1) by (rule memory_of_inv [OF assms(2,3)])
  have idx: "b_Index (c ! i) = word_of_nat i" using arg_cong [OF assms(5), of "\<lambda>xs. xs ! i"] assms(6) by simp
  from rooted_set [OF assms(4) nth_mem [OF assms(6)]] obtain k where "fmlookup (blocks_of log) k = Some (c ! i)" by blast
  from memory_of_height [OF conjunct1 [OF blocks_of_set [OF this]], of d] obtain x where
    x: "fmlookup (fs_heightToHash s) (word_of_nat i) = Some x"
    unfolding idx assms(1) by blast
  from file_invD(2) [OF inv x] obtain b where b: "fmlookup (fs_blocks s) x = Some b" "b_Index b = word_of_nat i" by blast
  note b = b file_invD(1) [OF inv b(1)]
  have "fs_blocks s = blocks_of log" by (simp add: assms(1))
  with b x idx show ?thesis by (intro exI [of _ b]) (simp add: file_GetBlockByHeight_def)
qed

lemma forked_range:
  assumes "s = memory_of log d" "distinct (map b_Hash log)" "[] \<notin> b_Hash ` set log"
    and "rooted (blocks_of log) h c" "map b_Index c = map word_of_nat [0..<length c]" "length c < 2 ^ 64"
  obtains bs where "file_GetRange s 0 (b_Index (last c)) = Some (Inr bs)" "length bs = length c"
    "\<forall>i < length c. file_GetBlockByHeight s (word_of_nat i) = Some (bs ! i) \<and> fmlookup (blocks_of bs) (b_Hash (bs ! i)) = Some (bs ! i)"
    "\<forall>b. fmlookup (blocks_of log) (b_Hash b) = Some b \<longrightarrow> fmlookup (blocks_of bs) (b_Hash b) \<noteq> None \<longrightarrow>
      file_GetBlockByHeight s (b_Index b) = Some b"
proof -
  note heights = stored_heights [OF assms(1-5)]
  define bs where "bs = map (\<lambda>i. the (file_GetBlockByHeight s (word_of_nat i))) [0..<length c]"
  have len: "length bs = length c" by (simp add: bs_def)
  have at: "file_GetBlockByHeight s (word_of_nat i) = Some (bs ! i) \<and> b_Index (bs ! i) = word_of_nat i \<and>
      b_Index (c ! i) = word_of_nat i \<and> fmlookup (blocks_of log) (b_Hash (bs ! i)) = Some (bs ! i)" if i: "i < length c" for i
    using heights [OF i] i by (auto simp: bs_def)
  have ne: "bs \<noteq> []" using rooted_nonempty [OF assms(4)] len by auto
  have bidx: "map b_Index bs = map word_of_nat [0..<length bs]"
    by (rule nth_equalityI) (use at len in simp_all)
  have top: "length c - 1 < length c" using rooted_nonempty [OF assms(4)] by simp
  have "b_Index (last bs) = b_Index (last c)"
    using at [OF top] ne rooted_nonempty [OF assms(4)] by (simp add: last_conv_nth len)
  moreover have "\<forall>i<length bs. file_GetBlockByHeight s (word_of_nat i) = Some (bs ! i)" "length bs < 2 ^ 64"
    using at assms(6) len by simp_all
  note chain_range [OF this(1) bidx this(2) ne]
  ultimately have range: "file_GetRange s 0 (b_Index (last c)) = Some (Inr bs)" by simp
  have own: "\<forall>a\<in>set bs. fmlookup (blocks_of log) (b_Hash a) = Some a \<and> file_GetBlockByHeight s (b_Index a) = Some a"
  proof
    fix a
    assume "a \<in> set bs"
    then obtain i where i: "i < length c" "a = bs ! i" unfolding in_set_conv_nth len by blast
    with at [OF i(1)] show "fmlookup (blocks_of log) (b_Hash a) = Some a \<and> file_GetBlockByHeight s (b_Index a) = Some a" by simp
  qed
  have look: "fmlookup (blocks_of bs) (b_Hash b) = Some b" if "b \<in> set bs" for b
    by (rule blocks_of_lookup [OF _ that, of "blocks_of log"]) (use own in blast)
  show thesis
  proof (rule that [OF range len])
    show "\<forall>i < length c. file_GetBlockByHeight s (word_of_nat i) = Some (bs ! i) \<and> fmlookup (blocks_of bs) (b_Hash (bs ! i)) = Some (bs ! i)"
      using at look len by simp
    show "\<forall>b. fmlookup (blocks_of log) (b_Hash b) = Some b \<longrightarrow> fmlookup (blocks_of bs) (b_Hash b) \<noteq> None \<longrightarrow>
      file_GetBlockByHeight s (b_Index b) = Some b"
    proof (intro allI impI)
      fix b
      assume b: "fmlookup (blocks_of log) (b_Hash b) = Some b" "fmlookup (blocks_of bs) (b_Hash b) \<noteq> None"
      from b(2) obtain a where "fmlookup (blocks_of bs) (b_Hash b) = Some a" by blast
      from blocks_of_set [OF this] own have a: "fmlookup (blocks_of log) (b_Hash b) = Some a" "file_GetBlockByHeight s (b_Index a) = Some a" by auto
      from a(1) b(1) have "a = b" by simp
      with a(2) show "file_GetBlockByHeight s (b_Index b) = Some b" by simp
    qed
  qed
qed

text \<open>
  C15: a fork on disk breaks a restart.  Let the directory hold any saved blocks of different hashes, with the
  chain \<open>c\<close> from a genesis block to the tip, numbered from 0, and let \<open>k\<close> be the greatest height at which the block
  that the store has for the height, the last one saved there, is not the block of \<open>c\<close>: a fork block was
  saved after it.  Then \<open>NewNode\<close> on that directory, with any snapshots, reports no error, and the canonical chain
  of the node is only the part of \<open>c\<close> above \<open>k\<close>: the parent of its first block is no longer among
  the node's blocks, so the chain is not well formed.  (Lines of at most 65535 bytes, as in C5.)
\<close>

theorem fork_lost_on_restart:
  assumes "file_ok J log s" "\<forall>b\<in>set log. json_block J b \<and> line_fits J b" "snapshots_are J m ss" "cf_DataDir cfg \<noteq> []"
    and "distinct (map b_Hash log)" "[] \<notin> b_Hash ` set log" "file_GetTip s = Some t"
    and "rooted (blocks_of log) (b_Hash t) c" "map b_Index c = map word_of_nat [0..<length c]" "length c < 2 ^ 64"
    and "Suc k < length c" "file_GetBlockByHeight s (word_of_nat k) \<noteq> Some (c ! k)"
    and "\<forall>i. k < i \<and> i < length c \<longrightarrow> file_GetBlockByHeight s (word_of_nat i) = Some (c ! i)"
  shows "\<exists>node. NewNode G J cfg clock (fs_disk s) (sn_disk ss) = Some (fs_disk s, sn_disk ss, Inr node) \<and>
    bc_Chain (nd_Chain node) = drop (Suc k) c \<and> b_PrevHash (hd (bc_Chain (nd_Chain node))) = b_Hash (c ! k) \<and>
    fmlookup (bc_Blocks (nd_Chain node)) (b_Hash (c ! k)) = None \<and> \<not> canonical_ok (nd_Chain node)"
proof -
  have mem: "s = memory_of log (fs_disk s)" using assms(1) by (simp add: file_ok_def)
  have own: "\<forall>h b. fmlookup (blocks_of log) h = Some b \<longrightarrow> b_Hash b = h" using blocks_of_set by blast
  have stored: "fmlookup (blocks_of log) (b_Hash (c ! i)) = Some (c ! i)" if "i < length c" for i
    using rooted_set [OF assms(8) nth_mem [OF that]] own by metis
  have idx: "b_Index (c ! i) = word_of_nat i" if "i < length c" for i using arg_cong [OF assms(9), of "\<lambda>xs. xs ! i"] that by simp
  have links: "b_PrevHash (c ! Suc i) = b_Hash (c ! i)" "b_PrevHash (c ! Suc i) \<noteq> ''GENESIS''" if "Suc i < length c" for i
    using rooted_links [OF assms(8) own that] by blast+
  have "fmlookup (fs_blocks s) (fs_tipHash s) = Some t" using assms(7) by (simp add: file_GetTip_def split: if_splits)
  moreover have "fs_blocks s = blocks_of log" by (rule file_ok_memory(1) [OF assms(1)])
  ultimately have tip: "t \<in> set log" "fmlookup (blocks_of log) (b_Hash t) = Some t" using blocks_of_set [of log "fs_tipHash s" t] by auto
  have t: "last c = t" using rooted_last [OF assms(8)] tip(2) by simp
  obtain bs where bs: "file_GetRange s 0 (b_Index (last c)) = Some (Inr bs)" "length bs = length c"
    "\<forall>i < length c. file_GetBlockByHeight s (word_of_nat i) = Some (bs ! i) \<and> fmlookup (blocks_of bs) (b_Hash (bs ! i)) = Some (bs ! i)"
    "\<forall>b. fmlookup (blocks_of log) (b_Hash b) = Some b \<longrightarrow> fmlookup (blocks_of bs) (b_Hash b) \<noteq> None \<longrightarrow>
      file_GetBlockByHeight s (b_Index b) = Some b"
    by (rule forked_range [OF mem assms(5,6,8-10)])
  have k: "k < length c" using assms(11) by simp
  have gone: "fmlookup (blocks_of bs) (b_Hash (c ! k)) = None"
    using bs(4) [THEN spec, of "c ! k"] stored [OF k] assms(12) by (auto simp: idx [OF k])
  have above: "fmlookup (blocks_of bs) (b_Hash (c ! i)) = Some (c ! i) \<and> b_PrevHash (c ! i) = b_Hash (c ! (i - 1)) \<and>
      b_PrevHash (c ! i) \<noteq> ''GENESIS''" if "k < i" "i < length c" for i
    using links [of "i - 1"] bs(3) [THEN spec, of i] assms(13) that by simp
  have last: "c ! (k + (length c - Suc k)) = t" using t k last_conv_nth [of c] by (cases "c = []") simp_all
  have walk: "canonical_walk (blocks_of bs) (b_Hash t) [] = Some (rev (drop (Suc k) c))"
    using canonical_walk_broken [OF above gone, of "length c - Suc k" "[]", unfolded last] k by simp
  have "b_Hash t \<noteq> []" using imageI [OF tip(1), of b_Hash] assms(6) by auto
  from NewNode_walk [OF assms(1-4,7) bs(1) [unfolded t] this walk, of G clock] obtain bc' where
    run: "NewNode G J cfg clock (fs_disk s) (sn_disk ss) = Some (fs_disk s, sn_disk ss, Inr \<lparr>nd_Chain =
      SetStorage (Some (file_block_store J s)) (Some (file_snapshot_store J ss)) (adopt G (b_Hash t) (drop (Suc k) c) bc')\<rparr>)"
    and b: "bc_Blocks bc' = blocks_of bs" by blast
  have hd: "hd (drop (Suc k) c) = c ! Suc k" by (rule hd_drop_conv_nth [OF assms(11)])
  have "\<not> rooted blocks h (drop (Suc k) c)" for blocks h using rooted_hd [of blocks h "drop (Suc k) c"] links(2) [OF assms(11)] hd by auto
  then show ?thesis
    using run b gone hd links(1) [OF assms(11)] by (simp add: SetStorage_def adopt_frame Let_def canonical_ok_def)
qed

definition forked_log :: "Block list" where
  "forked_log = [stored_block CHR ''g'' 0, stored_block CHR ''h'' 1, stored_block CHR ''j'' 1, stored_block CHR ''i'' 2]"

lemma forked_store:
  "file_GetTip (memory_of forked_log d) = Some (stored_block CHR ''i'' 2)"
  "file_GetBlockByHeight (memory_of forked_log d) 1 = Some (stored_block CHR ''j'' 1)"
  "file_GetBlockByHeight (memory_of forked_log d) 2 = Some (stored_block CHR ''i'' 2)"
  by (simp_all add: file_GetTip_def file_GetBlockByHeight_def forked_log_def memory_of_def remember_def stored_block_def
      zero_block_def Let_def word_le_nat_alt)

lemma forked_file: "\<exists>s. file_ok demo_json forked_log s"
proof -
  have up: "[0..<3] = [0, 1, 2 :: nat]" "[0..<2] = [0, 1 :: nat]" by (simp_all add: upt_rec)
  have ix: "json_index demo_json (index_of (memory_of [stored_block CHR ''g'' 0, stored_block CHR ''h'' 1, stored_block CHR ''j'' 1] d))"
    "json_index demo_json (index_of (memory_of [stored_block CHR ''g'' 0, stored_block CHR ''h'' 1, stored_block CHR ''j'' 1, stored_block CHR ''i'' 2] d))"
    for d
    by (simp_all add: json_index_def demo_json_def index_of_def memory_of_def remember_def stored_block_def zero_block_def
        Let_def word_le_nat_alt demo_chars up)
  obtain s where s: "file_ok demo_json [stored_block CHR ''g'' 0, stored_block CHR ''h'' 1] s" using demo_file_two by blast
  from file_SaveBlock_ok [OF s demo_block_ok(3)] ix(1) obtain s' where
    "file_ok demo_json [stored_block CHR ''g'' 0, stored_block CHR ''h'' 1, stored_block CHR ''j'' 1] s'" by auto
  from file_SaveBlock_ok [OF this demo_block_ok(4)] ix(2) show ?thesis unfolding forked_log_def by auto
qed

lemma forked_chain: "rooted (blocks_of forked_log) ''i'' [stored_block CHR ''g'' 0, stored_block CHR ''h'' 1, stored_block CHR ''i'' 2]"
proof -
  let ?B = "blocks_of forked_log"
  have look: "fmlookup ?B ''g'' = Some (stored_block CHR ''g'' 0)" "fmlookup ?B ''h'' = Some (stored_block CHR ''h'' 1)"
    "fmlookup ?B ''i'' = Some (stored_block CHR ''i'' 2)"
    by (simp_all add: forked_log_def stored_block_def)
  have g: "rooted ?B ''g'' [stored_block CHR ''g'' 0]" by (rule rooted.root [OF look(1)]) (simp add: stored_block_def)
  have h: "rooted ?B ''h'' ([stored_block CHR ''g'' 0] @ [stored_block CHR ''h'' 1])"
    by (rule rooted.child [OF look(2)]) (use g in \<open>simp_all add: stored_block_def\<close>)
  have "rooted ?B ''i'' (([stored_block CHR ''g'' 0] @ [stored_block CHR ''h'' 1]) @ [stored_block CHR ''i'' 2])"
    by (rule rooted.child [OF look(3)]) (use h in \<open>simp_all add: stored_block_def\<close>)
  then show ?thesis by simp
qed

text \<open>The chain \<open>g\<close>, \<open>h\<close>, \<open>i\<close> with a fork block \<open>j\<close> on \<open>g\<close>, saved after \<open>h\<close>: after a restart the chain is \<open>i\<close> alone.\<close>

theorem fork_lost_on_restart_witness:
  "\<exists>s (ss :: FileSnapshotStore) node. file_ok demo_json forked_log s \<and>
    NewNode demo_lib demo_json DefaultConfig None (fs_disk s) (sn_disk ss) = Some (fs_disk s, sn_disk ss, Inr node) \<and>
    bc_Chain (nd_Chain node) = [stored_block CHR ''i'' 2] \<and> \<not> canonical_ok (nd_Chain node)"
proof -
  let ?c = "[stored_block CHR ''g'' 0, stored_block CHR ''h'' 1, stored_block CHR ''i'' 2]"
  obtain s where s: "file_ok demo_json forked_log s" using forked_file by blast
  obtain ss where ss: "snapshots_are demo_json fmempty ss" using demo_snapshots by blast
  have json: "\<forall>b\<in>set forked_log. json_block demo_json b \<and> line_fits demo_json b"
    using demo_block_ok demo_line_fits by (simp add: forked_log_def)
  have dir: "cf_DataDir DefaultConfig \<noteq> []" by (simp add: DefaultConfig_def)
  have log: "distinct (map b_Hash forked_log)" "[] \<notin> b_Hash ` set forked_log"
    by (simp_all add: forked_log_def stored_block_def)
  have mem: "s = memory_of forked_log (fs_disk s)" using s by (simp add: file_ok_def)
  note store = forked_store [of "fs_disk s", folded mem]
  have c: "rooted (blocks_of forked_log) (b_Hash (stored_block CHR ''i'' 2)) ?c" "map b_Index ?c = map word_of_nat [0..<length ?c]"
    "length ?c < 2 ^ 64" "Suc 1 < length ?c"
    using forked_chain by (simp_all add: stored_block_def upt_rec)
  have at: "file_GetBlockByHeight s (word_of_nat 1) \<noteq> Some (?c ! 1)"
  proof
    assume "file_GetBlockByHeight s (word_of_nat 1) = Some (?c ! 1)"
    with store(2) have "stored_block CHR ''j'' 1 = stored_block CHR ''h'' 1" by simp
    from arg_cong [OF this, of b_Hash] show False by (simp add: stored_block_def)
  qed
  have "i = 2" if "1 < i \<and> i < length ?c" for i using that by auto
  moreover have "file_GetBlockByHeight s (word_of_nat 2) = Some (?c ! 2)" using store(3) by simp
  ultimately have above: "\<forall>i. 1 < i \<and> i < length ?c \<longrightarrow> file_GetBlockByHeight s (word_of_nat i) = Some (?c ! i)" by blast
  from fork_lost_on_restart [OF s json ss dir log store(1) c at above, of demo_lib None] s show ?thesis
    by (intro exI [of _ s] exI [of _ ss]) auto
qed

end
