(* ===== verification/Runs.thy ===== *)
theory Runs
  imports External Forks Recovery Verification
begin

text \<open>
  The node as a state machine: one step is one call of an exported method of \<open>Blockchain\<close> that can change it, in
  any order and with any arguments, and is labelled with the call.  The exported methods without a step are those
  that only read (\<open>GetAllEpochSnapshots\<close>, \<open>CanonicalTipHash\<close>, \<open>GetReorgStats\<close>, \<open>PrintReorgStats\<close>,
  \<open>GetValidatorSummaries\<close>) and \<open>RestoreFromStorage\<close>, which \<open>NewNode\<close> calls once, before the node runs.
  The steps themselves have no condition; the theorems ask of the two calls that add a block that the
  clock has room for one more slot (\<open>2^64\<close> ticks) and that the block they make has a new hash.
\<close>

section \<open>Steps\<close>

datatype ('bs, 'ss) call =
    CallAddBlock nat "Transaction list"
  | CallAddBlockExternal nat string "Transaction list"
  | CallAddTx Transaction
  | CallSelectTxsForBlock i64 string
  | CallSetBalance string i64
  | CallAddValidator string i64 string "PrivateKey option"
  | CallSetStorage "'bs BlockStore option" "'ss SnapshotStore option"
  | CallVerifyChain
  | CallScoreTip string
  | CallGetForkCandidates
  | CallGetEpochSnapshot u64
  | CallWeightDeltaRequired u64 u64
  | CallResetReorgStats

inductive node_step :: "golib \<Rightarrow> ('bs, 'ss) call \<Rightarrow> ('bs, 'ss) Blockchain \<Rightarrow> ('bs, 'ss) Blockchain \<Rightarrow> bool" for G where
  produce: "AddBlock G rnd txs bc = Some (bc', err) \<Longrightarrow> node_step G (CallAddBlock rnd txs) bc bc'"
| insert: "AddBlockExternal G rnd h txs bc = Some (bc', hash, err) \<Longrightarrow> node_step G (CallAddBlockExternal rnd h txs) bc bc'"
| submit: "AddTx G tx bc = (bc', err) \<Longrightarrow> node_step G (CallAddTx tx) bc bc'"
| select: "SelectTxsForBlock limit addr bc = (bc', txs) \<Longrightarrow> node_step G (CallSelectTxsForBlock limit addr) bc bc'"
| fund: "node_step G (CallSetBalance address amount) bc (SetBalance address amount bc)"
| join: "AddValidatorTo name stake pub priv bc = (bc', err) \<Longrightarrow> node_step G (CallAddValidator name stake pub priv) bc bc'"
| attach: "node_step G (CallSetStorage bst sst) bc (SetStorage bst sst bc)"
| verify: "VerifyChain G bc = Some (bc', err) \<Longrightarrow> node_step G CallVerifyChain bc bc'"
| score: "ScoreTip G h bc = Some (bc', s) \<Longrightarrow> node_step G (CallScoreTip h) bc bc'"
| tips: "GetForkCandidates G bc = Some (bc', cs) \<Longrightarrow> node_step G CallGetForkCandidates bc bc'"
| snapshot: "GetEpochSnapshot G slot bc = (bc', s) \<Longrightarrow> node_step G (CallGetEpochSnapshot slot) bc bc'"
| delta: "WeightDeltaRequired G old new bc = (bc', r) \<Longrightarrow> node_step G (CallWeightDeltaRequired old new) bc bc'"
| reset: "node_step G CallResetReorgStats bc (ResetReorgStats bc)"

inductive_cases node_stepE: "node_step G c bc bc'"

text \<open>
  The two conditions on a call: room on the clock, and a new hash for the block it makes.  A call that adds no
  block meets both.
\<close>

definition clock_room :: "('bs, 'ss) Blockchain \<Rightarrow> bool" where
  "clock_room bc \<longleftrightarrow> (\<forall>p. bc_poh bc = Some p \<longrightarrow> unat (p_CurrentTick p) + 20 < 2 ^ 64)"

fun has_room :: "('bs, 'ss) call \<Rightarrow> ('bs, 'ss) Blockchain \<Rightarrow> bool" where
  "has_room (CallAddBlock rnd txs) bc = clock_room bc"
| "has_room (CallAddBlockExternal rnd h txs) bc = clock_room bc"
| "has_room c bc = True"

fun makes_fresh :: "golib \<Rightarrow> ('bs, 'ss) call \<Rightarrow> ('bs, 'ss) Blockchain \<Rightarrow> bool" where
  "makes_fresh G (CallAddBlock rnd txs) bc = fresh_block G txs bc"
| "makes_fresh G (CallAddBlockExternal rnd h txs) bc = fresh_child G h txs bc"
| "makes_fresh G c bc = True"

abbreviation node_runs :: "golib \<Rightarrow> ('bs, 'ss) Blockchain \<Rightarrow> ('bs, 'ss) Blockchain \<Rightarrow> bool" where
  "node_runs G \<equiv> (\<lambda>x y. \<exists>c. node_step G c x y \<and> has_room c x \<and> makes_fresh G c x)\<^sup>*\<^sup>*"

section \<open>The invariant\<close>

text \<open>
  \<open>paced g blocks now\<close>: no block is later than \<open>now\<close>, \<open>g\<close> is the only root, and every child has a later
  slot and the next index.
\<close>

definition paced :: "Block \<Rightarrow> blocks \<Rightarrow> u64 \<Rightarrow> bool" where
  "paced g blocks now \<longleftrightarrow> (\<forall>h b. fmlookup blocks h = Some b \<longrightarrow> b_Slot b \<le> now \<and> (b_PrevHash b = ''GENESIS'' \<longrightarrow> b = g) \<and>
     (\<forall>a. fmlookup blocks (b_PrevHash b) = Some a \<longrightarrow> b_Slot a < b_Slot b \<and> b_Index b = b_Index a + 1))"

definition node_inv :: "golib \<Rightarrow> Block \<Rightarrow> ('bs, 'ss) Blockchain \<Rightarrow> bool" where
  "node_inv G g bc \<longleftrightarrow> canonical_ok bc \<and> parents_ok bc \<and> pool_ok G bc \<and> registered (bc_Validators bc) \<and>
     (\<exists>p. bc_poh bc = Some p \<and> paced g (bc_Blocks bc) (Slot p))"

lemma pacedD:
  assumes "paced g blocks now" "fmlookup blocks h = Some b"
  shows "b_Slot b \<le> now" "b_PrevHash b = ''GENESIS'' \<Longrightarrow> b = g"
    "fmlookup blocks (b_PrevHash b) = Some a \<Longrightarrow> b_Slot a < b_Slot b \<and> b_Index b = b_Index a + 1"
  using assms unfolding paced_def by blast+

lemma paced_later: "paced g blocks now \<Longrightarrow> now \<le> later \<Longrightarrow> paced g blocks later"
  unfolding paced_def by (meson order_trans)

lemma paced_insert:
  assumes "paced g blocks now" "now < b_Slot b" "fmlookup blocks h = Some parent" "b_PrevHash b = h" "h \<noteq> ''GENESIS''"
    and "b_Index b = b_Index parent + 1" "fmlookup blocks (b_Hash b) = None"
    and "\<And>k c. fmlookup blocks k = Some c \<Longrightarrow> b_PrevHash c \<noteq> b_Hash b"
  shows "paced g (fmupd (b_Hash b) b blocks) (b_Slot b)"
proof -
  have h: "h \<noteq> b_Hash b" using assms(3,7) by auto
  have "b_Slot c \<le> b_Slot b \<and> (b_PrevHash c = ''GENESIS'' \<longrightarrow> c = g) \<and>
      (\<forall>a. fmlookup (fmupd (b_Hash b) b blocks) (b_PrevHash c) = Some a \<longrightarrow> b_Slot a < b_Slot c \<and> b_Index c = b_Index a + 1)"
    if c: "fmlookup (fmupd (b_Hash b) b blocks) k = Some c" for k c
  proof (cases "k = b_Hash b")
    case True
    with c have "c = b" by simp
    moreover have "b_Slot parent < b_Slot b" using pacedD(1) [OF assms(1,3)] assms(2) by simp
    ultimately show ?thesis using assms(3-6) h by auto
  next
    case False
    with c have k: "fmlookup blocks k = Some c" by simp
    have "b_Slot c \<le> b_Slot b" using pacedD(1) [OF assms(1) k] assms(2) by simp
    with pacedD(2,3) [OF assms(1) k] assms(8) [OF k] show ?thesis by simp
  qed
  then show ?thesis unfolding paced_def by blast
qed

lemma node_inv_frame:
  assumes "node_inv G g bc" "bc_Chain bc' = bc_Chain bc" "bc_Blocks bc' = bc_Blocks bc" "bc_Parents bc' = bc_Parents bc"
    and "bc_CanonicalTip bc' = bc_CanonicalTip bc" "pool_ok G bc'" "bc_poh bc' = bc_poh bc"
    and "registered (bc_Validators bc')"
  shows "node_inv G g bc'"
  using assms by (simp add: node_inv_def canonical_ok_def parents_ok_def)

lemma no_orphans:
  assumes "tree_ok blocks" "fmlookup blocks k = Some c" "fmlookup blocks h = None" "h \<noteq> ''GENESIS''"
  shows "b_PrevHash c \<noteq> h"
proof
  assume h: "b_PrevHash c = h"
  from tree_okD(4) [OF assms(1,2)] obtain d where "rooted blocks k d" by blast
  with rooted_simps [OF assms(2)] h assms(4) obtain d' where "rooted blocks h d'" by auto
  from rooted_last [OF this] assms(3) show False by simp
qed

lemma clock_advances:
  assumes "bc_poh bc = Some p" "clock_room bc" "q = fst (Tick G p TicksPerSlot)"
  shows "Slot p < Slot q"
proof -
  have room: "unat (p_CurrentTick p) + 20 < 2 ^ 64" using assms(1,2) by (simp add: clock_room_def)
  then have "p_CurrentTick q = p_CurrentTick p + 20"
    using tick_power [of p 20 G] by (simp add: assms(3) Tick_power Let_def TicksPerSlot_def)
  with room have "unat (p_CurrentTick q) = unat (p_CurrentTick p) + 20" by (simp add: unat_word_ariths)
  then have "unat (Slot q) = Suc (unat (Slot p))" by (simp add: unat_Slot)
  then show ?thesis by (simp add: word_less_nat_alt)
qed

lemma node_inv_committed:
  assumes "node_inv G g bc" "bc_poh bc = Some p" "clock_room bc" "q = fst (Tick G p TicksPerSlot)"
    and "drafted G bc parent q state ts b" "fmlookup (bc_Blocks bc) h = Some parent" "fmlookup (bc_Blocks bc) (b_Hash b) = None" "untouched bc bc1"
    and "bc_poh bc1 = Some q" "commit_block G b v bc1 = Some (bc', err)"
  shows "node_inv G g bc' \<and> keeps_final bc bc'"
proof -
  have ok: "canonical_ok bc" "parents_ok bc" "pool_ok G bc" and pace: "paced g (bc_Blocks bc) (Slot p)"
    using assms(1,2) by (auto simp: node_inv_def)
  note tree = canonical_okD(1) [OF ok(1)]
  note fresh = assms(7)
  have tip: "chainTipSlot bc \<noteq> - 1"
  proof
    assume "chainTipSlot bc = - 1"
    then have "b_Slot (last (bc_Chain bc)) = - 1" using canonical_okD(4) [OF ok(1)] by (simp add: chainTipSlot_def last_conv_nth)
    with pacedD(1) [OF pace rooted_last [OF canonical_okD(3) [OF ok(1)]]] Slot_not_max [of p] show False
      by (simp add: word_order.extremum_unique)
  qed
  from commit_on_parent [OF ok(1) assms(8) tip assms(5,6) fresh, of v] assms(10) have
    r: "canonical_ok bc'" "bc_Blocks bc' = fmupd (b_Hash b) b (bc_Blocks bc)"
      "bc_Parents bc' = fmupd (b_Hash b) (b_PrevHash b) (bc_Parents bc)" "\<forall>G. pool_ok G bc \<longrightarrow> pool_ok G bc'"
      "bc_poh bc' = bc_poh bc1" "keeps_final bc bc'" "setup_kept bc bc'"
    by auto
  have later: "Slot p < Slot q" by (rule clock_advances [OF assms(2-4)])
  have b: "b_Slot b = Slot q" "b_PrevHash b = h" "b_Index b = b_Index parent + 1" "b_Hash b \<noteq> ''GENESIS''"
  proof -
    show "b_Slot b = Slot q" "b_Index b = b_Index parent + 1" using draftedD [OF assms(5)] by simp_all
    show "b_PrevHash b = h" using draftedD(1) [OF assms(5)] tree_okD(1) [OF tree assms(6)] by simp
    have "fmlookup (bc_Blocks bc') (b_Hash b) = Some b" by (simp add: r(2))
    with canonical_okD(1) [OF r(1)] show "b_Hash b \<noteq> ''GENESIS''" by (rule tree_okD(3))
  qed
  have "paced g (bc_Blocks bc') (Slot q)"
    unfolding r(2) b(1) [symmetric]
    by (rule paced_insert [OF pace _ assms(6) b(2) tree_okD(3) [OF tree assms(6)] b(3) fresh])
      (use later b(1) no_orphans [OF tree _ fresh b(4)] in auto)
  moreover have "parents_ok bc'" using ok(2) by (simp add: parents_ok_def r(2,3) fmmap_fmupd)
  moreover have "registered (bc_Validators bc')"
    using r(7) assms(1) registered_from by (auto simp: setup_kept_def node_inv_def)
  ultimately show ?thesis using r ok(3) assms(9) by (simp add: node_inv_def)
qed

lemma node_inv_untouched:
  assumes "node_inv G g bc" "untouched bc bc'" "bc_poh bc = Some p" "clock_room bc" "bc_poh bc' = Some (fst (Tick G p TicksPerSlot))"
  shows "node_inv G g bc' \<and> keeps_final bc bc'"
proof -
  have ok: "canonical_ok bc" "parents_ok bc" "pool_ok G bc" and pace: "paced g (bc_Blocks bc) (Slot p)"
    using assms(1,3) by (auto simp: node_inv_def)
  have same: "bc_Blocks bc' = bc_Blocks bc" "bc_Parents bc' = bc_Parents bc" "bc_Chain bc' = bc_Chain bc"
    "bc_FinalizedSlot bc' = bc_FinalizedSlot bc" "pool_ok G bc'"
    using assms(2) ok(3) by (simp_all add: untouched_def)
  have "registered (bc_Validators bc')" using assms(1,2) registered_from by (auto simp: untouched_def node_inv_def)
  note same = same this
  have "paced g (bc_Blocks bc) (Slot (fst (Tick G p TicksPerSlot)))"
    using paced_later [OF pace less_imp_le [OF clock_advances [OF assms(3,4) refl]]] .
  then show ?thesis
    using canonical_ok_untouched [OF assms(2)] ok same assms(5) by (simp add: node_inv_def parents_ok_def keeps_final_same)
qed

lemma node_inv_only:
  assumes "node_inv G g bc" "only_snapshots bc bc'"
  shows "node_inv G g bc' \<and> keeps_final bc bc'"
proof -
  note frame = only_snapshots_frame [OF assms(2)]
  have "pool_ok G bc'" using assms(1) by (simp add: node_inv_def pool_ok_def frame(18))
  moreover have "registered (bc_Validators bc')" using assms(1) by (simp add: node_inv_def frame)
  ultimately have "node_inv G g bc'" by (rule node_inv_frame [OF assms(1) frame(1,2,3,4) _ frame(7)])
  with keeps_final_same [OF frame(1,14)] show ?thesis by blast
qed

lemma AddTx_pool:
  assumes "sort_slice_correct G" "pool_ok G bc" "AddTx G tx bc = (bc', err)"
  shows "pool_ok G bc'"
proof -
  let ?m = "case bc_Mempool bc of None \<Rightarrow> NewMempool | Some m \<Rightarrow> m"
  have m: "mempool_ok G ?m" using assms(2) mempool_ok_new by (auto simp: pool_ok_def split: option.split)
  obtain m' where a: "Mempool.Add G ?m tx = (m', err)" and bc': "bc' = bc\<lparr>bc_Mempool := Some m'\<rparr>"
    using assms(3) by (auto simp: AddTx_def Let_def split: prod.splits)
  have "mempool_ok G m'"
  proof (cases err)
    case None
    with a Add_inserts [OF assms(1) m] show ?thesis by blast
  next
    case (Some e)
    with a have "m' = ?m" by (auto simp: Add_def Let_def split: option.splits if_splits prod.splits)
    with m show ?thesis by simp
  qed
  then show ?thesis by (simp add: bc' pool_ok_def)
qed

lemma AddBlock_inv:
  assumes "node_inv G g bc" "AddBlock G rnd txs bc = Some (bc', err)" "clock_room bc"
    and "fresh_block G txs bc"
  shows "node_inv G g bc' \<and> keeps_final bc bc'"
proof -
  have ok: "canonical_ok bc" "parents_ok bc" "pool_ok G bc" using assms(1) by (auto simp: node_inv_def)
  obtain p where p: "bc_poh bc = Some p" using assms(1) by (auto simp: node_inv_def)
  show ?thesis
  proof (cases "bc_Validators bc = fmempty")
    case True
    with assms(2) assms(1) show ?thesis by (simp add: AddBlock_def keeps_final_same)
  next
    case False
    note prev = canonical_tip_block [OF ok(1)]
    show ?thesis
    proof (rule AddBlock_cases [OF False p, of G rnd txs, unfolded prev(1)])
      fix bc'' e
      assume r: "AddBlock G rnd txs bc = Some (bc'', Some e)" "untouched bc bc''" "bc_poh bc'' = Some (fst (Tick G p TicksPerSlot))"
      with assms(2) have "bc'' = bc'" by simp
      with node_inv_untouched [OF assms(1) r(2) p assms(3) r(3)] show ?thesis by simp
    next
      fix bc1 b
      let ?ts = "snd (selection bc (validatorRewardAddress G (bc_Validators bc) (leader_view G bc (Slot (fst (Tick G p TicksPerSlot))))) txs)"
      assume r: "drafted G bc (last (bc_Chain bc)) (fst (Tick G p TicksPerSlot)) (bc_State bc) ?ts b" "untouched bc bc1"
          "bc_poh bc1 = Some (fst (Tick G p TicksPerSlot))"
          "AddBlock G rnd txs bc = commit_block G b (leader_view G bc (Slot (fst (Tick G p TicksPerSlot)))) bc1"
      have fresh: "fmlookup (bc_Blocks bc) (b_Hash b) = None"
        by (rule drafted_unstored [OF r(1)]) (use p assms(4) in \<open>simp add: fresh_block_def next_draft_def\<close>)
      from node_inv_committed [OF assms(1) p assms(3) refl r(1) prev(3) fresh r(2,3) r(4) [symmetric, unfolded assms(2)]]
      show ?thesis .
    qed
  qed
qed

lemma AddBlockExternal_inv:
  assumes "node_inv G g bc" "AddBlockExternal G rnd h txs bc = Some (bc', hash, err)" "clock_room bc"
    and "fresh_child G h txs bc"
  shows "node_inv G g bc' \<and> keeps_final bc bc'"
proof -
  have ok: "canonical_ok bc" "parents_ok bc" "pool_ok G bc" using assms(1) by (auto simp: node_inv_def)
  obtain p where p: "bc_poh bc = Some p" using assms(1) by (auto simp: node_inv_def)
  show ?thesis
  proof (cases "bc_Validators bc = fmempty \<or> fmlookup (bc_Blocks bc) h = None")
    case True
    with assms(2) assms(1) p show ?thesis by (auto simp: AddBlockExternal_def keeps_final_same split: if_splits)
  next
    case False
    then obtain parent where v: "bc_Validators bc \<noteq> fmempty" and h: "fmlookup (bc_Blocks bc) h = Some parent" by blast
    from tree_okD(4) [OF canonical_okD(1) [OF ok(1)] h] obtain c where c: "rooted (bc_Blocks bc) h c" by blast
    show ?thesis
    proof (rule AddBlockExternal_cases [OF ok(1) v p h c, of G rnd txs])
      fix bc'' e
      assume r: "AddBlockExternal G rnd h txs bc = Some (bc'', [], Some e)" "untouched bc bc''"
        "bc_poh bc'' = Some (fst (Tick G p TicksPerSlot))"
      with assms(2) have "bc'' = bc'" by simp
      with node_inv_untouched [OF assms(1) r(2) p assms(3) r(3)] show ?thesis by simp
    next
      fix bc1 b s
      assume r: "drafted G bc parent (fst (Tick G p TicksPerSlot)) s txs b" "untouched bc bc1" "bc_poh bc1 = Some (fst (Tick G p TicksPerSlot))"
        and s: "replay G (bc_Validators bc) (drop 1 c) (bc_Genesis bc) = Inr s"
        and run: "AddBlockExternal G rnd h txs bc = do {
          (bc', err) \<leftarrow> commit_block G b (leader_view G bc (Slot (fst (Tick G p TicksPerSlot)))) bc1; Some (bc', b_Hash b, err) }"
      have "fmlookup (bc_Blocks bc) (b_Hash b) = None" by (rule fresh_childD [OF assms(4) ok(1) p h c s r(1)])
      moreover obtain e where "commit_block G b (leader_view G bc (Slot (fst (Tick G p TicksPerSlot)))) bc1 = Some (bc', e)"
        using assms(2) run by (auto simp: bind_eq_Some_conv)
      ultimately show ?thesis using node_inv_committed [OF assms(1) p assms(3) refl r(1) h _ r(2,3)] by blast
    qed
  qed
qed

lemma node_inv_still:
  assumes "node_inv G g bc" "untouched bc bc'" "bc_poh bc' = bc_poh bc"
  shows "node_inv G g bc' \<and> keeps_final bc bc'"
proof -
  have ok: "canonical_ok bc" "pool_ok G bc" "registered (bc_Validators bc)" using assms(1) by (auto simp: node_inv_def)
  have "pool_ok G bc'" "registered (bc_Validators bc')" using assms(2) ok(2,3) registered_from by (auto simp: untouched_def)
  then have "node_inv G g bc'"
    using assms(2) by (intro node_inv_frame [OF assms(1) _ _ _ _ _ assms(3)]) (simp_all add: untouched_def)
  moreover have "keeps_final bc bc'" using assms(2) by (intro keeps_final_same) (simp_all add: untouched_def)
  ultimately show ?thesis ..
qed

lemma ScoreTip_only:
  assumes "canonical_ok bc" "ScoreTip G h bc = Some (bc', s)"
  shows "only_snapshots bc bc'"
proof (cases "fmlookup (bc_Blocks bc) h")
  case None
  with assms(2) show ?thesis by (simp add: ScoreTip_def scoreTip_def)
next
  case (Some b)
  from tree_okD(4) [OF canonical_okD(1) [OF assms(1)] Some] obtain c where "rooted (bc_Blocks bc) h c" by blast
  from scoreTip_rooted [OF this, of G] assms(2) show ?thesis by (auto simp: ScoreTip_def)
qed

lemma GetForkCandidates_only:
  assumes "canonical_ok bc" "parents_ok bc" "GetForkCandidates G bc = Some (bc', cs)"
  shows "only_snapshots bc bc'"
proof -
  obtain bc2 cs2 where "GetForkCandidates G bc = Some (bc2, sort_key (score_key \<circ> candidate_score) cs2)" "only_snapshots bc bc2"
    by (rule GetForkCandidates_run [OF assms(1,2), of G])
  with assms(3) show ?thesis by simp
qed

lemma node_step_inv:
  assumes "node_step G c bc bc'" "has_room c bc" "makes_fresh G c bc" "sort_slice_correct G" "node_inv G g bc"
  shows "node_inv G g bc' \<and> keeps_final bc bc'"
proof -
  have ok: "canonical_ok bc" "parents_ok bc" "pool_ok G bc" "registered (bc_Validators bc)" using assms(5) by (auto simp: node_inv_def)
  note same = node_inv_frame [OF assms(5)] keeps_final_same
  show ?thesis
    using assms(1)
  proof cases
    case (produce rnd txs err)
    from AddBlock_inv [OF assms(5) produce(2)] assms(2,3) show ?thesis by (simp add: produce(1))
  next
    case (insert rnd h txs hash err)
    from AddBlockExternal_inv [OF assms(5) insert(2)] assms(2,3) show ?thesis by (simp add: insert(1))
  next
    case (submit tx err)
    have pool: "pool_ok G bc'" by (rule AddTx_pool [OF assms(4) ok(3) submit(2)])
    obtain m where "bc' = bc\<lparr>bc_Mempool := Some m\<rparr>" using submit(2) by (auto simp: AddTx_def Let_def split: prod.splits)
    with pool ok(4) show ?thesis by (intro conjI same) simp_all
  next
    case (select limit addr txs)
    have "bc_poh bc' = bc_poh bc" using select(2) by (auto simp: SelectTxsForBlock_def Let_def split: option.splits prod.splits)
    with node_inv_still [OF assms(5) untouched_select [OF select(2)]] show ?thesis by blast
  next
    case (verify err)
    show ?thesis by (rule node_inv_still [OF assms(5) blamed_untouched [OF VerifyChain_blamed [OF verify(2)]]])
  next
    case (fund address amount)
    then show ?thesis using ok(3,4) by (auto intro!: same simp: SetBalance_def pool_ok_def Let_def)
  next
    case (join name stake pub priv err)
    then show ?thesis using ok(3,4) by (auto intro!: same simp: AddValidatorTo_def pool_ok_def Let_def split: prod.splits dest: registered_AddValidator)
  next
    case (attach bst sst)
    then show ?thesis using ok(3,4) by (auto intro!: same simp: SetStorage_def pool_ok_def Let_def)
  next
    case (score h s)
    show ?thesis by (rule node_inv_only [OF assms(5) ScoreTip_only [OF ok(1) score(2)]])
  next
    case (tips cs)
    show ?thesis by (rule node_inv_only [OF assms(5) GetForkCandidates_only [OF ok(1,2) tips(2)]])
  next
    case (snapshot slot s)
    then have "bc' = ensureSnapshot G (epochForSlot slot bc) bc" by (simp add: GetEpochSnapshot_def snapshotForSlot_view)
    with node_inv_only [OF assms(5) ensureSnapshot_only(1)] show ?thesis by simp
  next
    case (delta old new r)
    then have "bc' = ensureSnapshot G (epochForSlot (chainTipSlot bc) bc) bc"
      by (simp add: WeightDeltaRequired_def weightDeltaRequired_def activeStake_view Let_def)
    with node_inv_only [OF assms(5) ensureSnapshot_only(1)] show ?thesis by simp
  next
    case reset
    then show ?thesis using ok(3,4) by (auto intro!: same simp: ResetReorgStats_def pool_ok_def)
  qed
qed

lemma node_steps_inv:
  assumes "node_runs G bc bc'" "sort_slice_correct G" "node_inv G g bc"
  shows "node_inv G g bc'"
  using assms by (induction rule: rtranclp_induct) (auto dest: node_step_inv)

section \<open>Chains of a node\<close>

lemma strict_below_last:
  fixes xs :: "u64 list"
  assumes "sorted_wrt (<) xs" "x \<in> set xs"
  shows "x \<le> last xs"
proof (cases xs rule: rev_cases)
  case Nil
  with assms(2) show ?thesis by simp
next
  case (snoc ys y)
  with assms show ?thesis by (auto simp: sorted_wrt_append intro: less_imp_le)
qed

lemma strict_length: "sorted_wrt (<) (xs :: u64 list) \<Longrightarrow> xs \<noteq> [] \<Longrightarrow> length xs \<le> Suc (unat (last xs))"
proof (induction xs rule: rev_induct)
  case (snoc x xs)
  show ?case
  proof (cases "xs = []")
    case False
    then have "last xs \<in> set xs" by simp
    with snoc.prems(1) have "unat (last xs) < unat x" by (simp add: sorted_wrt_append word_less_nat_alt)
    moreover have "length xs \<le> Suc (unat (last xs))" using snoc False by (simp add: sorted_wrt_append)
    ultimately show ?thesis by simp
  qed simp
qed simp

lemma paced_chain:
  "rooted blocks h c \<Longrightarrow> paced g blocks now \<Longrightarrow> sorted_wrt (<) (map b_Slot c) \<and> hd c = g \<and>
    map b_Index c = map (\<lambda>i. b_Index g + word_of_nat i) [0..<length c]"
proof (induction rule: rooted.induct)
  case (root h b)
  with pacedD(2) [OF root.prems root.hyps(1)] show ?case by simp
next
  case (child h b c)
  note IH = child.IH [OF child.prems]
  have ne: "c \<noteq> []" by (rule rooted_nonempty [OF child.hyps(3)])
  from pacedD(3) [OF child.prems child.hyps(1) rooted_last [OF child.hyps(3)]]
  have b: "b_Slot (last c) < b_Slot b" "b_Index b = b_Index (last c) + 1" by auto
  have "s < b_Slot b" if "s \<in> set (map b_Slot c)" for s
    using strict_below_last [OF _ that] IH b(1) ne by (auto simp: last_map)
  then have "sorted_wrt (<) (map b_Slot (c @ [b]))" using IH by (simp add: sorted_wrt_append)
  moreover have "b_Index b = b_Index g + word_of_nat (length c)"
  proof -
    have "b_Index (last c) = map b_Index c ! (length c - 1)" using ne by (simp add: last_conv_nth)
    then have "b_Index (last c) = b_Index g + word_of_nat (length c - 1)" using IH ne by simp
    moreover have "length c = Suc (length c - 1)" using ne by simp
    then have "(word_of_nat (length c) :: u64) = word_of_nat (length c - 1) + 1" by (metis add.commute of_nat_Suc)
    ultimately show ?thesis using b(2) by simp
  qed
  ultimately show ?case using IH ne by (simp add: hd_append)
qed

lemma node_chain:
  assumes "node_inv G g bc" "b_Index g = 0"
  shows "sorted_wrt (<) (map b_Slot (bc_Chain bc))" "hd (bc_Chain bc) = g" "linked (bc_Chain bc)"
proof -
  have ok: "canonical_ok bc" using assms(1) by (simp add: node_inv_def)
  obtain p where pace: "paced g (bc_Blocks bc) (Slot p)" using assms(1) by (auto simp: node_inv_def)
  let ?c = "bc_Chain bc"
  note c = canonical_okD(3,4) [OF ok]
  note P = paced_chain [OF c(1) pace]
  from P show sorted: "sorted_wrt (<) (map b_Slot ?c)" and root: "hd ?c = g" by auto
  have at: "fmlookup (bc_Blocks bc) (b_Hash b) = Some b \<and> b_Hash b \<noteq> [] \<and> b_Hash b \<noteq> ''GENESIS''" if "b \<in> set ?c" for b
    using rooted_set [OF c(1) that] tree_okD(1-3) [OF canonical_okD(1) [OF ok]] by metis
  have "distinct (map b_Slot ?c)" using sorted by (simp add: strict_sorted_iff)
  then have dist: "distinct ?c" by (simp add: distinct_map)
  have "inj_on b_Hash (set ?c)" by (rule inj_onI) (metis at option.inject)
  with dist have "distinct (map b_Hash ?c)" by (simp add: distinct_map)
  moreover have "b_PrevHash (hd ?c) = ''GENESIS''" by (rule rooted_hd [OF c(1)])
  moreover have "\<forall>i. Suc i < length ?c \<longrightarrow> b_PrevHash (?c ! Suc i) = b_Hash (?c ! i)"
    using rooted_links [OF c(1)] tree_okD(1) [OF canonical_okD(1) [OF ok]] by blast
  moreover have "map b_Index ?c = map word_of_nat [0..<length ?c]" using P assms(2) by simp
  moreover have "length ?c < 2 ^ 64"
  proof -
    have "length ?c \<le> Suc (unat (b_Slot (last ?c)))" using strict_length [OF sorted] c(2) by (simp add: last_map)
    moreover have "b_Slot (last ?c) \<le> Slot p" by (rule pacedD(1) [OF pace rooted_last [OF c(1)]])
    then have "unat (b_Slot (last ?c)) \<le> unat (Slot p)" by (simp add: word_le_nat_alt)
    moreover have "unat (Slot p) \<le> (2 ^ 64 - 1) div 20"
      using unat_bound64 [of "p_CurrentTick p"] unfolding unat_Slot by (intro div_le_mono) simp
    ultimately show ?thesis by simp
  qed
  moreover have "h \<noteq> [] \<and> h \<noteq> ''GENESIS''" if "h \<in> b_Hash ` set ?c" for h
  proof -
    from that obtain b where "b \<in> set ?c" "h = b_Hash b" by (rule imageE)
    with at show ?thesis by simp
  qed
  then have "[] \<notin> b_Hash ` set ?c" "''GENESIS'' \<notin> b_Hash ` set ?c" by blast+
  ultimately show "linked ?c" unfolding linked_def using c(2) by blast
qed

lemma node_start:
  assumes "NewBlockchain G cfg clock = Some (bc :: ('bs, 'ss) Blockchain)"
  shows "node_inv G (genesis_block G (fresh_seed cfg clock)) bc"
proof -
  let ?g = "genesis_block G (fresh_seed cfg clock)"
  from NewBlockchain_run [of G cfg clock, where 'bs = 'bs and 'ss = 'ss] assms have
    bc: "bc_Chain bc = [?g]" "bc_Blocks bc = fmupd (b_Hash ?g) ?g fmempty" "bc_CanonicalTip bc = b_Hash ?g"
      "bc_Parents bc = fmupd (b_Hash ?g) (b_PrevHash ?g) fmempty" "bc_Mempool bc = Some NewMempool"
      "bc_poh bc = Some (NewPoH (HashPoHSeed G (Int63 G (fresh_seed cfg clock))))"
      "bc_Validators bc = fmempty"
    by auto
  have "canonical_ok bc"
    unfolding canonical_ok_def bc using tree_ok_singleton [OF _ refl, of ?g] rooted.root [of "fmupd (b_Hash ?g) ?g fmempty" "b_Hash ?g" ?g]
    by (simp add: genesis_block_fields genesis_hash_fresh)
  moreover have "paced ?g (bc_Blocks bc) s" for s
    using genesis_hash_fresh(2) [of G "fresh_seed cfg clock"] by (auto simp: paced_def bc genesis_block_fields split: if_splits)
  moreover have "pool_ok G bc" by (simp add: pool_ok_def bc mempool_ok_new)
  moreover have "parents_ok bc" by (simp add: parents_ok_def bc fmmap_fmupd)
  ultimately show ?thesis by (simp add: node_inv_def bc(6,7))
qed

section \<open>Properties\<close>

text \<open>
  C3: the invariant of a running node.  After any sequence of calls of the exported methods that change a chain
  (all but \<open>RestoreFromStorage\<close>, which is called before the node runs), on a new chain, the canonical chain starts at the
  genesis block, its blocks are linked by their parents' hashes, numbered from 0 and of strictly rising
  slots, it ends in the canonical tip, every stored block has a chain down to the genesis block, the
  parent map agrees with the blocks, the mempool is well formed, and every validator is filed under its own
  name with a public key.  Two conditions on the calls that add a block: the clock has room for one more slot
  before \<open>2^64\<close> ticks, and the hash of the block that the call makes is not that of a stored block.
  (\<open>sort.Slice\<close> is assumed to sort.)
\<close>

theorem node_invariant:
  assumes "sort_slice_correct G" "NewBlockchain G cfg clock = Some bc0"
    and "(\<lambda>x y. \<exists>c. node_step G c x y \<and> has_room c x \<and> makes_fresh G c x)\<^sup>*\<^sup>* bc0 bc"
  shows "canonical_ok bc \<and> linked (bc_Chain bc) \<and> sorted_wrt (<) (map b_Slot (bc_Chain bc)) \<and>
    hd (bc_Chain bc) = genesis_block G (fresh_seed cfg clock) \<and> b_Hash (last (bc_Chain bc)) = bc_CanonicalTip bc \<and>
    parents_ok bc \<and> pool_ok G bc \<and> registered (bc_Validators bc)"
proof -
  have inv: "node_inv G (genesis_block G (fresh_seed cfg clock)) bc"
    by (rule node_steps_inv [OF assms(3,1) node_start [OF assms(2)]])
  with node_chain [OF inv] canonical_tip_block(2) show ?thesis
    by (auto simp: node_inv_def genesis_block_fields)
qed

text \<open>
  C4: finality is for ever.  In a running node the finalized slot never decreases, and a canonical block at
  or below it stays at its place in the canonical chain after any further sequence of calls, as in C3: of every
  exported method that changes a chain but \<open>RestoreFromStorage\<close>, where a call that adds a block has room on the
  clock for one more slot and makes a block whose hash is not that of a stored block.
\<close>

theorem finality_for_ever:
  assumes "sort_slice_correct G" "NewBlockchain G cfg clock = Some bc0"
    and "(\<lambda>x y. \<exists>c. node_step G c x y \<and> has_room c x \<and> makes_fresh G c x)\<^sup>*\<^sup>* bc0 bc"
    and "(\<lambda>x y. \<exists>c. node_step G c x y \<and> has_room c x \<and> makes_fresh G c x)\<^sup>*\<^sup>* bc bc'"
    and "i < length (bc_Chain bc)" "b_Slot (bc_Chain bc ! i) \<le> bc_FinalizedSlot bc"
  shows "bc_FinalizedSlot bc \<le> bc_FinalizedSlot bc' \<and> i < length (bc_Chain bc') \<and> bc_Chain bc' ! i = bc_Chain bc ! i"
proof -
  let ?g = "genesis_block G (fresh_seed cfg clock)"
  have g: "b_Index ?g = 0" "b_Slot ?g = 0" by (simp_all add: genesis_block_fields)
  have inv: "node_inv G ?g bc" by (rule node_steps_inv [OF assms(3,1) node_start [OF assms(2)]])
  have inv': "node_inv G ?g bc'" by (rule node_steps_inv [OF assms(4,1) inv])
  have keep: "keeps_final bc bc'" using assms(4)
  proof (induction rule: rtranclp_induct)
    case base
    show ?case by (rule keeps_final_same) simp_all
  next
    case (step y z)
    have y: "node_inv G ?g y" by (rule node_steps_inv [OF step.hyps(1) assms(1) inv])
    from step.hyps(2) node_step_inv [OF _ _ _ assms(1) y] have "keeps_final y z" by blast
    with node_chain(1) [OF y g(1)] show ?case
      by (intro keeps_final_trans [OF step.IH]) (auto simp: strict_sorted_iff)
  qed
  show ?thesis
  proof (cases "0 < bc_FinalizedSlot bc")
    case True
    with keep assms(5,6) node_chain(1) [OF inv g(1)] show ?thesis by (simp add: keeps_final_def strict_sorted_iff)
  next
    case False
    then have zero: "b_Slot (bc_Chain bc ! i) = 0" using assms(6) by (metis word_gt_0 word_le_0_iff)
    have "i = 0"
    proof (rule ccontr)
      assume "i \<noteq> 0"
      with node_chain(1) [OF inv g(1)] assms(5) have "b_Slot (bc_Chain bc ! 0) < b_Slot (bc_Chain bc ! i)"
        by (simp add: sorted_wrt_iff_nth_less)
      with zero show False by simp
    qed
    moreover have "bc_Chain bc \<noteq> []" "bc_Chain bc' \<noteq> []"
      using inv inv' canonical_okD(4) unfolding node_inv_def by blast+
    ultimately show ?thesis
      using keep node_chain(2) [OF inv g(1)] node_chain(2) [OF inv' g(1)] by (simp add: keeps_final_def hd_conv_nth)
  qed
qed

end
