(* ===== verification/Scenario.thy ===== *)
theory Scenario
  imports Adding Runs
begin

text \<open>
  A run of a node up to finality, with \<open>demo_lib\<close> for the library: alice registers, leads every slot of the
  first epoch, and her second block makes her first one final.  It shows that the hypotheses of the
  properties about runs can hold on a chain longer than the genesis block.
\<close>

section \<open>A node with one validator\<close>

definition solo_config :: ChainConfig where
  "solo_config = demo_config\<lparr>cfg_FinalitySlots := 1\<rparr>"

abbreviation solo_genesis :: Block where
  "solo_genesis \<equiv> genesis_block demo_lib (fresh_seed solo_config None)"

definition alice_stake :: stakes where
  "alice_stake = fmupd ''alice'' 200 fmempty"

definition chain_heads :: "Block list \<Rightarrow> (u64 \<times> u64 \<times> string) list" where
  "chain_heads c = map (\<lambda>b. (b_Index b, b_Slot b, b_Validator b)) c"

text \<open>\<open>solo n bc\<close>: \<open>n\<close> slots have passed, each with a block by alice on the chain.\<close>

definition solo :: "nat \<Rightarrow> (unit, unit) Blockchain \<Rightarrow> bool" where
  "solo n bc \<longleftrightarrow> node_inv demo_lib solo_genesis bc \<and> bc_Config bc = solo_config \<and> bc_blockStore bc = None \<and>
     (\<exists>p. bc_poh bc = Some p \<and> p_CurrentTick p = 20 * of_nat n) \<and>
     (\<exists>s. fmlookup (bc_snapshots bc) 0 = Some s \<and> es_Validators s = alice_stake \<and> es_TotalStake s = 200) \<and>
     (\<forall>s. fmlookup (bc_SlotProducers bc) s \<noteq> None \<longrightarrow> s \<le> of_nat n) \<and>
     (\<forall>v. fmlookup (bc_Validators bc) ''alice'' = Some v \<longrightarrow> can_sign demo_lib 0 v) \<and>
     chain_heads (bc_Chain bc) = (0, 0, ''genesis'') # map (\<lambda>i. (of_nat i, of_nat i, ''alice'')) [1..<Suc n] \<and>
     bc_FinalizedSlot bc = of_nat (n - 1) \<and>
     (\<forall>h b. fmlookup (bc_Blocks bc) h = Some b \<longrightarrow> b_Hash b = hash_of_block demo_lib b \<and> b_Index b \<le> of_nat n)"

lemma solo_fields:
  "cfg_FinalitySlots solo_config = 1" "cfg_EpochLength solo_config = 50" "cfg_MinReorgWeightDeltaP solo_config = 10"
  "cfg_MaxReorgDepth solo_config = 2" "default_config solo_config = solo_config"
  by (simp_all add: solo_config_def demo_config_def default_config_def Let_def)

text \<open>In \<open>demo_lib\<close> the hashes of blocks with different small indices differ.\<close>

lemma three: "FormatUint 3 = ''3''"
  by code_simp

lemma demo_sample_index:
  "b_Index b = 0 \<Longrightarrow> sample (str_bytes (text_of_block b)) 0 = byte_of (CHR ''0'')"
  "b_Index b = 1 \<Longrightarrow> sample (str_bytes (text_of_block b)) 0 = byte_of (CHR ''1'')"
  "b_Index b = 2 \<Longrightarrow> sample (str_bytes (text_of_block b)) 0 = byte_of (CHR ''2'')"
  "b_Index b = 3 \<Longrightarrow> sample (str_bytes (text_of_block b)) 0 = byte_of (CHR ''3'')"
  by (intro sample_first; simp add: small_numerals three block_text_def)+

lemma demo_hash_differs:
  assumes "b_Index a \<in> {0, 1, 2, 3}" "b_Index b \<in> {0, 1, 2, 3}" "b_Index a \<noteq> b_Index b"
  shows "hash_of_block demo_lib a \<noteq> hash_of_block demo_lib b"
  using assms demo_sample_index [of a] demo_sample_index [of b]
  by (auto simp: HashBlock_def sum_hex_demo hex_byte_def hex_digits_def byte_of_def)

lemma solo_views:
  assumes "bc_Config bc = solo_config" "fmlookup (bc_snapshots bc) 0 = Some s" "es_Validators s = alice_stake" "es_TotalStake s = 200"
    and "slot < 50"
  shows "stake_view bc slot name = (if name = ''alice'' then 200 else 0)" "leader_view demo_lib bc slot = ''alice''"
    "chainTipSlot bc < 50 \<Longrightarrow> min_delta bc = 20"
proof -
  have "slot div 50 = 0" using assms(5) by (simp add: word_arith_nat_div word_less_nat_alt)
  then have e: "epochForSlot slot bc = 0" by (simp add: epochForSlot_def assms(1) solo_fields)
  show "stake_view bc slot name = (if name = ''alice'' then 200 else 0)"
    by (simp add: stake_view_def e snap_view_def assms(2,3) alice_stake_def)
  show "leader_view demo_lib bc slot = ''alice''"
    by (simp add: leader_view_def e snap_view_def assms(2,3) alice_stake_def LeaderFromSnapshot_def demo_draw range_loop_def
        sortedStakeNames_def Let_def)
  assume "chainTipSlot bc < 50"
  then have "chainTipSlot bc div 50 = 0" by (simp add: word_arith_nat_div word_less_nat_alt)
  then have "epochForSlot (chainTipSlot bc) bc = 0" by (simp add: epochForSlot_def assms(1) solo_fields)
  then show "min_delta bc = 20" by (simp add: min_delta_def active_view_def snap_view_def assms(1,2,4) solo_fields)
qed

lemma chain_weight_heads: "chain_weight bc c = sum_list (map (\<lambda>(i, s, v). stake_view bc s v) (chain_heads c))"
  by (simp add: chain_weight_def chain_heads_def comp_def)

lemma solo_tip:
  assumes "solo n bc" "n = 0 \<or> n = 1 \<or> n = 2"
  shows "chainTipSlot bc = of_nat n" "b_Index (last (bc_Chain bc)) = of_nat n"
proof -
  have heads: "chain_heads (bc_Chain bc) = (0, 0, ''genesis'') # map (\<lambda>i. (of_nat i, of_nat i, ''alice'')) [1..<Suc n]"
    using assms(1) by (simp add: solo_def)
  then have "bc_Chain bc \<noteq> []" by (auto simp: chain_heads_def)
  then have "chainTipSlot bc = (\<lambda>(i, s, v). s) (last (chain_heads (bc_Chain bc)))"
    "b_Index (last (bc_Chain bc)) = (\<lambda>(i, s, v). i) (last (chain_heads (bc_Chain bc)))"
    by (simp_all add: chainTipSlot_def chain_heads_def last_map last_conv_nth)
  then show "chainTipSlot bc = of_nat n" "b_Index (last (bc_Chain bc)) = of_nat n" using assms(2) by (auto simp: heads)
qed

lemma solo_adoptable:
  assumes "solo n bc" "n < 3" "b_Slot b = of_nat (Suc n)" "b_Validator b = ''alice''"
  shows "adoptable bc (bc_Chain bc @ [b])"
proof -
  obtain s where s: "bc_Config bc = solo_config" "fmlookup (bc_snapshots bc) 0 = Some s" "es_Validators s = alice_stake" "es_TotalStake s = 200"
    and heads: "chain_heads (bc_Chain bc) = (0, 0, ''genesis'') # map (\<lambda>i. (of_nat i, of_nat i, ''alice'')) [1..<Suc n]"
    and final: "bc_FinalizedSlot bc = of_nat (n - 1)"
    using assms(1) by (auto simp: solo_def)
  note v = solo_views [OF s]
  have n: "n = 0 \<or> n = 1 \<or> n = 2" using assms(2) by auto
  have tip: "chainTipSlot bc = of_nat n" using solo_tip(1) [OF assms(1)] n by blast
  have stakes: "stake_view bc k name = (if name = ''alice'' then 200 else 0)" if "k \<in> {0, 1, 2, 3}" for k name
    by (rule v(1)) (use that in auto)
  have w: "chain_weight bc (bc_Chain bc) = 200 * of_nat n"
    unfolding chain_weight_heads heads using n by (auto simp: stakes upt_conv_Cons)
  have b: "stake_view bc (b_Slot b) (b_Validator b) = 200" "bc_FinalizedSlot bc = 0 \<or> bc_FinalizedSlot bc < b_Slot b" "min_delta bc = 20"
    using n v(3) [of 0] by (auto simp: assms(3,4) stakes tip final)
  show ?thesis
    using n by (auto simp: adoptable_def score_of_def betterScore_def computeReorg_extension delta_ok_def w b s(1) solo_fields)
qed

lemma solo_fresh:
  assumes "solo n bc" "n = 0 \<or> n = 1 \<or> n = 2"
  shows "fresh_block demo_lib txs bc"
proof -
  have tree: "tree_ok (bc_Blocks bc)" using assms(1) canonical_okD(1) by (auto simp: solo_def node_inv_def)
  have "fmlookup (bc_Blocks bc) (b_Hash b) = None" if d: "next_draft demo_lib txs bc q = Some b" for b q
  proof (rule ccontr)
    assume "fmlookup (bc_Blocks bc) (b_Hash b) \<noteq> None"
    then obtain c where c: "fmlookup (bc_Blocks bc) (b_Hash b) = Some c" by blast
    have b: "b_Hash b = hash_of_block demo_lib b" "b_Index b = of_nat n + 1"
      using d solo_tip(2) [OF assms] by (auto simp: next_draft_def draft_of_def draft_block_fields Let_def split: sum.splits)
    have "hash_of_block demo_lib c = hash_of_block demo_lib b"
      using assms(1) c b(1) tree_okD(1) [OF tree c] by (auto simp: solo_def)
    moreover have "b_Index c \<le> of_nat n" using assms(1) c by (simp add: solo_def)
    then have "b_Index c \<in> {0, 1, 2}" using assms(2) by (auto simp: word_le_nat_alt word_unat_eq_iff le_Suc_eq)
    ultimately show False using demo_hash_differs [of c b] \<open>b_Index c \<le> of_nat n\<close> assms(2) b(2) by (auto simp: word_le_nat_alt)
  qed
  then show ?thesis by (auto simp: fresh_block_def unstored_def)
qed

lemma solo_clock:
  assumes "p_CurrentTick p = 20 * of_nat n" "n = 0 \<or> n = 1 \<or> n = 2" "q = fst (Tick demo_lib p TicksPerSlot)"
  shows "p_CurrentTick q = 20 * of_nat (Suc n)" "Slot q = of_nat (Suc n)"
proof -
  show q: "p_CurrentTick q = 20 * of_nat (Suc n)"
    using assms(2) tick_power [of p 20 demo_lib] by (auto simp: assms(1,3) Tick_power Let_def TicksPerSlot_def distrib_left)
  show "Slot q = of_nat (Suc n)" using assms(2) by (auto simp: Slot_def q TicksPerSlot_def)
qed

lemma solo_produces:
  assumes "solo n bc" "n = 0 \<or> n = 1 \<or> n = 2" "fmlookup (bc_Validators bc) ''alice'' = Some v"
  obtains bc' b q ts where "node_runs demo_lib bc bc'" "drafted demo_lib bc (last (bc_Chain bc)) q (bc_State bc) ts b"
    "bc_Blocks bc' = fmupd (b_Hash b) b (bc_Blocks bc)" "bc_poh bc' = Some q" "setup_kept bc bc'"
    "fmdom (bc_SlotProducers bc') = finsert (Slot q) (fmdom (bc_SlotProducers bc))"
    "bc_Chain bc' = bc_Chain bc @ [b]" "bc_FinalizedSlot bc' = final_slot bc (Slot q)"
    "p_CurrentTick q = 20 * of_nat (Suc n)" "Slot q = of_nat (Suc n)"
    "b_Slot b = of_nat (Suc n)" "b_Validator b = ''alice''" "b_Index b = of_nat (Suc n)"
proof -
  obtain p s where p: "bc_poh bc = Some p" "p_CurrentTick p = 20 * of_nat n"
    and s: "bc_Config bc = solo_config" "fmlookup (bc_snapshots bc) 0 = Some s" "es_Validators s = alice_stake" "es_TotalStake s = 200"
    and inv: "node_inv demo_lib solo_genesis bc" and store: "bc_blockStore bc = None"
    and slots: "\<And>k. fmlookup (bc_SlotProducers bc) k \<noteq> None \<Longrightarrow> k \<le> of_nat n"
    and signs: "can_sign demo_lib 0 v"
    using assms(1,3) unfolding solo_def by blast
  define q where "q = fst (Tick demo_lib p TicksPerSlot)"
  note q = solo_clock [OF p(2) assms(2) q_def]
  have ok: "canonical_ok bc" "pool_ok demo_lib bc" using inv by (simp_all add: node_inv_def)
  have tip: "chainTipSlot bc \<noteq> - 1" using solo_tip(1) [OF assms(1,2)] assms(2) by auto
  have leader: "''alice'' = leader_view demo_lib bc (Slot q)"
    using assms(2) solo_views(2) [OF s, of "Slot q"] by (auto simp: q(2))
  have free: "fmlookup (bc_SlotProducers bc) (Slot q) = None"
    using slots [of "Slot q"] assms(2) by (cases "fmlookup (bc_SlotProducers bc) (Slot q)") (auto simp: q(2) word_le_nat_alt)
  note fresh = solo_fresh [OF assms(1,2), of "[]"]
  let ?sel = "selection bc (validatorRewardAddress demo_lib (bc_Validators bc) ''alice'') []"
  have "\<exists>bc' b. AddBlock demo_lib 0 [] bc = Some (bc', None) \<and> canonical_ok bc' \<and> drafted demo_lib bc (last (bc_Chain bc)) q (bc_State bc) (snd ?sel) b \<and>
    bc_Blocks bc' = fmupd (b_Hash b) b (bc_Blocks bc) \<and> (bc_Mempool bc', b_Transactions b) = ?sel \<and>
    bc_Chain bc' = (if adoptable bc (bc_Chain bc @ [b]) then bc_Chain bc @ [b] else bc_Chain bc) \<and>
    bc_FinalizedSlot bc' = (if adoptable bc (bc_Chain bc @ [b]) then final_slot bc (Slot q) else bc_FinalizedSlot bc) \<and>
    bc_poh bc' = Some q \<and> setup_kept bc bc' \<and> fmdom (bc_SlotProducers bc') = finsert (Slot q) (fmdom (bc_SlotProducers bc))"
    by (rule AddBlock_produces [OF ok(1) p(1) tip demo_ecdsa_correct q_def leader assms(3) signs store free fresh refl])
      (use ok(2) in \<open>auto simp: pool_ok_def pays_def VerifyTransactions_None ApplyTransactions_def apply_from.simps split: option.split\<close>)
  then obtain bc' b where r: "AddBlock demo_lib 0 [] bc = Some (bc', None)" "drafted demo_lib bc (last (bc_Chain bc)) q (bc_State bc) (snd ?sel) b"
    "bc_Blocks bc' = fmupd (b_Hash b) b (bc_Blocks bc)" "bc_poh bc' = Some q" "setup_kept bc bc'"
    "fmdom (bc_SlotProducers bc') = finsert (Slot q) (fmdom (bc_SlotProducers bc))"
    "bc_Chain bc' = (if adoptable bc (bc_Chain bc @ [b]) then bc_Chain bc @ [b] else bc_Chain bc)"
    "bc_FinalizedSlot bc' = (if adoptable bc (bc_Chain bc @ [b]) then final_slot bc (Slot q) else bc_FinalizedSlot bc)"
    by blast
  have "clock_room bc" using assms(2) p by (auto simp: clock_room_def)
  then have "node_step demo_lib (CallAddBlock 0 []) bc bc' \<and> has_room (CallAddBlock 0 []) bc \<and> makes_fresh demo_lib (CallAddBlock 0 []) bc"
    using produce [OF r(1)] fresh by simp
  then have step: "node_runs demo_lib bc bc'" by (intro r_into_rtranclp exI)
  have b: "b_Slot b = of_nat (Suc n)" "b_Validator b = ''alice''" "b_Index b = of_nat (Suc n)"
    using draftedD [OF r(2)] leader q(2) solo_tip(2) [OF assms(1,2)] by simp_all
  have grow: "bc_Chain bc' = bc_Chain bc @ [b]" "bc_FinalizedSlot bc' = final_slot bc (Slot q)"
    using solo_adoptable [OF assms(1) _ b(1,2)] assms(2) r(7,8) by auto
  from that [OF step r(2-6) grow q b] show thesis .
qed

lemma registry_can_sign:
  assumes "registry_from vs vs'" "fmlookup vs n = Some v" "fmlookup vs' n = Some w" "can_sign G rnd v"
  shows "can_sign G rnd w"
proof -
  have "v_PubKey w = v_PubKey v" "v_PrivKey w = v_PrivKey v"
    using assms(1-3) unfolding registry_from_def by (metis option.inject)+
  with assms(4) show ?thesis by (simp add: can_sign_def)
qed

lemma solo_step:
  assumes "solo n bc" "n = 0 \<or> n = 1 \<or> n = 2" "fmlookup (bc_Validators bc) ''alice'' = Some v"
  shows "\<exists>bc' b. node_runs demo_lib bc bc' \<and> solo (Suc n) bc' \<and> bc_Chain bc' = bc_Chain bc @ [b]"
proof -
  obtain s where s: "bc_Config bc = solo_config" "fmlookup (bc_snapshots bc) 0 = Some s" "es_Validators s = alice_stake" "es_TotalStake s = 200"
    and inv: "node_inv demo_lib solo_genesis bc" and store: "bc_blockStore bc = None"
    and slots: "\<And>k. fmlookup (bc_SlotProducers bc) k \<noteq> None \<Longrightarrow> k \<le> of_nat n"
    and signs: "can_sign demo_lib 0 v" and final: "bc_FinalizedSlot bc = of_nat (n - 1)"
    and heads: "chain_heads (bc_Chain bc) = (0, 0, ''genesis'') # map (\<lambda>i. (of_nat i, of_nat i, ''alice'')) [1..<Suc n]"
    and blocks: "\<And>h b. fmlookup (bc_Blocks bc) h = Some b \<Longrightarrow> b_Hash b = hash_of_block demo_lib b \<and> b_Index b \<le> of_nat n"
    using assms(1,3) unfolding solo_def by blast
  obtain bc' b q ts where step: "node_runs demo_lib bc bc'" and d: "drafted demo_lib bc (last (bc_Chain bc)) q (bc_State bc) ts b"
    and r: "bc_Blocks bc' = fmupd (b_Hash b) b (bc_Blocks bc)" "bc_poh bc' = Some q" "setup_kept bc bc'"
      "fmdom (bc_SlotProducers bc') = finsert (Slot q) (fmdom (bc_SlotProducers bc))"
    and grow: "bc_Chain bc' = bc_Chain bc @ [b]" "bc_FinalizedSlot bc' = final_slot bc (Slot q)"
    and q: "p_CurrentTick q = 20 * of_nat (Suc n)" "Slot q = of_nat (Suc n)"
    and b: "b_Slot b = of_nat (Suc n)" "b_Validator b = ''alice''" "b_Index b = of_nat (Suc n)"
    by (rule solo_produces [OF assms])
  have "node_inv demo_lib solo_genesis bc'" by (rule node_steps_inv [OF step demo_sort_correct inv])
  moreover have "chain_heads (bc_Chain bc') = (0, 0, ''genesis'') # map (\<lambda>i. (of_nat i, of_nat i, ''alice'')) [1..<Suc (Suc n)]"
    using heads b by (simp add: grow(1) chain_heads_def)
  moreover have "bc_FinalizedSlot bc' = of_nat (Suc n - 1)"
    using assms(2) by (auto simp: grow(2) final_slot_def s(1) solo_fields q(2) final)
  moreover have "k \<le> of_nat (Suc n)" if "fmlookup (bc_SlotProducers bc') k \<noteq> None" for k
  proof -
    have "k |\<in>| fmdom (bc_SlotProducers bc')" using that by (auto intro: fmdomI)
    then have "k = Slot q \<or> fmlookup (bc_SlotProducers bc) k \<noteq> None" by (auto simp: r(4) fmlookup_dom_iff)
    then show ?thesis using slots [of k] assms(2) by (auto simp: q(2) word_le_nat_alt)
  qed
  moreover have "can_sign demo_lib 0 w" if "fmlookup (bc_Validators bc') ''alice'' = Some w" for w
    using registry_can_sign [OF _ assms(3) that signs] r(3) by (simp add: setup_kept_def)
  moreover have "b_Hash c = hash_of_block demo_lib c \<and> b_Index c \<le> of_nat (Suc n)" if "fmlookup (bc_Blocks bc') h = Some c" for h c
    using that blocks [of h c] draftedD(7) [OF d] b(3) assms(2) by (auto simp: r(1) word_le_nat_alt split: if_splits)
  ultimately have "solo (Suc n) bc'"
    unfolding solo_def using r(2,3) s store q(1) by (auto simp: setup_kept_def)
  with step grow(1) show ?thesis by blast
qed

section \<open>From a new chain to a final block\<close>

abbreviation alice_joins :: "(unit, unit) Blockchain \<Rightarrow> (unit, unit) Blockchain" where
  "alice_joins bc \<equiv> fst (AddValidatorTo ''alice'' 200 (hexEncode demo_pub) (Some demo_key) bc)"

lemma quiet_step:
  "node_step G c bc bc' \<Longrightarrow> has_room c bc \<Longrightarrow> makes_fresh G c bc \<Longrightarrow> node_runs G bc bc'"
  by blast

lemma alice_joins_step: "node_runs demo_lib bc (alice_joins bc)"
  by (rule quiet_step [OF join [OF prod.collapse [symmetric]]]) simp_all

lemma solo_rejoin:
  assumes "solo n bc"
  shows "solo n (alice_joins bc) \<and> bc_Chain (alice_joins bc) = bc_Chain bc \<and>
    (\<exists>v. fmlookup (bc_Validators (alice_joins bc)) ''alice'' = Some v)"
proof -
  have "node_inv demo_lib solo_genesis (alice_joins bc)"
    using node_steps_inv [OF alice_joins_step demo_sort_correct] assms by (auto simp: solo_def)
  moreover have "\<exists>v. fmlookup (bc_Validators (alice_joins bc)) ''alice'' = Some v \<and> can_sign demo_lib 0 v"
    using assms by (cases "fmlookup (bc_Validators bc) ''alice''")
      (auto simp: AddValidatorTo_def AddValidator_def solo_def can_sign_def ecMarshal_demo word_sless_alt word_sle_eq MinStake_def Let_def)
  ultimately show ?thesis
    using assms by (auto simp: solo_def AddValidatorTo_def Let_def split: prod.split)
qed

lemma solo_start:
  "\<exists>bc0 bc :: (unit, unit) Blockchain. NewBlockchain demo_lib solo_config None = Some bc0 \<and>
    node_runs demo_lib bc0 bc \<and> solo 0 bc"
proof -
  obtain bc0 :: "(unit, unit) Blockchain" where bc0: "NewBlockchain demo_lib solo_config None = Some bc0" "bc_Chain bc0 = [solo_genesis]"
    "bc_Blocks bc0 = fmupd (b_Hash solo_genesis) solo_genesis fmempty" "bc_Config bc0 = solo_config" "bc_snapshots bc0 = fmempty"
    "bc_Validators bc0 = fmempty" "bc_Stats bc0 = Some fmempty" "bc_SlotProducers bc0 = fmempty" "bc_blockStore bc0 = None"
    "bc_FinalizedSlot bc0 = 0" "\<exists>s. bc_poh bc0 = Some (NewPoH s)"
    using NewBlockchain_run [of demo_lib solo_config None, where 'bs = unit and 'ss = unit] solo_fields(5) by metis
  let ?bc1 = "alice_joins bc0"
  define bc2 where "bc2 = ensureSnapshot demo_lib 0 ?bc1"
  have one: "node_runs demo_lib bc0 ?bc1" by (rule alice_joins_step)
  have "GetEpochSnapshot demo_lib 0 ?bc1 = (bc2, snd (GetEpochSnapshot demo_lib 0 ?bc1))"
    by (simp add: GetEpochSnapshot_def snapshotForSlot_view bc2_def epochForSlot_def)
  from quiet_step [OF snapshot [OF this]] have two: "node_runs demo_lib ?bc1 bc2" by simp
  have steps: "node_runs demo_lib bc0 bc2" by (rule rtranclp_trans [OF one two])
  have b1: "?bc1 = bc0\<lparr>bc_Validators := fmupd ''alice'' (demo_validator ''alice'' 200) fmempty,
      bc_Stats := Some (fmupd ''alice'' zero_stats fmempty)\<rparr>"
    by (simp add: AddValidatorTo_def AddValidator_def bc0 demo_validator_def word_sless_alt word_sle_eq MinStake_def Let_def)
  have "snap_view ?bc1 0 = new_snapshot 0 0 (bc_Validators ?bc1) (bc_Stats ?bc1)"
    by (simp add: snap_view_def b1 bc0)
  moreover have "active_stakes (bc_Stats ?bc1) 0 (bc_Validators ?bc1) = alice_stake"
    by (intro fmap_ext) (auto simp: b1 active_stakes_def alice_stake_def may_lead_def IsJailed_def zero_stats_def word_sless_alt MinStake_def)
  moreover have "\<forall>n v. fmlookup (bc_Validators ?bc1) n = Some v \<longrightarrow> v_Name v = n" by (simp add: b1)
  ultimately have snap: "es_Validators (snap_view ?bc1 0) = alice_stake" "es_TotalStake (snap_view ?bc1 0) = 200"
    by (simp_all add: new_snapshot_active alice_stake_def total_weight_def)
  note only = ensureSnapshot_only(1) [of ?bc1 demo_lib 0, folded bc2_def] ensureSnapshot_only(2) [of demo_lib 0 ?bc1, folded bc2_def]
  note f = only_snapshots_frame [OF only(1)]
  have "node_inv demo_lib solo_genesis bc2"
    by (rule node_steps_inv [OF steps demo_sort_correct node_start [OF bc0(1)]])
  then have "solo 0 bc2"
    using snap only(2) bc0 by (auto simp: solo_def f b1 chain_heads_def genesis_block_fields genesis_block_hash NewPoH_def
        can_sign_def ecMarshal_demo split: if_splits)
  with bc0(1) steps show ?thesis by blast
qed

lemma solo_grows:
  assumes "solo n bc" "n = 0 \<or> n = 1 \<or> n = 2"
  shows "\<exists>bc' b. node_runs demo_lib bc bc' \<and> solo (Suc n) bc' \<and> bc_Chain bc' = bc_Chain bc @ [b]"
proof -
  from solo_rejoin [OF assms(1)] obtain v where r: "solo n (alice_joins bc)" "bc_Chain (alice_joins bc) = bc_Chain bc"
    "fmlookup (bc_Validators (alice_joins bc)) ''alice'' = Some v" by blast
  from solo_step [OF r(1) assms(2) r(3)] obtain bc' b where "node_runs demo_lib (alice_joins bc) bc'" "solo (Suc n) bc'"
    "bc_Chain bc' = bc_Chain bc @ [b]" unfolding r(2) by blast
  with rtranclp_trans [OF alice_joins_step [of bc] this(1)] show ?thesis by blast
qed

lemma solo_run:
  "\<exists>(bc0 :: (unit, unit) Blockchain) bc bc' b. NewBlockchain demo_lib solo_config None = Some bc0 \<and>
    node_runs demo_lib bc0 bc \<and> node_runs demo_lib bc bc' \<and> solo 2 bc \<and> solo 3 bc' \<and>
    bc_Chain bc' = bc_Chain bc @ [b]"
proof -
  from solo_start obtain bc0 bc1 :: "(unit, unit) Blockchain" where
    s: "NewBlockchain demo_lib solo_config None = Some bc0" "node_runs demo_lib bc0 bc1" "solo 0 bc1" by blast
  from solo_grows [OF s(3)] obtain bc2 where t: "node_runs demo_lib bc1 bc2" "solo (Suc 0) bc2" by auto
  from solo_grows [OF t(2)] obtain bc3 where u: "node_runs demo_lib bc2 bc3" "solo (Suc (Suc 0)) bc3" by auto
  from solo_grows [OF u(2)] obtain bc4 b where v: "node_runs demo_lib bc3 bc4" "solo (Suc (Suc (Suc 0))) bc4"
    "bc_Chain bc4 = bc_Chain bc3 @ [b]" by auto
  have "node_runs demo_lib bc0 bc3"
    by (rule rtranclp_trans [OF rtranclp_trans [OF s(2) t(1)] u(1)])
  moreover have "solo 2 bc3" "solo 3 bc4" using u(2) v(2) by (simp_all add: numeral_2_eq_2 numeral_3_eq_3)
  ultimately show ?thesis using s(1) v(1,3) by blast
qed

lemma solo_blocks:
  assumes "solo n bc" "n = 2 \<or> n = 3"
  shows "length (bc_Chain bc) = Suc n" "b_Slot (bc_Chain bc ! 1) = 1" "bc_FinalizedSlot bc = of_nat (n - 1)"
proof -
  have heads: "chain_heads (bc_Chain bc) = (0, 0, ''genesis'') # map (\<lambda>i. (of_nat i, of_nat i, ''alice'')) [1..<Suc n]"
    using assms(1) by (simp add: solo_def)
  from arg_cong [OF this, of length] show len: "length (bc_Chain bc) = Suc n" using assms(2) by (auto simp: chain_heads_def)
  have "chain_heads (bc_Chain bc) ! 1 = (1, 1, ''alice'')" unfolding heads using assms(2) by (auto simp: upt_conv_Cons)
  then show "b_Slot (bc_Chain bc ! 1) = 1" using len assms(2) by (auto simp: chain_heads_def)
  show "bc_FinalizedSlot bc = of_nat (n - 1)" using assms(1) by (simp add: solo_def)
qed

section \<open>Witnesses\<close>

theorem node_invariant_witness:
  "\<exists>(bc0 :: (unit, unit) Blockchain) bc. NewBlockchain demo_lib solo_config None = Some bc0 \<and>
    node_runs demo_lib bc0 bc \<and> length (bc_Chain bc) = 4 \<and> linked (bc_Chain bc)"
proof -
  from solo_run obtain bc0 bc1 bc :: "(unit, unit) Blockchain" where
    r: "NewBlockchain demo_lib solo_config None = Some bc0" "node_runs demo_lib bc0 bc1" "node_runs demo_lib bc1 bc" "solo 3 bc"
    by blast
  note s = r(1) rtranclp_trans [OF r(2,3)] r(4)
  from node_invariant [OF demo_sort_correct s(1,2)] s solo_blocks(1) [OF s(3)] show ?thesis by auto
qed

theorem finality_for_ever_witness:
  "\<exists>(bc0 :: (unit, unit) Blockchain) bc bc'. NewBlockchain demo_lib solo_config None = Some bc0 \<and>
    node_runs demo_lib bc0 bc \<and> node_runs demo_lib bc bc' \<and> bc_FinalizedSlot bc = 1 \<and> bc_FinalizedSlot bc' = 2 \<and>
    length (bc_Chain bc') = Suc (length (bc_Chain bc)) \<and> b_Slot (bc_Chain bc ! 1) = 1 \<and> bc_Chain bc' ! 1 = bc_Chain bc ! 1"
proof -
  from solo_run obtain bc0 bc bc' :: "(unit, unit) Blockchain" where
    s: "NewBlockchain demo_lib solo_config None = Some bc0" "node_runs demo_lib bc0 bc" "node_runs demo_lib bc bc'"
      "solo 2 bc" "solo 3 bc'" by blast
  note b = solo_blocks [OF s(4)] and b' = solo_blocks [OF s(5)]
  from finality_for_ever [OF demo_sort_correct s(1-3), of 1] b have "bc_Chain bc' ! 1 = bc_Chain bc ! 1" by simp
  with s(1-3) b b' show ?thesis by (intro exI [of _ bc0] exI [of _ bc] exI [of _ bc']) simp
qed

end
