(* ===== verification/Command.thy ===== *)
theory Command
  imports Forks Recovery
begin

text \<open>
  \<open>cmd/xenium/main.go\<close>: what the command computes from a chain, the texts that it prints or writes from it, and
  \<open>main\<close>, a fixed scenario of payments and forks on one node.  A run of \<open>main\<close> ends in a panic, with the text that
  \<open>main\<close> had printed before it, or in the texts that it printed and wrote.  (The lines that the logger of the node writes are not
  part of these texts; \<open>Logging\<close> has the messages.)
\<close>

section \<open>Computations\<close>

definition computeReorgDepth :: "Block list \<Rightarrow> Block list \<Rightarrow> nat" where
  "computeReorgDepth oldChain newChain =
    (let minLen = length oldChain;
         minLen = (if length newChain < minLen then length newChain else minLen);
         diverge = (case find (\<lambda>i. b_Hash (oldChain ! i) \<noteq> b_Hash (newChain ! i)) [0..<minLen] of Some i \<Rightarrow> i | None \<Rightarrow> minLen)
     in length oldChain - diverge)"

definition makeTx :: "golib \<Rightarrow> nat \<Rightarrow> Wallet \<Rightarrow> string \<Rightarrow> i64 \<Rightarrow> i64 \<Rightarrow> (string, u64) fmap
    \<Rightarrow> (string, u64) fmap \<times> Transaction result" where
  \<comment> \<open>\<open>Inl\<close> is the panic with the error of the signer\<close>
  "makeTx G rnd w to amount fee nonces =
    (let next = get_or 0 nonces (w_Address w) + 1;
         nonces = fmupd (w_Address w) next nonces;
         tx = \<lparr>tx_From = [], tx_To = to, tx_Amount = amount, tx_Fee = fee, tx_Nonce = next, tx_PubKey = [],
           tx_Signature = [], tx_Hash = []\<rparr>
     in case SignTransaction G rnd (w_PrivateKey w) (Some tx) of
          (_, Some err) \<Rightarrow> (nonces, Inl err)
        | (signed_tx, None) \<Rightarrow> (nonces, Inr (the signed_tx)))"

section \<open>Texts\<close>

definition newline :: string where "newline = [char_of (10 :: nat)]"

definition stake_summary :: "string \<Rightarrow> ('bs, 'ss) Blockchain \<Rightarrow> string" where
  \<comment> \<open>\<open>printStakeSummary\<close>\<close>
  "stake_summary label chain = label @ newline @
     concat (map (\<lambda>name. name @ '': '' @ Itoa (v_Stake (the (fmlookup (bc_Validators chain) name))) @ newline)
       (keys_of (bc_Validators chain))) @ newline"

definition snapshot_lines :: "EpochSnapshot \<Rightarrow> string" where
  "snapshot_lines s =
    (let keys = keys_of (es_Validators s) in
     if length keys = 0 then FormatUint (es_Epoch s) @ '','' @ FormatUint (es_TotalStake s) @ '',,'' @ newline
     else concat (map (\<lambda>k. FormatUint (es_Epoch s) @ '','' @ FormatUint (es_TotalStake s) @ '','' @ k @ '','' @
       FormatUint (get_or 0 (es_Validators s) k) @ newline) keys))"

definition epoch_csv :: "('bs, 'ss) Blockchain \<Rightarrow> string" where
  \<comment> \<open>what \<open>writeEpochSnapshotCSV\<close> writes\<close>
  "epoch_csv chain = ''epoch,total_stake,validator,stake'' @ newline @ concat (map snapshot_lines (GetAllEpochSnapshots chain))"

definition tips_by_slot :: "ForkCandidate list \<Rightarrow> (u64, string list) fmap" where
  "tips_by_slot candidates =
    (let tipsBySlot = fold (\<lambda>c m. fmupd (fc_Slot c) (get_or [] m (fc_Slot c) @ [fc_Hash c]) m) candidates fmempty
     in fmmap sort tipsBySlot)"

primrec join_with :: "string \<Rightarrow> string list \<Rightarrow> string" where
  \<comment> \<open>\<open>strings.Join\<close>\<close>
  "join_with sep [] = []"
| "join_with sep (x # xs) = (if xs = [] then x else x @ sep @ join_with sep xs)"

definition fork_timeline :: "golib \<Rightarrow> ('bs, 'ss) Blockchain \<Rightarrow> (('bs, 'ss) Blockchain \<times> string) option" where
  \<comment> \<open>\<open>printForkTimeline\<close>\<close>
  "fork_timeline G chain = do {
     (chain, candidates) \<leftarrow> GetForkCandidates G chain;
     let tipsBySlot = tips_by_slot candidates;
     Some (chain, ''Fork timeline (canonical + tips)'' @ newline @
       concat (map (\<lambda>block.
         let line = ''slot '' @ FormatUint (b_Slot block) @ '' canonical='' @ b_Hash block;
             tips = get_or [] tipsBySlot (b_Slot block);
             line = (if 0 < length tips then line @ '' tips='' @ join_with '','' tips else line)
         in line @ newline) (bc_Chain chain)) @ newline)
   }"

section \<open>The scenario of \<open>main\<close>\<close>

datatype panic = PanicError error | PanicText string

type_synonym 'a run = "(panic + 'a) option"

definition and_then :: "'a run \<Rightarrow> ('a \<Rightarrow> 'b run) \<Rightarrow> 'b run" where
  "and_then m f = (case m of None \<Rightarrow> None | Some (Inl p) \<Rightarrow> Some (Inl p) | Some (Inr x) \<Rightarrow> f x)"

definition must :: "'a result \<Rightarrow> 'a run" where
  \<comment> \<open>\<open>if err != nil { panic(err) }\<close>\<close>
  "must r = Some (case r of Inl e \<Rightarrow> Inl (PanicError e) | Inr x \<Rightarrow> Inr x)"

definition check :: "failure \<Rightarrow> 'a \<Rightarrow> 'a run" where
  "check err x = must (case err of Some e \<Rightarrow> Inl e | None \<Rightarrow> Inr x)"

type_synonym chain = "(FileBlockStore, FileSnapshotStore) Blockchain"
type_synonym nonces = "(string, u64) fmap"

text \<open>\<open>rnd i\<close> is the entropy of the \<open>i\<close>-th key or signature; \<open>clock\<close> is the reading of the system clock.\<close>

definition register :: "string \<Rightarrow> i64 \<Rightarrow> Wallet \<Rightarrow> chain \<Rightarrow> chain run" where
  "register name stake w xenium =
    (let (xenium, err) = AddValidatorTo name stake (w_PublicKey w) (Some (w_PrivateKey w)) xenium in check err xenium)"

definition main_setup :: "golib \<Rightarrow> jsonlib \<Rightarrow> (nat \<Rightarrow> nat) \<Rightarrow> i64 \<Rightarrow> disk \<Rightarrow> disk \<Rightarrow> (chain \<times> Wallet \<times> Wallet \<times> Wallet) run" where
  "main_setup G J rnd clock bd sd =
    (let cfg = DefaultConfig;
         cfg = cfg\<lparr>cf_Chain := (cf_Chain cfg)\<lparr>cfg_DeterministicPoH := True\<rparr>\<rparr>;
         cfg = cfg\<lparr>cf_Chain := (cf_Chain cfg)\<lparr>cfg_PoHSeed := 1\<rparr>\<rparr>
     in case NewNode G J cfg (Some clock) bd sd of
          None \<Rightarrow> None
        | Some (bd, sd, node) \<Rightarrow>
            and_then (must node) (\<lambda>node. let xenium = nd_Chain node in
            and_then (must (NewWallet G (rnd 0))) (\<lambda>alice.
            and_then (must (NewWallet G (rnd 1))) (\<lambda>bob.
            and_then (must (NewWallet G (rnd 2))) (\<lambda>charlie.
            and_then (register ''Alice'' 100 alice xenium) (\<lambda>xenium.
            and_then (register ''Bob'' 60 bob xenium) (\<lambda>xenium.
            and_then (register ''Charlie'' 40 charlie xenium) (\<lambda>xenium.
              let xenium = SetBalance (w_Address alice) 200 xenium;
                  xenium = SetBalance (w_Address bob) 100 xenium;
                  xenium = SetBalance (w_Address charlie) 80 xenium
              in Some (Inr (xenium, alice, bob, charlie))))))))))"

definition pay :: "golib \<Rightarrow> nat \<Rightarrow> Wallet \<Rightarrow> string \<Rightarrow> i64 \<Rightarrow> i64 \<Rightarrow> nonces \<Rightarrow> (nonces \<times> Transaction) run" where
  \<comment> \<open>a call of \<open>makeTx\<close>\<close>
  "pay G rnd w to amount fee nonces =
    (let (nonces, r) = makeTx G rnd w to amount fee nonces in and_then (must r) (\<lambda>tx. Some (Inr (nonces, tx))))"

definition add_payment :: "golib \<Rightarrow> nat \<Rightarrow> Transaction \<Rightarrow> chain \<Rightarrow> chain run" where
  "add_payment G rnd tx xenium =
    and_then (check (VerifyTransactionSignature G tx) ()) (\<lambda>_.
      case AddBlock G rnd [tx] xenium of None \<Rightarrow> None | Some (xenium, err) \<Rightarrow> check err xenium)"

definition add_external :: "golib \<Rightarrow> nat \<Rightarrow> string \<Rightarrow> Transaction \<Rightarrow> chain \<Rightarrow> (chain \<times> string) run" where
  "add_external G rnd parent tx xenium =
    (case AddBlockExternal G rnd parent [tx] xenium of
      None \<Rightarrow> None | Some (xenium, hash, err) \<Rightarrow> check err (xenium, hash))"

definition main_blocks :: "golib \<Rightarrow> (nat \<Rightarrow> nat) \<Rightarrow> Wallet \<Rightarrow> Wallet \<Rightarrow> Wallet \<Rightarrow> chain \<Rightarrow> (chain \<times> nonces) run" where
  "main_blocks G rnd alice bob charlie xenium =
    and_then (pay G (rnd 3) alice (w_Address bob) 50 1 fmempty) (\<lambda>(nonces, tx1).
    and_then (add_payment G (rnd 4) tx1 xenium) (\<lambda>xenium.
    and_then (pay G (rnd 5) bob (w_Address charlie) 20 1 nonces) (\<lambda>(nonces, tx2).
    and_then (add_payment G (rnd 6) tx2 xenium) (\<lambda>xenium.
      Some (Inr (xenium, nonces))))))"

record before =
  bf_Tip :: string
  bf_Score :: ChainScore
  bf_Chain :: "Block list"
  bf_Parent :: string

definition main_before :: "golib \<Rightarrow> chain \<Rightarrow> (chain \<times> before) run" where
  "main_before G xenium =
    (if length (bc_Chain xenium) < 3 then Some (Inl (PanicText ''chain too short for fork simulation''))
     else let beforeTip = CanonicalTipHash xenium in
       case ScoreTip G beforeTip xenium of
         None \<Rightarrow> None
       | Some (xenium, beforeScore) \<Rightarrow>
           Some (Inr (xenium, \<lparr>bf_Tip = beforeTip, bf_Score = beforeScore, bf_Chain = bc_Chain xenium,
             bf_Parent = b_Hash (bc_Chain xenium ! 1)\<rparr>)))"

definition main_fork :: "golib \<Rightarrow> (nat \<Rightarrow> nat) \<Rightarrow> Wallet \<Rightarrow> Wallet \<Rightarrow> Wallet \<Rightarrow> string \<Rightarrow> nonces \<Rightarrow> chain
    \<Rightarrow> (chain \<times> nonces \<times> string) run" where
  "main_fork G rnd alice bob charlie parentHash nonces xenium =
    and_then (pay G (rnd 7) charlie (w_Address alice) 10 1 nonces) (\<lambda>(nonces, tx3).
    and_then (check (VerifyTransactionSignature G tx3) ()) (\<lambda>_.
    and_then (add_external G (rnd 8) parentHash tx3 xenium) (\<lambda>(xenium, forkHash).
    and_then (pay G (rnd 9) alice (w_Address bob) 5 1 nonces) (\<lambda>(nonces, tx4).
    and_then (check (VerifyTransactionSignature G tx4) ()) (\<lambda>_.
    and_then (add_external G (rnd 10) forkHash tx4 xenium) (\<lambda>(xenium, forkHash).
      Some (Inr (xenium, nonces, forkHash))))))))"

definition main_more_forks :: "golib \<Rightarrow> (nat \<Rightarrow> nat) \<Rightarrow> Wallet \<Rightarrow> Wallet \<Rightarrow> Wallet \<Rightarrow> string \<Rightarrow> nonces \<Rightarrow> chain \<Rightarrow> chain run" where
  "main_more_forks G rnd alice bob charlie parentHash nonces xenium =
    and_then (pay G (rnd 11) bob (w_Address alice) 2 1 nonces) (\<lambda>(nonces, tx).
    and_then (add_external G (rnd 12) parentHash tx xenium) (\<lambda>(xenium, _).
    and_then (pay G (rnd 13) alice (w_Address bob) 3 1 nonces) (\<lambda>(nonces, tx).
    and_then (add_external G (rnd 14) parentHash tx xenium) (\<lambda>(xenium, forkB).
    and_then (pay G (rnd 15) bob (w_Address charlie) 1 1 nonces) (\<lambda>(nonces, tx).
    and_then (add_external G (rnd 16) forkB tx xenium) (\<lambda>(xenium, _).
      Some (Inr xenium)))))))"

section \<open>The report of \<open>main\<close>\<close>

definition escape :: "string \<Rightarrow> string" where "escape s = char_of (27 :: nat) # s"

definition pad :: "nat \<Rightarrow> string \<Rightarrow> string" where
  \<comment> \<open>\<open>%-nd\<close>, \<open>%-ns\<close> and \<open>%-nv\<close> of \<open>fmt\<close>\<close>
  "pad n s = s @ replicate (n - length s) (CHR '' '')"

definition bool_text :: "bool \<Rightarrow> string" where "bool_text b = (if b then ''true'' else ''false'')"

definition lines_text :: "string list \<Rightarrow> string" where
  "lines_text ls = concat (map (\<lambda>l. l @ newline) ls)"

definition snapshot_text :: "EpochSnapshot \<Rightarrow> string" where
  "snapshot_text s = ''Epoch: '' @ FormatUint (es_Epoch s) @ ''  ActiveStake: '' @ FormatUint (es_TotalStake s) @
     ''  Validators: '' @ dec (length (keys_of (es_Validators s)))"

definition tip_text :: "ChainScore \<Rightarrow> string list" where
  "tip_text sc = [''Slot: '' @ FormatUint (cs_Slot sc), ''Weight: '' @ FormatUint (cs_CumulativeWeight sc)]"

definition ranking_text :: "ChainScore \<Rightarrow> string \<Rightarrow> string" where
  "ranking_text sc hash = ''slot='' @ FormatUint (cs_Slot sc) @ '' weight='' @ FormatUint (cs_CumulativeWeight sc) @ '' hash='' @ hash"

definition candidate_text :: "golib \<Rightarrow> ChainScore \<Rightarrow> ForkCandidate \<Rightarrow> chain \<Rightarrow> chain \<times> string" where
  \<comment> \<open>the body of the loop over the candidates\<close>
  "candidate_text G beforeScore c xenium =
    (let (xenium, req, act) = WeightDeltaRequired G (cs_CumulativeWeight beforeScore) (fc_CumulativeWeight c) xenium;
         pass = req \<le> act;
         cue = (if pass then ''PASS'' else ''FAIL'');
         (xenium, snap) = GetEpochSnapshot G (fc_Slot c) xenium;
         cueColor = (if pass then escape ''[32m'' else escape ''[31m'');
         markColor = (if fc_Hash c = CanonicalTipHash xenium then escape ''[36m'' @ ''*'' @ escape ''[0m'' else '' '')
     in (xenium, ''['' @ markColor @ ''] tip='' @ fc_Hash c @ '' slot='' @ FormatUint (fc_Slot c) @ '' weight='' @
          FormatUint (fc_CumulativeWeight c) @ '' parent='' @ fc_Parent c @ '' epoch='' @ FormatUint (es_Epoch snap) @
          '' activeStake='' @ FormatUint (es_TotalStake snap) @ '' validators='' @ dec (length (keys_of (es_Validators snap))) @
          '' deltaRequired='' @ FormatUint req @ '' deltaActual='' @ FormatUint act @ '' '' @ cueColor @ cue @ escape ''[0m''))"

primrec candidate_texts :: "golib \<Rightarrow> ChainScore \<Rightarrow> ForkCandidate list \<Rightarrow> chain \<Rightarrow> chain \<times> string list" where
  "candidate_texts G beforeScore [] xenium = (xenium, [])"
| "candidate_texts G beforeScore (c # cs) xenium =
    (let (xenium, line) = candidate_text G beforeScore c xenium; (xenium, rest) = candidate_texts G beforeScore cs xenium
     in (xenium, line # rest))"

definition reorg_metrics_text :: "ReorgMetrics \<Rightarrow> string list" where
  "reorg_metrics_text stats = [''INFO: '' @ FormatUint (rm_Info stats), ''WARN: '' @ FormatUint (rm_Warn stats),
     ''ERROR: '' @ FormatUint (rm_Error stats), ''CRITICAL: '' @ FormatUint (rm_Critical stats)]"

definition summary_text :: "('f \<Rightarrow> string) \<Rightarrow> 'f ValidatorSummary \<Rightarrow> string" where
  \<comment> \<open>\<open>percent r\<close> is \<open>r*100\<close> printed with \<open>%-5.1f\<close>\<close>
  "summary_text percent s = pad 8 (vsm_Name s) @ '' -> Produced: '' @ pad 3 (FormatUint (vsm_Produced s)) @ '' Missed: '' @
     pad 3 (FormatUint (vsm_Missed s)) @ '' MissRate: '' @ percent (vsm_MissRate s) @ ''% Slashed: '' @
     pad 5 (bool_text (vsm_Slashed s)) @ '' JailedUntil: '' @ pad 3 (FormatUint (vsm_JailedUntil s))"

definition block_texts :: "Block \<Rightarrow> string list" where
  "block_texts b = [''Index: '' @ FormatUint (b_Index b), ''Hash: '' @ b_Hash b, ''PrevHash: '' @ b_PrevHash b,
     ''Validator: '' @ b_Validator b, ''Slot: '' @ FormatUint (b_Slot b), ''Tick: '' @ FormatUint (b_Tick b),
     ''PoHHash: '' @ b_PoHHash b, ''TxRoot: '' @ b_TxRoot b, ''StateRoot: '' @ b_StateRoot b, ''-----'']"

definition reorg_texts :: "before \<Rightarrow> string \<Rightarrow> string \<Rightarrow> Block list \<Rightarrow> string list" where
  "reorg_texts bf afterTip forkHash newChain =
    (let reorgDepth = computeReorgDepth (bf_Chain bf) newChain; reorged = bf_Tip bf \<noteq> afterTip
     in if reorged then [''Depth: '' @ dec reorgDepth, ''Old Tip: '' @ bf_Tip bf, ''New Tip: '' @ afterTip]
        else [''No reorg (canonical unchanged)'', ''Tip: '' @ afterTip, ''Rejected Fork: '' @ forkHash])"

definition main_report :: "golib \<Rightarrow> (u64 \<Rightarrow> u64 \<Rightarrow> 'f) \<Rightarrow> 'f \<Rightarrow> ('f \<Rightarrow> string) \<Rightarrow> before \<Rightarrow> string \<Rightarrow> chain \<Rightarrow> (string \<times> string) option" where
  \<comment> \<open>the text printed from \<open>[Before]\<close> on, and the contents of \<open>epoch_snapshots.csv\<close>\<close>
  "main_report G ratio rate0 percent bf forkHash xenium = do {
     (xenium, forkScore) \<leftarrow> ScoreTip G forkHash xenium;
     let afterTip = CanonicalTipHash xenium;
     (xenium, afterScore) \<leftarrow> ScoreTip G afterTip xenium;
     let newChain = bc_Chain xenium;
     let beforeScore = bf_Score bf;
     let (xenium, requiredDelta, actualDelta) =
       WeightDeltaRequired G (cs_CumulativeWeight beforeScore) (cs_CumulativeWeight forkScore) xenium;
     let deltaPass = requiredDelta \<le> actualDelta;
     let (xenium, beforeSnap) = GetEpochSnapshot G (cs_Slot beforeScore) xenium;
     let (xenium, forkSnap) = GetEpochSnapshot G (cs_Slot forkScore) xenium;
     (xenium, candidates) \<leftarrow> GetForkCandidates G xenium;
     let (xenium, candidateLines) = candidate_texts G beforeScore candidates xenium;
     let stats = GetReorgStats xenium;
     let summary = stake_summary ''Stake (final)'' xenium;
     let csv = epoch_csv xenium;
     let blocks = bc_Chain xenium;
     let summaries = GetValidatorSummaries ratio rate0 xenium;
     (xenium, timeline) \<leftarrow> fork_timeline G xenium;
     Some (lines_text ([''[Before]'', ''Tip Hash: '' @ bf_Tip bf] @ tip_text beforeScore @ [snapshot_text beforeSnap, []] @
       [''[Insert]'', ''Fork Block: '' @ forkHash, ''Parent: '' @ bf_Parent bf] @ tip_text forkScore @ [snapshot_text forkSnap, []] @
       [''[Reorg]''] @ reorg_texts bf afterTip forkHash newChain @ [[]] @
       [''[After]'', ''Tip Hash: '' @ afterTip] @ tip_text afterScore @ [[]] @
       [''Canonical Chain:''] @ map (\<lambda>b. ''Slot '' @ FormatUint (b_Slot b) @ '' -> '' @ b_Hash b) newChain @ [[]] @
       [''=== Fork Candidate Ranking ==='', ''Canonical: '' @ ranking_text beforeScore (bf_Tip bf),
        ''Fork:      '' @ ranking_text forkScore forkHash,
        ''Delta:     required='' @ FormatUint requiredDelta @ '' actual='' @ FormatUint actualDelta @ '' pass='' @ bool_text deltaPass,
        ''=============================='', ''=== Fork Candidates (All Tips) ===''] @ candidateLines @
       [''=================================='', ''=== Reorg Metrics ===''] @ reorg_metrics_text stats @
       [''====================='', [], ''=== Missed Slot Stats ==='' ] @ map (summary_text percent) summaries @
       [''=========================''] @ concat (map block_texts blocks)) @
       summary @ lines_text [''Wrote epoch snapshot CSV: epoch_snapshots.csv''] @ timeline, csv)
   }"

text \<open>
  The whole of \<open>main\<close>.  A panic comes with what was printed before it: nothing during the setup, and the initial stakes
  after it, since the next text is printed by \<open>main_report\<close>, where nothing panics.
\<close>

definition main_rest :: "golib \<Rightarrow> (u64 \<Rightarrow> u64 \<Rightarrow> 'f) \<Rightarrow> 'f \<Rightarrow> ('f \<Rightarrow> string) \<Rightarrow> (nat \<Rightarrow> nat) \<Rightarrow> chain \<times> Wallet \<times> Wallet \<times> Wallet
    \<Rightarrow> (string \<times> string) run" where
  "main_rest G ratio rate0 percent rnd = (\<lambda>(xenium, alice, bob, charlie).
    and_then (main_blocks G rnd alice bob charlie xenium) (\<lambda>(xenium, nonces).
    and_then (main_before G xenium) (\<lambda>(xenium, bf).
    and_then (main_fork G rnd alice bob charlie (bf_Parent bf) nonces xenium) (\<lambda>(xenium, nonces, forkHash).
    and_then (main_more_forks G rnd alice bob charlie (bf_Parent bf) nonces xenium) (\<lambda>xenium.
      case main_report G ratio rate0 percent bf forkHash xenium of
        None \<Rightarrow> None
      | Some (text, csv) \<Rightarrow> Some (Inr (text, csv)))))))"

definition main_program :: "golib \<Rightarrow> jsonlib \<Rightarrow> (u64 \<Rightarrow> u64 \<Rightarrow> 'f) \<Rightarrow> 'f \<Rightarrow> ('f \<Rightarrow> string) \<Rightarrow> (nat \<Rightarrow> nat) \<Rightarrow> i64 \<Rightarrow> disk \<Rightarrow> disk
    \<Rightarrow> (string \<times> panic + string \<times> string) option" where
  \<comment> \<open>\<open>Inl\<close>: the text printed and the panic; \<open>Inr\<close>: the text printed and the contents of \<open>epoch_snapshots.csv\<close>\<close>
  "main_program G J ratio rate0 percent rnd clock bd sd =
    (case main_setup G J rnd clock bd sd of
      None \<Rightarrow> None
    | Some (Inl p) \<Rightarrow> Some (Inl ([], p))
    | Some (Inr (xenium, wallets)) \<Rightarrow>
      (let printed = stake_summary ''Stake (initial)'' xenium in
       case main_rest G ratio rate0 percent rnd (xenium, wallets) of
         None \<Rightarrow> None
       | Some (Inl p) \<Rightarrow> Some (Inl (printed, p))
       | Some (Inr (text, csv)) \<Rightarrow> Some (Inr (printed @ text, csv))))"

section \<open>Lemmas\<close>

text \<open>Transactions of one wallet get the nonces 1, 2, and so on, which is the order in which they can be applied.\<close>

lemma SignTransaction_fields:
  assumes "SignTransaction G rnd k (Some tx) = (r, None)"
  shows "\<exists>tx'. r = Some tx' \<and> tx_To tx' = tx_To tx \<and> tx_Amount tx' = tx_Amount tx \<and> tx_Fee tx' = tx_Fee tx \<and>
    tx_Nonce tx' = tx_Nonce tx"
  using assms by (auto simp: SignTransaction_def Let_def split: sum.splits)

lemma makeTx_verifies:
  assumes "ecdsa_correct G" "generated_key G (w_PrivateKey w)" "makeTx G rnd w to amount fee nonces = (nonces', Inr tx)"
  shows "VerifyTransactionSignature G tx = None \<and> tx_Nonce tx = get_or 0 nonces (w_Address w) + 1 \<and> tx_To tx = to \<and>
    tx_Amount tx = amount \<and> tx_Fee tx = fee \<and> get_or 0 nonces' (w_Address w) = tx_Nonce tx"
proof -
  define n where "n = get_or 0 nonces (w_Address w) + 1"
  define t where "t = \<lparr>tx_From = [], tx_To = to, tx_Amount = amount, tx_Fee = fee, tx_Nonce = n, tx_PubKey = [],
    tx_Signature = [], tx_Hash = []\<rparr>"
  obtain r err where s: "SignTransaction G rnd (w_PrivateKey w) (Some t) = (r, err)" by fastforce
  with assms(3) have none: "err = None" and out: "tx = the r" "nonces' = fmupd (w_Address w) n nonces"
    by (auto simp: makeTx_def Let_def n_def t_def split: option.splits)
  from SignTransaction_fields [OF s [unfolded none]] obtain tx' where tx': "r = Some tx'" "tx_To tx' = tx_To t"
    "tx_Amount tx' = tx_Amount t" "tx_Fee tx' = tx_Fee t" "tx_Nonce tx' = tx_Nonce t" by blast
  have "VerifyTransactionSignature G tx' = None"
    by (rule SignTransaction_verifies [OF assms(1,2) s [unfolded none tx'(1)]])
  with tx' out show ?thesis by (simp add: t_def n_def get_or_def)
qed

text \<open>The command's reorganisation depth is the one that the chain itself computes.\<close>

lemma computeReorgDepth_equal: "computeReorgDepth old new = fst (computeReorgDepthAndSlot old new)"
  by (simp add: computeReorgDepth_def computeReorgDepthAndSlot_def Let_def split: option.split)

end
