(* ===== verification/Demonstration.thy ===== *)
theory Demonstration
  imports Adding External Runs Command
begin

text \<open>
  The command as a whole.  \<open>main\<close> numbers the payments of a wallet with one counter, whatever branch they go to, while
  the ledger of a branch counts only the payments on that branch.  Its third fork block carries Bob's second payment
  on a branch without his first one: the block is refused and \<open>main\<close> panics.
\<close>

section \<open>Runs that return\<close>

text \<open>\<open>ends m P\<close>: the run ends, in a panic or with a result that satisfies \<open>P\<close>.\<close>

definition ends :: "'a run \<Rightarrow> ('a \<Rightarrow> bool) \<Rightarrow> bool" where
  "ends m P \<longleftrightarrow> (case m of None \<Rightarrow> False | Some (Inl p) \<Rightarrow> True | Some (Inr x) \<Rightarrow> P x)"

lemma ends_simps [simp]: "ends (Some (Inl p)) P" "ends (Some (Inr x)) P \<longleftrightarrow> P x" "\<not> ends None P"
  by (simp_all add: ends_def)

lemma ends_then: "ends m P \<Longrightarrow> (\<And>x. m = Some (Inr x) \<Longrightarrow> P x \<Longrightarrow> ends (f x) Q) \<Longrightarrow> ends (and_then m f) Q"
  by (auto simp: ends_def and_then_def split: option.splits sum.splits)

lemma ends_must: "(\<And>x. r = Inr x \<Longrightarrow> P x) \<Longrightarrow> ends (must r) P"
  by (auto simp: must_def split: sum.split)

lemma ends_check: "(err = None \<Longrightarrow> P x) \<Longrightarrow> ends (check err x) P"
  by (auto simp: check_def must_def split: option.split)

lemma must_Inr [simp]: "must r = Some (Inr x) \<longleftrightarrow> r = Inr x"
  by (auto simp: must_def split: sum.split)

lemma check_Inr [simp]: "check err x = Some (Inr y) \<longleftrightarrow> err = None \<and> y = x"
  by (auto simp: check_def must_def split: option.split)

lemma and_then_Inr: "and_then m f = Some (Inr y) \<longleftrightarrow> (\<exists>x. m = Some (Inr x) \<and> f x = Some (Inr y))"
  by (auto simp: and_then_def split: option.split sum.split)

lemma and_then_panic: "m = Some (Inr x) \<Longrightarrow> f x = Some (Inl p) \<Longrightarrow> and_then m f = Some (Inl p)"
  by (simp add: and_then_def)

section \<open>Payments\<close>

definition owns :: "golib \<Rightarrow> Wallet \<Rightarrow> bool" where
  "owns G w \<longleftrightarrow> (\<exists>pub. ecMarshal (pub_point (w_PrivateKey w)) = Inr pub \<and> w_Address w = sum_hex G pub)"

lemma NewWallet_owns: "NewWallet G r = Inr w \<Longrightarrow> owns G w"
  by (auto simp: NewWallet_def owns_def AddressFromPubKey_def Let_def split: sum.splits)

lemma pay_run:
  assumes "owns G w"
  shows "ends (pay G rnd w to amount fee nonces) (\<lambda>(nonces', tx).
    nonces' = fmupd (w_Address w) (get_or 0 nonces (w_Address w) + 1) nonces \<and> tx_From tx = w_Address w \<and>
    tx_Nonce tx = get_or 0 nonces (w_Address w) + 1)"
proof -
  obtain pub where pub: "ecMarshal (pub_point (w_PrivateKey w)) = Inr pub" "w_Address w = sum_hex G pub"
    using assms by (auto simp: owns_def)
  show ?thesis
    by (auto simp: pay_def makeTx_def SignTransaction_def AddressFromPubKey_def pub Let_def intro!: ends_then [OF ends_must]
        split: sum.split)
qed

section \<open>Blocks\<close>

text \<open>\<open>running bc\<close>: a well-formed chain with a clock.\<close>

definition running :: "('bs, 'ss) Blockchain \<Rightarrow> bool" where
  "running bc \<longleftrightarrow> canonical_ok bc \<and> bc_poh bc \<noteq> None \<and> chainTipSlot bc \<noteq> - 1"

text \<open>\<open>drawn G h bc bc' b\<close>: \<open>b\<close> was drafted on the block \<open>h\<close> at the next slot, where the clock now is.\<close>

definition drawn :: "golib \<Rightarrow> string \<Rightarrow> ('bs, 'ss) Blockchain \<Rightarrow> ('bs, 'ss) Blockchain \<Rightarrow> Block \<Rightarrow> bool" where
  "drawn G h bc bc' b \<longleftrightarrow> (\<exists>p parent state. bc_poh bc = Some p \<and> fmlookup (bc_Blocks bc) h = Some parent \<and>
     drafted G bc parent (fst (Tick G p TicksPerSlot)) state (b_Transactions b) b \<and> bc_poh bc' = Some (fst (Tick G p TicksPerSlot)))"

text \<open>\<open>added G txs h bc bc' b\<close>: the new block \<open>b\<close> on \<open>h\<close>, with these transactions, is stored.\<close>

definition added :: "golib \<Rightarrow> Transaction list \<Rightarrow> string \<Rightarrow> ('bs, 'ss) Blockchain \<Rightarrow> ('bs, 'ss) Blockchain \<Rightarrow> Block \<Rightarrow> bool" where
  "added G txs parent bc bc' b \<longleftrightarrow> b_Transactions b = txs \<and> b_PrevHash b = parent \<and> drawn G parent bc bc' b \<and> fmlookup (bc_Blocks bc) (b_Hash b) = None \<and>
     bc_Blocks bc' = fmupd (b_Hash b) b (bc_Blocks bc) \<and> bc_Genesis bc' = bc_Genesis bc \<and> running bc'"

lemma no_validators_error: "bc_Validators bc = fmempty \<Longrightarrow> \<exists>e. AddBlock G rnd txs bc = Some (bc, Some e)"
    "bc_Validators bc = fmempty \<Longrightarrow> \<exists>e. AddBlockExternal G rnd h txs bc = Some (bc, [], Some e)"
  by (simp_all add: AddBlock_def AddBlockExternal_def)

lemma commit_chain:
  assumes "canonical_ok bc" "canonical_ok bc'" "bc_Blocks bc' = fmupd (b_Hash b) b (bc_Blocks bc)"
    and "fmlookup (bc_Blocks bc) (b_Hash b) = None" "b_PrevHash b = bc_CanonicalTip bc"
    and "bc_CanonicalTip bc' = b_Hash b \<or> bc_CanonicalTip bc' = bc_CanonicalTip bc"
  shows "bc_Chain bc' = bc_Chain bc \<or> bc_Chain bc' = bc_Chain bc @ [b]"
proof -
  note ok = canonical_okD [OF assms(1)] and ok' = canonical_okD [OF assms(2)]
  have old: "rooted (bc_Blocks bc') (bc_CanonicalTip bc) (bc_Chain bc)"
    unfolding assms(3) by (rule rooted_mono [OF ok(3)]) (use assms(4) in auto)
  show ?thesis
    using assms(6)
  proof
    assume tip: "bc_CanonicalTip bc' = b_Hash b"
    have "b_PrevHash b \<noteq> ''GENESIS''" using tree_okD(3) [OF ok(1) rooted_last [OF ok(3)]] assms(5) by simp
    then have "rooted (bc_Blocks bc') (b_Hash b) (bc_Chain bc @ [b])"
      by (rule rooted.child [rotated]) (use old assms(3,5) in auto)
    from rooted_unique [OF this] ok'(3) tip show ?thesis by simp
  next
    assume "bc_CanonicalTip bc' = bc_CanonicalTip bc"
    from rooted_unique [OF old] ok'(3) this show ?thesis by simp
  qed
qed

lemma AddBlock_adds:
  assumes "running bc" "fresh_block G txs bc" "txs \<noteq> []"
  shows "\<exists>bc' err. AddBlock G rnd txs bc = Some (bc', err) \<and> (err = None \<longrightarrow>
    (\<exists>b. added G txs (bc_CanonicalTip bc) bc bc' b \<and> (bc_Chain bc' = bc_Chain bc \<or> bc_Chain bc' = bc_Chain bc @ [b])))"
proof (cases "bc_Validators bc = fmempty")
  case True
  from no_validators_error(1) [OF True] obtain e where "AddBlock G rnd txs bc = Some (bc, Some e)" by blast
  then show ?thesis by simp
next
  case False
  obtain p where p: "bc_poh bc = Some p" using assms(1) by (auto simp: running_def)
  have ok: "canonical_ok bc" "chainTipSlot bc \<noteq> - 1" using assms(1) by (simp_all add: running_def)
  note prev = canonical_tip_block [OF ok(1)]
  show ?thesis
  proof (cases rule: AddBlock_cases [OF False p, of G rnd txs, unfolded prev(1)])
    case (1 bc' e)
    then show ?thesis by simp
  next
    case (2 bc1 b)
    have fresh: "fmlookup (bc_Blocks bc) (b_Hash b) = None"
      by (rule drafted_unstored [OF 2(1)]) (use p assms(2) in \<open>simp add: fresh_block_def next_draft_def\<close>)
    from commit_drafted [OF ok(1) 2(3) ok(2) 2(1) fresh] obtain bc' err where
      r: "commit_block G b (leader_view G bc (Slot (fst (Tick G p TicksPerSlot)))) bc1 = Some (bc', err)" "canonical_ok bc'"
        "bc_CanonicalTip bc' = b_Hash b \<or> bc_CanonicalTip bc' = bc_CanonicalTip bc" "bc_poh bc' = bc_poh bc1"
        "chainTipSlot bc' \<noteq> - 1" "setup_kept bc1 bc'" "bc_Blocks bc' = fmupd (b_Hash b) b (bc_Blocks bc)"
      by blast
    have parent: "b_PrevHash b = bc_CanonicalTip bc" using draftedD(1) [OF 2(1)] prev(2) by simp
    have "setup_kept bc bc'" by (rule setup_kept_trans [OF setup_kept_untouched [OF 2(3)] r(6)])
    then have "added G txs (bc_CanonicalTip bc) bc bc' b"
      using r(2,4,5,7) 2(1,4,7) assms(3) draftedD(8) [OF 2(1)] fresh parent p prev(3)
      by (auto simp: added_def drawn_def running_def setup_kept_def)
    moreover have "bc_Chain bc' = bc_Chain bc \<or> bc_Chain bc' = bc_Chain bc @ [b]"
      by (rule commit_chain [OF ok(1) r(2,7) fresh parent r(3)])
    ultimately show ?thesis using r(1) 2(6) by auto
  qed
qed

lemma AddBlockExternal_adds:
  assumes "running bc" "fmlookup (bc_Blocks bc) h = Some parent" "fresh_child G h txs bc"
  shows "\<exists>bc' hash err. AddBlockExternal G rnd h txs bc = Some (bc', hash, err) \<and> (err = None \<longrightarrow>
    (\<exists>b. added G txs h bc bc' b \<and> hash = b_Hash b) \<and>
    (\<forall>c. rooted (bc_Blocks bc) h c \<longrightarrow> (\<exists>s. replay G (bc_Validators bc) (drop 1 c) (bc_Genesis bc) = Inr s)))"
proof (cases "bc_Validators bc = fmempty")
  case True
  from no_validators_error(2) [OF True] obtain e where "AddBlockExternal G rnd h txs bc = Some (bc, [], Some e)" by blast
  then show ?thesis by simp
next
  case False
  obtain p where p: "bc_poh bc = Some p" using assms(1) by (auto simp: running_def)
  have ok: "canonical_ok bc" "chainTipSlot bc \<noteq> - 1" using assms(1) by (simp_all add: running_def)
  note tree = canonical_okD(1) [OF ok(1)]
  obtain c where c: "rooted (bc_Blocks bc) h c" using tree_okD(4) [OF tree assms(2)] by blast
  show ?thesis
  proof (cases rule: AddBlockExternal_cases [OF ok(1) False p assms(2) c, of G rnd txs])
    case (1 bc' e)
    then show ?thesis by simp
  next
    case (2 bc1 b s)
    have fresh: "fmlookup (bc_Blocks bc) (b_Hash b) = None" by (rule fresh_childD [OF assms(3) ok(1) p assms(2) c 2(5,1)])
    from commit_on_parent [OF ok(1) 2(3) ok(2) 2(1) assms(2) fresh] obtain bc' err where
      r: "commit_block G b (leader_view G bc (Slot (fst (Tick G p TicksPerSlot)))) bc1 = Some (bc', err)" "canonical_ok bc'"
        "bc_Blocks bc' = fmupd (b_Hash b) b (bc_Blocks bc)" "bc_poh bc' = bc_poh bc1" "chainTipSlot bc' \<noteq> - 1" "setup_kept bc bc'"
      by blast
    have "b_PrevHash b = h" using draftedD(1) [OF 2(1)] tree_okD(1) [OF tree assms(2)] by simp
    then have "added G txs h bc bc' b"
      using r(2-6) 2(1,4,7) fresh p assms(2) by (auto simp: added_def drawn_def running_def setup_kept_def)
    moreover have "replay G (bc_Validators bc) (drop 1 d) (bc_Genesis bc) = Inr s" if "rooted (bc_Blocks bc) h d" for d
      using rooted_unique [OF c that] 2(5) by simp
    ultimately show ?thesis using r(1) 2(6) by auto
  qed
qed

section \<open>The start\<close>

text \<open>\<open>begun x g\<close>: a new chain, with the genesis block \<open>g\<close> only, and no payments counted.\<close>

definition begun :: "('bs, 'ss) Blockchain \<Rightarrow> Block \<Rightarrow> bool" where
  "begun x g \<longleftrightarrow> running x \<and> map_option p_CurrentTick (bc_poh x) = Some 0 \<and> bc_Chain x = [g] \<and> bc_Blocks x = fmupd (b_Hash g) g fmempty \<and>
     bc_CanonicalTip x = b_Hash g \<and> b_PrevHash g = ''GENESIS'' \<and> (\<forall>a. ac_Nonce (account_at (bc_Genesis x) a) = 0)"

lemma running_frame: "bc_Chain y = bc_Chain x \<Longrightarrow> bc_Blocks y = bc_Blocks x \<Longrightarrow> bc_CanonicalTip y = bc_CanonicalTip x \<Longrightarrow>
    bc_poh y = bc_poh x \<Longrightarrow> running y = running x"
  by (simp add: running_def canonical_ok_def chainTipSlot_def)

lemma begun_frame:
  "begun x g \<Longrightarrow> bc_Chain y = bc_Chain x \<Longrightarrow> bc_Blocks y = bc_Blocks x \<Longrightarrow> bc_CanonicalTip y = bc_CanonicalTip x \<Longrightarrow>
    bc_poh y = bc_poh x \<Longrightarrow> (\<And>a. ac_Nonce (account_at (bc_Genesis y) a) = ac_Nonce (account_at (bc_Genesis x) a)) \<Longrightarrow> begun y g"
  using running_frame [of y x] by (simp add: begun_def)

lemma begun_SetBalance:
  assumes "begun x g \<and> (\<forall>a. ac_Nonce (account_at (bc_State x) a) = 0)"
  shows "begun (SetBalance a n x) g \<and> (\<forall>c. ac_Nonce (account_at (bc_State (SetBalance a n x)) c) = 0)"
proof -
  have "begun (SetBalance a n x) g"
    using assms by (auto simp: SetBalance_def Let_def get_or_def intro!: begun_frame [of x g]) (auto simp: begun_def get_or_def)
  with assms show ?thesis by (auto simp: SetBalance_def Let_def get_or_def)
qed

lemma NewNode_begun:
  fixes G :: golib and cfg :: Config and clock :: "i64 option"
  defines "g \<equiv> genesis_block G (fresh_seed (cf_Chain cfg) clock)"
  assumes "\<forall>bd' s. NewFileBlockStore J (cf_DataDir cfg) bd = (bd', Inr s) \<longrightarrow> file_GetTip s = None"
  shows "\<exists>bd' sd' r. NewNode G J cfg clock bd sd = Some (bd', sd', r) \<and>
    (\<forall>node. r = Inr node \<longrightarrow> begun (nd_Chain node) g \<and> bc_State (nd_Chain node) = fmempty)"
proof -
  obtain bc :: chain where bc: "NewBlockchain G (cf_Chain cfg) clock = Some bc" "bc_Chain bc = [g]"
    "bc_Blocks bc = fmupd (b_Hash g) g fmempty" "bc_CanonicalTip bc = b_Hash g" "bc_Genesis bc = fmempty" "bc_State bc = fmempty"
    "map_option p_CurrentTick (bc_poh bc) = Some 0"
    using NewBlockchain_run [of G "cf_Chain cfg" clock, where 'bs = FileBlockStore and 'ss = FileSnapshotStore]
    unfolding g_def NewPoH_def by auto
  have g: "b_PrevHash g = ''GENESIS''" "b_Slot g = 0" by (simp_all add: g_def genesis_block_fields)
  have "canonical_ok bc" using node_start [OF bc(1)] by (simp add: node_inv_def)
  moreover have "bc_poh bc \<noteq> None" using bc(7) by auto
  ultimately have start: "begun bc g" using bc(7) by (simp add: begun_def running_def bc(2-6) g chainTipSlot_def get_or_def)
  have stored: "begun (SetStorage b s bc) g" "bc_State (SetStorage b s bc) = fmempty" for b s
    using begun_frame [OF start, of "SetStorage b s bc"] by (simp_all add: SetStorage_def Let_def bc(6))
  have again: "SetStorage b s (SetStorage b' s' bc) = SetStorage b s bc" for b s b' s' by (simp add: SetStorage_def Let_def)
  show ?thesis
  proof (cases "NewFileBlockStore J (cf_DataDir cfg) bd")
    case (Pair bd' r)
    show ?thesis
    proof (cases r)
      case (Inl e)
      with Pair show ?thesis using start bc(6) by (simp add: NewNode_def bc(1))
    next
      case (Inr st)
      let ?bst = "file_block_store J st"
      have tip: "bs_GetTip ?bst (bs_state ?bst) = None" using assms(2) Pair Inr by (simp add: file_block_store_def)
      have chain: "bc_Chain (SetStorage (Some ?bst) sst bc) = [g]" for sst by (simp add: SetStorage_def Let_def bc(2))
      show ?thesis
        using Pair Inr start bc(6) stored
        by (cases "NewFileSnapshotStore (cf_DataDir cfg) sd")
          (auto simp: NewNode_def bc(1) fresh_restore [OF tip chain] again Let_def split: sum.split)
    qed
  qed
qed

lemma register_begun:
  assumes "begun x g" "bc_State x = fmempty"
  shows "ends (register name stake w x) (\<lambda>y. begun y g \<and> bc_State y = fmempty)"
  using assms by (auto simp: register_def AddValidatorTo_def Let_def intro!: ends_check begun_frame [OF assms(1)] split: prod.split)

definition main_config :: Config where
  "main_config = DefaultConfig\<lparr>cf_Chain := (cf_Chain DefaultConfig)\<lparr>cfg_DeterministicPoH := True, cfg_PoHSeed := 1\<rparr>\<rparr>"

definition balances :: "Wallet \<Rightarrow> Wallet \<Rightarrow> Wallet \<Rightarrow> chain \<Rightarrow> chain" where
  "balances alice bob charlie x =
    SetBalance (w_Address charlie) 80 (SetBalance (w_Address bob) 100 (SetBalance (w_Address alice) 200 x))"

lemma balances_begun:
  assumes "begun x g" "bc_State x = fmempty"
  shows "begun (balances alice bob charlie x) g"
proof -
  have "begun x g \<and> (\<forall>a. ac_Nonce (account_at (bc_State x) a) = 0)" using assms by (simp add: get_or_def)
  from begun_SetBalance [OF begun_SetBalance [OF begun_SetBalance [OF this]]] show ?thesis
    unfolding balances_def by blast
qed

lemma registrations_end:
  assumes "begun x g" "bc_State x = fmempty"
  shows "ends (and_then (register ''Alice'' 100 alice x) (\<lambda>x. and_then (register ''Bob'' 60 bob x) (\<lambda>x.
      and_then (register ''Charlie'' 40 charlie x) (\<lambda>x. Some (Inr (balances alice bob charlie x, alice, bob, charlie))))))
      (\<lambda>(x, a, b, c). begun x g \<and> a = alice \<and> b = bob \<and> c = charlie)" (is "ends ?m ?Q")
proof (rule ends_then [OF register_begun [OF assms]], elim conjE)
  fix y :: chain assume y: "begun y g" "bc_State y = fmempty"
  show "ends (and_then (register ''Bob'' 60 bob y) (\<lambda>x. and_then (register ''Charlie'' 40 charlie x)
      (\<lambda>x. Some (Inr (balances alice bob charlie x, alice, bob, charlie))))) ?Q"
  proof (rule ends_then [OF register_begun [OF y]], elim conjE)
    fix z :: chain assume z: "begun z g" "bc_State z = fmempty"
    show "ends (and_then (register ''Charlie'' 40 charlie z)
        (\<lambda>x. Some (Inr (balances alice bob charlie x, alice, bob, charlie)))) ?Q"
      by (rule ends_then [OF register_begun [OF z]]) (use balances_begun in auto)
  qed
qed

lemma wallets_end:
  assumes "\<And>a b c. NewWallet G (rnd 0) = Inr a \<Longrightarrow> NewWallet G (rnd 1) = Inr b \<Longrightarrow> NewWallet G (rnd 2) = Inr c \<Longrightarrow> ends (k a b c) Q"
  shows "ends (and_then (must (NewWallet G (rnd 0))) (\<lambda>alice. and_then (must (NewWallet G (rnd 1))) (\<lambda>bob.
      and_then (must (NewWallet G (rnd 2))) (k alice bob)))) Q"
  using assms by (auto simp: and_then_def must_def split: sum.split)

lemma main_setup_ends:
  assumes "\<forall>bd' s. NewFileBlockStore J ''data'' bd = (bd', Inr s) \<longrightarrow> file_GetTip s = None"
  shows "ends (main_setup G J rnd clock bd sd) (\<lambda>(x, alice, bob, charlie). begun x (genesis_block G 1) \<and>
    NewWallet G (rnd 0) = Inr alice \<and> NewWallet G (rnd 1) = Inr bob \<and> NewWallet G (rnd 2) = Inr charlie)"
proof -
  have "cf_DataDir main_config = ''data''" and seed: "fresh_seed (cf_Chain main_config) (Some clock) = 1"
    by (simp_all add: main_config_def DefaultConfig_def fresh_seed_def)
  with assms have "\<forall>bd' s. NewFileBlockStore J (cf_DataDir main_config) bd = (bd', Inr s) \<longrightarrow> file_GetTip s = None" by simp
  from NewNode_begun [OF this, of G "Some clock" sd] obtain bd' sd' r where
    n: "NewNode G J main_config (Some clock) bd sd = Some (bd', sd', r)" and
    start: "\<And>node. r = Inr node \<Longrightarrow> begun (nd_Chain node) (genesis_block G 1) \<and> bc_State (nd_Chain node) = fmempty"
    by (auto simp: seed)
  have run: "main_setup G J rnd clock bd sd = and_then (must r) (\<lambda>node.
      and_then (must (NewWallet G (rnd 0))) (\<lambda>alice. and_then (must (NewWallet G (rnd 1))) (\<lambda>bob.
      and_then (must (NewWallet G (rnd 2))) (\<lambda>charlie.
      and_then (register ''Alice'' 100 alice (nd_Chain node)) (\<lambda>x. and_then (register ''Bob'' 60 bob x) (\<lambda>x.
      and_then (register ''Charlie'' 40 charlie x) (\<lambda>x.
        Some (Inr (balances alice bob charlie x, alice, bob, charlie)))))))))"
    using n by (simp add: main_setup_def main_config_def balances_def Let_def)
  show ?thesis
    unfolding run
  proof (rule ends_then [OF ends_must [OF start]], assumption, elim conjE, rule wallets_end)
    fix node a b c
    assume "begun (nd_Chain node) (genesis_block G 1)" "bc_State (nd_Chain node) = fmempty" and w: "NewWallet G (rnd 0) = Inr a"
      "NewWallet G (rnd 1) = Inr b" "NewWallet G (rnd 2) = Inr c"
    from registrations_end [OF this(1,2), of a b c] w show "ends (and_then (register ''Alice'' 100 a (nd_Chain node)) (\<lambda>x.
        and_then (register ''Bob'' 60 b x) (\<lambda>x. and_then (register ''Charlie'' 40 c x)
          (\<lambda>x. Some (Inr (balances a b c x, a, b, c))))))
      (\<lambda>(x, alice, bob, charlie). begun x (genesis_block G 1) \<and> NewWallet G (rnd 0) = Inr alice \<and> NewWallet G (rnd 1) = Inr bob \<and>
        NewWallet G (rnd 2) = Inr charlie)"
      by (auto simp: ends_def split: option.splits sum.splits)
  qed
qed

section \<open>The payments\<close>

lemma add_payment_ends:
  assumes "running x" "fresh_block G [tx] x"
  shows "ends (add_payment G rnd tx x) (\<lambda>y. \<exists>b. added G [tx] (bc_CanonicalTip x) x y b \<and>
    (bc_Chain y = bc_Chain x \<or> bc_Chain y = bc_Chain x @ [b]))"
  unfolding add_payment_def
proof (rule ends_then [OF ends_check [where P = "\<lambda>_. True"]], rule TrueI)
  from AddBlock_adds [OF assms, of rnd] obtain y err where "AddBlock G rnd [tx] x = Some (y, err)"
    "err = None \<longrightarrow> (\<exists>b. added G [tx] (bc_CanonicalTip x) x y b \<and> (bc_Chain y = bc_Chain x \<or> bc_Chain y = bc_Chain x @ [b]))"
    by auto
  then show "ends (case AddBlock G rnd [tx] x of None \<Rightarrow> None | Some (xenium, err) \<Rightarrow> check err xenium)
    (\<lambda>y. \<exists>b. added G [tx] (bc_CanonicalTip x) x y b \<and> (bc_Chain y = bc_Chain x \<or> bc_Chain y = bc_Chain x @ [b]))"
    by (auto intro!: ends_check)
qed

lemma add_external_ends:
  assumes "running x" "fmlookup (bc_Blocks x) h = Some parent" "fresh_child G h [tx] x"
  shows "ends (add_external G rnd h tx x) (\<lambda>(y, hash). (\<exists>b. added G [tx] h x y b \<and> hash = b_Hash b) \<and>
    (\<forall>c. rooted (bc_Blocks x) h c \<longrightarrow> (\<exists>s. replay G (bc_Validators x) (drop 1 c) (bc_Genesis x) = Inr s)))"
  using AddBlockExternal_adds [OF assms, of rnd] by (auto simp: add_external_def intro!: ends_check)

lemma added_rooted:
  assumes "running x" "added G txs h x y b" "rooted (bc_Blocks x) k c"
  shows "rooted (bc_Blocks y) k c"
  using assms(2) by (intro rooted_mono [OF assms(3)]) (auto simp: added_def)

text \<open>After the two payments, the block at height 1 of a chain that is long enough holds Alice's payment alone.\<close>

definition paid_alice :: "chain \<Rightarrow> Block \<Rightarrow> Block \<Rightarrow> string \<Rightarrow> bool" where
  "paid_alice y g b1 sender \<longleftrightarrow> running y \<and> rooted (bc_Blocks y) (b_Hash b1) [g, b1] \<and>
     (\<exists>tx. b_Transactions b1 = [tx] \<and> tx_From tx = sender) \<and> (\<forall>a. ac_Nonce (account_at (bc_Genesis y) a) = 0)"

lemma canonical_tip_hash: "running x \<Longrightarrow> bc_CanonicalTip x = b_Hash (last (bc_Chain x))"
  using canonical_tip_block(2) [of x] by (simp add: running_def)

lemma main_blocks_ends:
  assumes "begun x g" "owns G alice" "owns G bob" "w_Address alice \<noteq> w_Address bob"
    and "\<And>n1 tx1. pay G (rnd 3) alice (w_Address bob) 50 1 fmempty = Some (Inr (n1, tx1)) \<Longrightarrow> fresh_block G [tx1] x"
    and "\<And>n1 tx1 y n2 tx2. pay G (rnd 3) alice (w_Address bob) 50 1 fmempty = Some (Inr (n1, tx1)) \<Longrightarrow>
      add_payment G (rnd 4) tx1 x = Some (Inr y) \<Longrightarrow> pay G (rnd 5) bob (w_Address charlie) 20 1 n1 = Some (Inr (n2, tx2)) \<Longrightarrow>
      fresh_block G [tx2] y"
  shows "ends (main_blocks G rnd alice bob charlie x) (\<lambda>(y, nonces). get_or 0 nonces (w_Address bob) = 1 \<and> running y \<and>
    (3 \<le> length (bc_Chain y) \<longrightarrow> paid_alice y g (bc_Chain y ! 1) (w_Address alice)))" (is "ends _ ?P")
  unfolding main_blocks_def
proof (rule ends_then [OF pay_run [OF assms(2)]], safe)
  fix nonces1 tx1
  let ?nonces1 = "fmupd (w_Address alice) (get_or 0 fmempty (w_Address alice) + 1) fmempty"
  assume paid: "pay G (rnd 3) alice (w_Address bob) 50 1 fmempty = Some (Inr (?nonces1, tx1))"
    and tx1: "tx_From tx1 = w_Address alice"
  have x: "running x" "bc_Chain x = [g]" using assms(1) by (simp_all add: begun_def)
  show "ends (and_then (add_payment G (rnd 4) tx1 x) (\<lambda>xenium.
      and_then (pay G (rnd 5) bob (w_Address charlie) 20 1 ?nonces1) (\<lambda>(nonces, tx2).
      and_then (add_payment G (rnd 6) tx2 xenium) (\<lambda>xenium. Some (Inr (xenium, nonces)))))) ?P"
  proof (rule ends_then [OF add_payment_ends [OF x(1) assms(5) [OF paid]]], elim exE conjE)
    fix y b
    assume y: "add_payment G (rnd 4) tx1 x = Some (Inr y)" "added G [tx1] (bc_CanonicalTip x) x y b"
      and cy: "bc_Chain y = bc_Chain x \<or> bc_Chain y = bc_Chain x @ [b]"
    have run: "running y" using y(2) by (simp add: added_def)
    show "ends (and_then (pay G (rnd 5) bob (w_Address charlie) 20 1 ?nonces1) (\<lambda>(nonces, tx2).
        and_then (add_payment G (rnd 6) tx2 y) (\<lambda>xenium. Some (Inr (xenium, nonces))))) ?P"
    proof (rule ends_then [OF pay_run [OF assms(3)]], safe)
      fix tx2
      let ?nonces2 = "fmupd (w_Address bob) (get_or 0 ?nonces1 (w_Address bob) + 1) ?nonces1"
      assume "pay G (rnd 5) bob (w_Address charlie) 20 1 ?nonces1 = Some (Inr (?nonces2, tx2))"
      note fresh = assms(6) [OF paid y(1) this]
      show "ends (and_then (add_payment G (rnd 6) tx2 y) (\<lambda>xenium. Some (Inr (xenium, ?nonces2)))) ?P"
      proof (rule ends_then [OF add_payment_ends [OF run fresh]], elim exE conjE)
        fix z c
        assume z: "added G [tx2] (bc_CanonicalTip y) y z c" and cz: "bc_Chain z = bc_Chain y \<or> bc_Chain z = bc_Chain y @ [c]"
        have "paid_alice z g (bc_Chain z ! 1) (w_Address alice)" if "3 \<le> length (bc_Chain z)"
        proof -
          from that cy cz x(2) have chains: "bc_Chain y = [g, b]" "bc_Chain z = [g, b, c]" by auto
          have "rooted (bc_Blocks y) (b_Hash b) [g, b]"
            using run canonical_okD(3) [of y] canonical_tip_hash [OF run] by (simp add: running_def chains(1))
          from added_rooted [OF run z this] have "rooted (bc_Blocks z) (b_Hash b) [g, b]" .
          with y(2) z tx1 assms(1) show ?thesis by (simp add: chains(2) paid_alice_def added_def begun_def)
        qed
        then show "ends (Some (Inr (z, ?nonces2))) ?P" using z assms(4) by (simp add: added_def get_or_def)
      qed
    qed
  qed
qed

lemma paid_alice_only:
  assumes "only_snapshots y z" "paid_alice y g b s"
  shows "paid_alice z g b s"
proof -
  note f = only_snapshots_frame [OF assms(1)]
  have "running z" using assms(2) running_frame [OF f(1,2,4,7)] by (simp add: paid_alice_def)
  with assms(2) f show ?thesis by (simp add: paid_alice_def)
qed

lemma main_before_ends:
  assumes "running y"
  shows "ends (main_before G y) (\<lambda>(z, bf). 3 \<le> length (bc_Chain y) \<and> only_snapshots y z \<and> bf_Parent bf = b_Hash (bc_Chain y ! 1))"
proof -
  have "rooted (bc_Blocks y) (bc_CanonicalTip y) (bc_Chain y)" using assms canonical_okD(3) [of y] by (simp add: running_def)
  from scoreTip_rooted [OF this, of G] obtain z where z: "scoreTip G (bc_CanonicalTip y) y = Some (z, score_of y (bc_Chain y))" "only_snapshots y z"
    by blast
  then show ?thesis
    using only_snapshots_frame(1) [OF z(2)] by (simp add: main_before_def ScoreTip_def CanonicalTipHash_def Let_def)
qed

lemma paid_alice_added:
  assumes "paid_alice y g b1 s" "added G txs h y z b"
  shows "paid_alice z g b1 s"
  using assms added_rooted [OF _ assms(2)] by (simp add: paid_alice_def added_def)

lemma paid_alice_parent: "paid_alice y g b1 s \<Longrightarrow> fmlookup (bc_Blocks y) (b_Hash b1) = Some b1"
  using rooted_last by (fastforce simp: paid_alice_def)

lemma main_fork_ends:
  assumes "paid_alice y g b1 s" "owns G charlie" "owns G alice" "bob \<notin> {w_Address alice, w_Address charlie}"
    and "\<And>n3 tx3. pay G (rnd 7) charlie (w_Address alice) 10 1 nonces = Some (Inr (n3, tx3)) \<Longrightarrow> fresh_child G (b_Hash b1) [tx3] y"
    and "\<And>n3 tx3 u hash n4 tx4. pay G (rnd 7) charlie (w_Address alice) 10 1 nonces = Some (Inr (n3, tx3)) \<Longrightarrow>
      add_external G (rnd 8) (b_Hash b1) tx3 y = Some (Inr (u, hash)) \<Longrightarrow>
      pay G (rnd 9) alice (w_Address w) 5 1 n3 = Some (Inr (n4, tx4)) \<Longrightarrow> fresh_child G hash [tx4] u"
  shows "ends (main_fork G rnd alice w charlie (b_Hash b1) nonces y) (\<lambda>(z, nonces', hash).
    paid_alice z g b1 s \<and> get_or 0 nonces' bob = get_or 0 nonces bob)" (is "ends _ ?P")
  unfolding main_fork_def
proof (rule ends_then [OF pay_run [OF assms(2)]], safe)
  fix tx3
  let ?n1 = "fmupd (w_Address charlie) (get_or 0 nonces (w_Address charlie) + 1) nonces"
  assume paid: "pay G (rnd 7) charlie (w_Address alice) 10 1 nonces = Some (Inr (?n1, tx3))"
  have run: "running y" using assms(1) by (simp add: paid_alice_def)
  have second: "ends (and_then (pay G (rnd 9) alice (w_Address w) 5 1 ?n1) (\<lambda>(nonces, tx4).
      and_then (check (VerifyTransactionSignature G tx4) ()) (\<lambda>_.
      and_then (add_external G (rnd 10) (b_Hash b) tx4 z) (\<lambda>(xenium, forkHash). Some (Inr (xenium, nonces, forkHash)))))) ?P"
    if z: "add_external G (rnd 8) (b_Hash b1) tx3 y = Some (Inr (z, b_Hash b))" "added G [tx3] (b_Hash b1) y z b" for z b
  proof (rule ends_then [OF pay_run [OF assms(3)]], safe, rule ends_then [OF ends_check [where P = "\<lambda>_. True"]], rule TrueI)
    fix tx4
    let ?n2 = "fmupd (w_Address alice) (get_or 0 ?n1 (w_Address alice) + 1) ?n1"
    assume paid2: "pay G (rnd 9) alice (w_Address w) 5 1 ?n1 = Some (Inr (?n2, tx4))"
    have b: "fmlookup (bc_Blocks z) (b_Hash b) = Some b" "running z" using z(2) by (simp_all add: added_def)
    note start = paid_alice_added [OF assms(1) z(2)]
    show "ends (and_then (add_external G (rnd 10) (b_Hash b) tx4 z) (\<lambda>(xenium, forkHash). Some (Inr (xenium, ?n2, forkHash)))) ?P"
      by (rule ends_then [OF add_external_ends [OF b(2,1) assms(6) [OF paid z(1) paid2]]])
        (use assms(4) paid_alice_added [OF start] in \<open>auto simp: get_or_def\<close>)
  qed
  show "ends (and_then (check (VerifyTransactionSignature G tx3) ()) (\<lambda>_.
      and_then (add_external G (rnd 8) (b_Hash b1) tx3 y) (\<lambda>(xenium, forkHash).
      and_then (pay G (rnd 9) alice (w_Address w) 5 1 ?n1) (\<lambda>(nonces, tx4).
      and_then (check (VerifyTransactionSignature G tx4) ()) (\<lambda>_.
      and_then (add_external G (rnd 10) forkHash tx4 xenium) (\<lambda>(xenium, forkHash). Some (Inr (xenium, nonces, forkHash)))))))) ?P"
  proof (rule ends_then [OF ends_check [where P = "\<lambda>_. True"]], rule TrueI,
      rule ends_then [OF add_external_ends [OF run paid_alice_parent [OF assms(1)] assms(5) [OF paid]]], clarify)
    fix z b
    assume "add_external G (rnd 8) (b_Hash b1) tx3 y = Some (Inr (z, b_Hash b))" "added G [tx3] (b_Hash b1) y z b"
    from second [OF this] show "ends (and_then (pay G (rnd 9) alice (w_Address w) 5 1 ?n1) (\<lambda>(nonces, tx4).
      and_then (check (VerifyTransactionSignature G tx4) ()) (\<lambda>_.
      and_then (add_external G (rnd 10) (b_Hash b) tx4 z) (\<lambda>(xenium, forkHash). Some (Inr (xenium, nonces, forkHash)))))) ?P" .
  qed
qed

text \<open>A payment whose nonce does not follow the sender's payments on the branch is refused.\<close>

lemma stale_nonce_refused:
  assumes "running bc" "fmlookup (bc_Blocks bc) h = Some parent" "rooted (bc_Blocks bc) h c"
    and "\<And>s. replay G (bc_Validators bc) (drop 1 c) (bc_Genesis bc) = Inr s \<Longrightarrow> ac_Nonce (account_at s (tx_From tx)) + 1 \<noteq> tx_Nonce tx"
  shows "\<exists>bc' e. AddBlockExternal G rnd h [tx] bc = Some (bc', [], Some e)"
proof (cases "bc_Validators bc = fmempty")
  case True
  then show ?thesis using no_validators_error(2) by blast
next
  case False
  obtain p where p: "bc_poh bc = Some p" using assms(1) by (auto simp: running_def)
  have ok: "canonical_ok bc" using assms(1) by (simp add: running_def)
  show ?thesis
  proof (cases rule: AddBlockExternal_cases [OF ok False p assms(2,3), of G rnd "[tx]"])
    case (1 bc' e)
    then show ?thesis by blast
  next
    case (2 bc1 b s)
    then obtain s' where "ApplyTransactions s [tx] (validatorRewardAddress G (bc_Validators bc) (b_Validator b)) = Inr s'"
      by (auto simp: acceptable_def)
    then have "payable s tx" unfolding ApplyTransactions_single apply_tx_Inr by blast
    with assms(4) [OF 2(5)] show ?thesis by (simp add: payable_def)
  qed
qed

lemma main_more_forks_ends:
  assumes "paid_alice y g b1 (w_Address alice)" "owns G bob" "w_Address alice \<noteq> w_Address bob" "get_or 0 nonces (w_Address bob) = 1"
  shows "ends (main_more_forks G rnd alice bob charlie (b_Hash b1) nonces y) (\<lambda>_. False)"
  unfolding main_more_forks_def
proof (rule ends_then [OF pay_run [OF assms(2)]], clarify)
  fix tx :: Transaction
  let ?n = "fmupd (w_Address bob) (get_or 0 nonces (w_Address bob) + 1) nonces"
  assume tx: "tx_From tx = w_Address bob" "tx_Nonce tx = get_or 0 nonces (w_Address bob) + 1"
  have y: "running y" "rooted (bc_Blocks y) (b_Hash b1) [g, b1]" using assms(1) by (simp_all add: paid_alice_def)
  obtain tx1 where b1: "b_Transactions b1 = [tx1]" "tx_From tx1 = w_Address alice" and
    zero: "\<And>a. ac_Nonce (account_at (bc_Genesis y) a) = 0" using assms(1) by (auto simp: paid_alice_def)
  have "ac_Nonce (account_at s (tx_From tx)) + 1 \<noteq> tx_Nonce tx"
    if "replay G (bc_Validators y) (drop 1 [g, b1]) (bc_Genesis y) = Inr s" for s
  proof -
    from that have "apply_tx (validatorRewardAddress G (bc_Validators y) (b_Validator b1)) 0 tx1 (bc_Genesis y) = Inr s"
      by (auto simp: b1(1) ApplyTransactions_single split: sum.splits)
    from apply_tx_nonce [OF this, of "tx_From tx"] show ?thesis using assms(3,4) tx b1(2) zero by simp
  qed
  from stale_nonce_refused [OF y(1) paid_alice_parent [OF assms(1)] y(2) this] obtain z e where
    "AddBlockExternal G (rnd 12) (b_Hash b1) [tx] y = Some (z, [], Some e)" by blast
  then have "add_external G (rnd 12) (b_Hash b1) tx y = Some (Inl (PanicError e))"
    by (simp add: add_external_def check_def must_def)
  then show "ends (and_then (add_external G (rnd 12) (b_Hash b1) tx y) (\<lambda>(xenium, _).
      and_then (pay G (rnd 13) alice (w_Address bob) 3 1 ?n) (\<lambda>(nonces, tx).
      and_then (add_external G (rnd 14) (b_Hash b1) tx xenium) (\<lambda>(xenium, forkB).
      and_then (pay G (rnd 15) bob (w_Address charlie) 1 1 nonces) (\<lambda>(nonces, tx).
      and_then (add_external G (rnd 16) forkB tx xenium) (\<lambda>(xenium, _). Some (Inr xenium))))))) (\<lambda>_. False)"
    by (simp add: and_then_def)
qed

text \<open>From the fork on, the run cannot end but in a panic, whatever comes after it.\<close>

lemma forks_end:
  assumes "paid_alice z g b1 (w_Address alice)" "owns G alice" "owns G bob" "owns G charlie"
    and "w_Address bob \<notin> {w_Address alice, w_Address charlie}" "get_or 0 nonces (w_Address bob) = 1"
    and "\<And>n3 tx3. pay G (rnd 7) charlie (w_Address alice) 10 1 nonces = Some (Inr (n3, tx3)) \<Longrightarrow> fresh_child G (b_Hash b1) [tx3] z"
    and "\<And>n3 tx3 u hash n4 tx4. pay G (rnd 7) charlie (w_Address alice) 10 1 nonces = Some (Inr (n3, tx3)) \<Longrightarrow>
      add_external G (rnd 8) (b_Hash b1) tx3 z = Some (Inr (u, hash)) \<Longrightarrow>
      pay G (rnd 9) alice (w_Address bob) 5 1 n3 = Some (Inr (n4, tx4)) \<Longrightarrow> fresh_child G hash [tx4] u"
  shows "ends (and_then (main_fork G rnd alice bob charlie (b_Hash b1) nonces z) (\<lambda>(xenium, nonces, forkHash).
    and_then (main_more_forks G rnd alice bob charlie (b_Hash b1) nonces xenium) (k forkHash))) (\<lambda>_. False)"
proof (rule ends_then [OF main_fork_ends [OF assms(1,4,2,5,7,8)]], assumption, assumption, assumption, assumption, clarify)
  fix u nonces' hash
  assume u: "paid_alice u g b1 (w_Address alice)" "get_or 0 nonces' (w_Address bob) = get_or 0 nonces (w_Address bob)"
  have "ends (main_more_forks G rnd alice bob charlie (b_Hash b1) nonces' u) (\<lambda>_. False)"
    by (rule main_more_forks_ends [OF u(1) assms(3)]) (use assms(5,6) u(2) in auto)
  then show "ends (and_then (main_more_forks G rnd alice bob charlie (b_Hash b1) nonces' u) (k hash)) (\<lambda>_. False)"
    by (rule ends_then) simp
qed

section \<open>The property\<close>

text \<open>
  \<open>no_main_collision\<close>: none of the first four blocks that \<open>main\<close> makes, each of the one transaction that \<open>main\<close> puts
  into it, has the hash of a block stored before it.
\<close>

definition no_main_collision :: "golib \<Rightarrow> jsonlib \<Rightarrow> (nat \<Rightarrow> nat) \<Rightarrow> i64 \<Rightarrow> disk \<Rightarrow> disk \<Rightarrow> bool" where
  "no_main_collision G J rnd clock bd sd \<longleftrightarrow>
    (\<forall>x alice bob charlie. main_setup G J rnd clock bd sd = Some (Inr (x, alice, bob, charlie)) \<longrightarrow>
      (\<forall>n1 tx1. pay G (rnd 3) alice (w_Address bob) 50 1 fmempty = Some (Inr (n1, tx1)) \<longrightarrow>
        fresh_block G [tx1] x \<and>
        (\<forall>y n2 tx2. add_payment G (rnd 4) tx1 x = Some (Inr y) \<longrightarrow>
          pay G (rnd 5) bob (w_Address charlie) 20 1 n1 = Some (Inr (n2, tx2)) \<longrightarrow> fresh_block G [tx2] y)) \<and>
      (\<forall>y nonces z bf n3 tx3. main_blocks G rnd alice bob charlie x = Some (Inr (y, nonces)) \<longrightarrow>
        main_before G y = Some (Inr (z, bf)) \<longrightarrow>
        pay G (rnd 7) charlie (w_Address alice) 10 1 nonces = Some (Inr (n3, tx3)) \<longrightarrow>
        fresh_child G (bf_Parent bf) [tx3] z \<and>
        (\<forall>u hash n4 tx4. add_external G (rnd 8) (bf_Parent bf) tx3 z = Some (Inr (u, hash)) \<longrightarrow>
          pay G (rnd 9) alice (w_Address bob) 5 1 n3 = Some (Inr (n4, tx4)) \<longrightarrow> fresh_child G hash [tx4] u)))"

lemma main_rest_ends:
  assumes "no_main_collision G J rnd clock bd sd" "main_setup G J rnd clock bd sd = Some (Inr (x, alice, bob, charlie))"
    and "begun x g" "owns G alice" "owns G bob" "owns G charlie" "w_Address bob \<notin> {w_Address alice, w_Address charlie}"
  shows "ends (main_rest G ratio rate0 percent rnd (x, alice, bob, charlie)) (\<lambda>_. False)"
proof -
  note coll = assms(1) [unfolded no_main_collision_def, rule_format, OF assms(2)]
  note first = conjunct1 [OF conjunct1 [OF coll, rule_format]] and second = conjunct2 [OF conjunct1 [OF coll, rule_format], rule_format]
  note third = conjunct1 [OF conjunct2 [OF coll, rule_format]] and fourth = conjunct2 [OF conjunct2 [OF coll, rule_format], rule_format]
  show ?thesis
    unfolding main_rest_def prod.case
  proof (rule ends_then [OF main_blocks_ends [OF assms(3-5)]], goal_cases)
    case 1 show ?case using assms(7) by auto
  next
    case 2 then show ?case by (rule first)
  next
    case 3 then show ?case by (rule second)
  next
    case (4 yn)
    then obtain y nonces where yn: "yn = (y, nonces)" "main_blocks G rnd alice bob charlie x = Some (Inr (y, nonces))"
      and y: "get_or 0 nonces (w_Address bob) = 1" "running y"
        "3 \<le> length (bc_Chain y) \<longrightarrow> paid_alice y g (bc_Chain y ! 1) (w_Address alice)" by (cases yn) auto
    show ?case unfolding yn(1) prod.case
    proof (rule ends_then [OF main_before_ends [OF y(2)]], clarify)
      fix z bf
      assume z: "main_before G y = Some (Inr (z, bf))" "3 \<le> length (bc_Chain y)" "only_snapshots y z"
        and parent: "bf_Parent bf = b_Hash (bc_Chain y ! 1)"
      have start: "paid_alice z g (bc_Chain y ! 1) (w_Address alice)"
        using paid_alice_only [OF z(3)] y(3) z(2) by blast
      show "ends (and_then (main_fork G rnd alice bob charlie (bf_Parent bf) nonces z) (\<lambda>(xenium, nonces, forkHash).
        and_then (main_more_forks G rnd alice bob charlie (bf_Parent bf) nonces xenium) (\<lambda>xenium.
          case main_report G ratio rate0 percent bf forkHash xenium of
            None \<Rightarrow> None
          | Some (text, csv) \<Rightarrow> Some (Inr (text, csv))))) (\<lambda>_. False)"
        unfolding parent
        by (rule forks_end [OF start assms(4-7) y(1) third [OF yn(2) z(1), unfolded parent] fourth [OF yn(2) z(1), unfolded parent]])
    qed
  qed
qed

text \<open>
  C16: the command cannot finish.  Started in a directory without blocks, \<open>main\<close> ends in a panic, whatever keys and
  signatures are drawn, unless Bob's address is that of another wallet or the hash of one of the first four blocks
  that \<open>main\<close> makes is that of a block stored before it.  Before the panic it has printed nothing or the initial stakes:
  its report is never printed.  (What the node logs apart.)
\<close>

theorem main_panics:
  assumes "no_main_collision G J rnd clock bd sd"
    and "\<forall>bd' s. NewFileBlockStore J ''data'' bd = (bd', Inr s) \<longrightarrow> file_GetTip s = None"
    and "\<forall>alice bob charlie. NewWallet G (rnd 0) = Inr alice \<longrightarrow> NewWallet G (rnd 1) = Inr bob \<longrightarrow>
      NewWallet G (rnd 2) = Inr charlie \<longrightarrow> w_Address bob \<notin> {w_Address alice, w_Address charlie}"
  shows "\<exists>printed p. main_program G J ratio rate0 percent rnd clock bd sd = Some (Inl (printed, p)) \<and>
    printed = (case main_setup G J rnd clock bd sd of
      Some (Inr (xenium, wallets)) \<Rightarrow> stake_summary ''Stake (initial)'' xenium | _ \<Rightarrow> [])"
proof (cases "\<exists>p. main_setup G J rnd clock bd sd = Some (Inl p)")
  case True
  then show ?thesis by (auto simp: main_program_def)
next
  case False
  note e = main_setup_ends [OF assms(2), of G rnd clock sd]
  from False e obtain x alice bob charlie where
    run: "main_setup G J rnd clock bd sd = Some (Inr (x, alice, bob, charlie))" and x: "begun x (genesis_block G 1)"
    and w: "NewWallet G (rnd 0) = Inr alice" "NewWallet G (rnd 1) = Inr bob" "NewWallet G (rnd 2) = Inr charlie"
    by (auto simp: ends_def split: option.splits sum.splits)
  have own: "owns G alice" "owns G bob" "owns G charlie" using w NewWallet_owns by blast+
  have addr: "w_Address bob \<notin> {w_Address alice, w_Address charlie}" using assms(3) w by blast
  from main_rest_ends [OF assms(1) run x own addr, of ratio rate0 percent]
  obtain p where "main_rest G ratio rate0 percent rnd (x, alice, bob, charlie) = Some (Inl p)"
    by (auto simp: ends_def split: option.splits sum.splits)
  with run show ?thesis by (simp add: main_program_def)
qed

end
