(* ===== verification/PanicRun.thy ===== *)
theory PanicRun
  imports Demonstration
begin

text \<open>
  A run of \<open>main\<close> that gets past its setup: three wallets of which Bob's differs, an empty directory, and a hash function
  that tells the blocks of the run apart.
\<close>

lift_definition panic_sum :: "bytes \<Rightarrow> digest" is
  "\<lambda>bs. replicate 29 0 @ [sample bs 0, sample bs 64, sample bs 67]"
  by simp

definition other_key :: PrivateKey where
  \<comment> \<open>the opposite of the base point\<close>
  "other_key = \<lparr>pk_X = fst p256_G, pk_Y = 0xb01cbd1c01e58065711814b583f061e9d431cca994cea1313449bf97c840ae0a, pk_D = 2\<rparr>"

definition panic_lib :: golib where
  "panic_lib = demo_lib\<lparr>Sum256 := panic_sum, GenerateKey := \<lambda>rnd. Inr (if rnd = 1 then other_key else demo_key)\<rparr>"

lemma panic_lib_simps [simp]:
  "Sum256 panic_lib = panic_sum" "GenerateKey panic_lib rnd = Inr (if rnd = 1 then other_key else demo_key)"
  by (simp_all add: panic_lib_def)

lemma panic_sum_differs:
  assumes "sample a 0 \<noteq> sample b 0 \<or> sample a 64 \<noteq> sample b 64 \<or> sample a 67 \<noteq> sample b 67"
  shows "sum_hex panic_lib a \<noteq> sum_hex panic_lib b"
proof
  assume "sum_hex panic_lib a = sum_hex panic_lib b"
  then have "digest_bytes (panic_sum a) = digest_bytes (panic_sum b)" by (simp add: sum_hex_def)
  then show False using assms by (auto simp: panic_sum.rep_eq)
qed

section \<open>The wallets\<close>

lemma other_key_on_curve: "on_curve (pub_point other_key)"
  unfolding other_key_def pub_point_def p256_G_def fst_conv PrivateKey.simps
  by (rule on_curve_quotient [where k = "0x12bdd1ad23dfc833dccf5f6141d6bb4a1f365dc1430b0e600b52dd851938d2d69e0f5e610c5d31b4143c011096fb7a732588f09485f6ecb8999800b9aab66ad9"])
    (simp_all add: p256_p_def p256_b_def)

definition wallet_of :: "bytes \<Rightarrow> PrivateKey \<Rightarrow> Wallet" where
  "wallet_of pub k = \<lparr>w_PrivateKey = k, w_PublicKey = hexEncode pub, w_Address = sum_hex panic_lib pub\<rparr>"

definition other_pub :: bytes where
  "other_pub = 4 # be_bytes 32 (pk_X other_key) @ be_bytes 32 (pk_Y other_key)"

lemma panic_wallets: "NewWallet panic_lib rnd =
    Inr (if rnd = 1 then wallet_of other_pub other_key else wallet_of demo_pub demo_key)"
proof -
  have "ecMarshal (pub_point other_key) = Inr other_pub"
    using other_key_on_curve by (simp add: ecMarshal_def other_pub_def pub_point_def)
  then show ?thesis by (simp add: NewWallet_def ecMarshal_demo AddressFromPubKey_def wallet_of_def Let_def)
qed

lemma be_bytes_last: "(be_bytes 32 m @ be_bytes 32 n) ! 63 = word_of_nat (n mod 256)"
proof -
  have "be_bytes 32 n = be_bytes 31 (n div 256) @ [word_of_nat (n mod 256)]"
    using be_bytes.simps(2) [of 31 n] by (simp del: be_bytes.simps)
  then show ?thesis by (simp del: be_bytes.simps add: nth_append)
qed

lemma panic_addresses: "w_Address (wallet_of other_pub other_key) \<noteq> w_Address (wallet_of demo_pub demo_key)"
proof -
  have "sample other_pub 64 = 10" "sample demo_pub 64 = 245"
    by (simp_all add: sample_def other_pub_def other_key_def demo_pub_def p256_G_def be_bytes_last)
  then show ?thesis unfolding wallet_of_def Wallet.simps by (intro panic_sum_differs) simp
qed

section \<open>The hashes\<close>

text \<open>
  \<open>placed n h b\<close>: \<open>b\<close> is stored under its hash \<open>h\<close> and is the genesis block, or has an index and a slot up to \<open>n\<close>.
  \<open>spaced n x\<close>: \<open>n\<close> slots have passed, and all blocks are placed.
\<close>

definition placed :: "nat \<Rightarrow> string \<Rightarrow> Block \<Rightarrow> bool" where
  "placed n h b \<longleftrightarrow> b_Hash b = h \<and> h = hash_of_block panic_lib b \<and>
     (b_Index b = 0 \<or> b_Index b \<noteq> 0 \<and> b_Index b \<le> of_nat n \<and> length (b_PrevHash b) = 64 \<and> b_Slot b \<le> of_nat n)"

definition spaced :: "nat \<Rightarrow> chain \<Rightarrow> bool" where
  "spaced n x \<longleftrightarrow> running x \<and> map_option p_CurrentTick (bc_poh x) = Some (20 * of_nat n) \<and>
     (\<forall>h b. fmlookup (bc_Blocks x) h = Some b \<longrightarrow> placed n h b)"

lemma single_digit: "w < 10 \<Longrightarrow> FormatUint w = [char_of (48 + unat w)]"
  by (simp add: FormatUint_def dec.simps word_less_nat_alt)

lemma digit_bytes:
  assumes "v < 10" "w < 10"
  shows "byte_of (char_of (48 + unat v)) = byte_of (char_of (48 + unat w)) \<longleftrightarrow> v = (w :: u64)"
proof -
  have "unat (byte_of (char_of (48 + k))) = 48 + k" if "k < 10" for k
    using that by (simp add: byte_of_def unat_of_nat del: of_nat_add)
  from this [of "unat v"] this [of "unat w"] assms show ?thesis
    by (auto simp: word_less_nat_alt word_unat_eq_iff)
qed

lemma text_bytes:
  assumes "b_Index b < 10"
  shows "sample (str_bytes (text_of_block b)) 0 = byte_of (char_of (48 + unat (b_Index b)))"
    and "length (b_PrevHash b) = 64 \<Longrightarrow> b_Slot b < 10 \<Longrightarrow>
      sample (str_bytes (text_of_block b)) 67 = byte_of (char_of (48 + unat (b_Slot b)))"
  by (simp_all add: block_text_def single_digit [OF assms] single_digit [of "b_Slot b"] nth_append nth_Cons')

lemma unat_small: "n \<le> 4 \<Longrightarrow> unat (of_nat n :: u64) = n"
  by (simp add: unat_of_nat)

lemma up_to: "n \<le> 4 \<Longrightarrow> w \<le> of_nat n \<longleftrightarrow> unat w \<le> n" for w :: u64
  by (simp add: word_le_nat_alt unat_small)

lemma up_to_small: "n \<le> 4 \<Longrightarrow> w \<le> of_nat n \<Longrightarrow> w < 10" for w :: u64
  by (simp add: up_to word_less_nat_alt)

lemma panic_clock:
  assumes "p_CurrentTick p = 20 * of_nat n" "n \<le> 3"
  shows "p_CurrentTick (fst (Tick panic_lib p TicksPerSlot)) = 20 * of_nat (Suc n)"
    "Slot (fst (Tick panic_lib p TicksPerSlot)) = of_nat (Suc n)"
proof -
  have n: "n \<in> {0, 1, 2, 3}" using assms(2) by auto
  show q: "p_CurrentTick (fst (Tick panic_lib p TicksPerSlot)) = 20 * of_nat (Suc n)"
    using n tick_power [of p 20 panic_lib] by (auto simp: assms(1) Tick_power Let_def TicksPerSlot_def distrib_left)
  show "Slot (fst (Tick panic_lib p TicksPerSlot)) = of_nat (Suc n)" 
    unfolding Slot_def q using n by (auto simp: TicksPerSlot_def)
qed

lemma panic_drafted:
  assumes "drafted panic_lib x parent q state ts b" "placed n h parent" "n \<le> 3" "Slot q = of_nat (Suc n)"
  shows "b_Index b \<noteq> 0" "b_Index b \<le> of_nat (Suc n)" "length (b_PrevHash b) = 64" "b_Slot b = of_nat (Suc n)"
    "b_Hash b = hash_of_block panic_lib b"
proof -
  show "length (b_PrevHash b) = 64" using draftedD(1) [OF assms(1)] assms(2) by (simp add: placed_def HashBlock_def)
  note i = draftedD(2) [OF assms(1)]
  have "unat (b_Index parent) \<le> n" using assms(2,3) up_to [of n "b_Index parent"] by (auto simp: placed_def)
  moreover from this have "unat (b_Index b) = Suc (unat (b_Index parent))" unfolding i using assms(3) by (simp add: unat_word_ariths)
  moreover have "unat (b_Index b) \<le> Suc n" using calculation by simp
  ultimately show "b_Index b \<noteq> 0" "b_Index b \<le> of_nat (Suc n)" using assms(3) up_to [of "Suc n" "b_Index b"] by auto
  show "b_Slot b = of_nat (Suc n)" "b_Hash b = hash_of_block panic_lib b" using draftedD(3,7) [OF assms(1)] assms(4) by simp_all
qed

lemma spaced_fresh:
  assumes "spaced n x" "n \<le> 3" "fmlookup (bc_Blocks x) h = Some parent"
    and p: "bc_poh x = Some p"
  shows "unstored x (draft_of panic_lib x parent (fst (Tick panic_lib p TicksPerSlot)) state ts)"
  unfolding unstored_def
proof (intro allI impI, rule ccontr)
  fix b
  let ?q = "fst (Tick panic_lib p TicksPerSlot)"
  assume "draft_of panic_lib x parent ?q state ts = Some b" and "fmlookup (bc_Blocks x) (b_Hash b) \<noteq> None"
  note b = draft_drafted [OF this(1)] and this(2)
  then obtain c where c: "fmlookup (bc_Blocks x) (b_Hash b) = Some c" by blast
  have placed: "placed n (b_Hash b) c" "placed n h parent" using assms(1,3) c unfolding spaced_def by blast+
  have "p_CurrentTick p = 20 * of_nat n" using assms(1) p by (simp add: spaced_def)
  note new = panic_drafted [OF b placed(2) assms(2) panic_clock(2) [OF this assms(2)]]
  have "sum_hex panic_lib (str_bytes (text_of_block c)) = sum_hex panic_lib (str_bytes (text_of_block b))"
    using placed(1) new(5) by (simp add: placed_def HashBlock_def)
  from panic_sum_differs [of "str_bytes (text_of_block c)" "str_bytes (text_of_block b)"] this
  have same: "sample (str_bytes (text_of_block c)) 0 = sample (str_bytes (text_of_block b)) 0"
    "sample (str_bytes (text_of_block c)) 67 = sample (str_bytes (text_of_block b)) 67" by metis+
  have small: "b_Index b < 10" "b_Slot b < 10" "b_Index c < 10"
    using up_to_small [of "Suc n"] up_to_small [of n "b_Index c"] new(2,4) placed(1) assms(2) by (auto simp: placed_def)
  have "b_Index c = b_Index b" using same(1) digit_bytes [OF small(3,1)] by (simp only: text_bytes(1) [OF small(1)] text_bytes(1) [OF small(3)])
  with new(1) placed(1) have later: "length (b_PrevHash c) = 64" "b_Slot c \<le> of_nat n" by (simp_all add: placed_def)
  then have sc: "b_Slot c < 10" using up_to_small [of n] assms(2) by simp
  have "b_Slot c = b_Slot b" using same(2) digit_bytes [OF sc small(2)]
    by (simp only: text_bytes(2) [OF small(1) new(3) small(2)] text_bytes(2) [OF small(3) later(1) sc])
  with later(2) new(4) assms(2) show False using up_to [of n "b_Slot c"] unat_small [of "Suc n"] by (simp del: of_nat_Suc)
qed

lemma spaced_added:
  assumes "spaced n x" "n \<le> 3" "added panic_lib txs h x y b"
  shows "spaced (Suc n) y"
proof -
  from assms(3) obtain p parent state where p: "bc_poh x = Some p" "fmlookup (bc_Blocks x) h = Some parent"
    "drafted panic_lib x parent (fst (Tick panic_lib p TicksPerSlot)) state (b_Transactions b) b" "bc_poh y = Some (fst (Tick panic_lib p TicksPerSlot))"
    by (auto simp: added_def drawn_def)
  have "p_CurrentTick p = 20 * of_nat n" using assms(1) p(1) by (simp add: spaced_def)
  note clock = panic_clock [OF this assms(2)]
  have placed: "placed n k d" if "fmlookup (bc_Blocks x) k = Some d" for k d using assms(1) that unfolding spaced_def by blast
  note new = panic_drafted [OF p(3) placed [OF p(2)] assms(2) clock(2)]
  have step: "w \<le> of_nat n \<Longrightarrow> w \<le> of_nat (Suc n)" for w :: u64 
    using assms(2) up_to [of n w] up_to [of "Suc n" w] by (simp del: of_nat_Suc)
  have "placed (Suc n) k d" if "fmlookup (bc_Blocks y) k = Some d" for k d
  proof (cases "k = b_Hash b")
    case True
    with that assms(3) have "d = b" by (simp add: added_def)
    with True new show ?thesis by (simp add: placed_def)
  next
    case False
    with that assms(3) have "fmlookup (bc_Blocks x) k = Some d" by (simp add: added_def)
    from placed [OF this] step show ?thesis unfolding placed_def by blast
  qed
  with clock(1) p(4) assms(3) show ?thesis unfolding spaced_def added_def by simp
qed

lemma ends_result: "ends m P \<Longrightarrow> m = Some (Inr x) \<Longrightarrow> P x"
  by (simp add: ends_def)

lemma spaced_running: "spaced n x \<Longrightarrow> running x"
  by (simp add: spaced_def)

lemma spaced_tip:
  assumes "spaced n x" "n \<le> 3"
  shows "fresh_block panic_lib txs x"
  using spaced_fresh [OF assms] canonical_tip_block(3) [of x] spaced_running [OF assms(1)]
  by (simp add: running_def fresh_block_def next_draft_def)

lemma spaced_child:
  assumes "spaced n x" "n \<le> 3"
  shows "fresh_child panic_lib h txs x"
  using spaced_fresh [OF assms] by (simp add: fresh_child_def)

lemma spaced_payment:
  assumes "spaced n x" "n \<le> 3" "add_payment panic_lib rnd tx x = Some (Inr y)"
  shows "spaced (Suc n) y"
  using ends_result [OF add_payment_ends [OF spaced_running [OF assms(1)] spaced_tip [OF assms(1,2)]] assms(3)] spaced_added [OF assms(1,2)]
  by blast

lemma spaced_external:
  assumes "spaced n x" "n \<le> 3" "fmlookup (bc_Blocks x) h = Some parent" "add_external panic_lib rnd h tx x = Some (Inr (y, hash))"
  shows "spaced (Suc n) y"
  using ends_result [OF add_external_ends [OF spaced_running [OF assms(1)] assms(3) spaced_child [OF assms(1,2)]] assms(4)]
    spaced_added [OF assms(1,2)] by auto

lemma spaced_begun: "begun x (genesis_block panic_lib 1) \<Longrightarrow> spaced 0 x"
  by (auto simp: spaced_def begun_def placed_def genesis_block_fields(1) genesis_block_hash split: if_splits)

lemma spaced_blocks:
  assumes "spaced 0 x" "main_blocks panic_lib rnd alice bob charlie x = Some (Inr (y, nonces))"
  shows "spaced 2 y"
proof -
  from assms(2) obtain r1 r2 t1 t2 u where "add_payment panic_lib r1 t1 x = Some (Inr u)" "add_payment panic_lib r2 t2 u = Some (Inr y)"
    by (auto simp: main_blocks_def and_then_Inr)
  from spaced_payment [OF spaced_payment [OF assms(1) _ this(1)] _ this(2)] show ?thesis by (simp add: numeral_2_eq_2)
qed

lemma spaced_before:
  assumes "spaced n y" "main_before panic_lib y = Some (Inr (z, bf))"
  shows "spaced n z"
proof -
  from ends_result [OF main_before_ends [OF spaced_running [OF assms(1)]] assms(2)] have o: "only_snapshots y z" by simp
  note f = only_snapshots_frame [OF o]
  show ?thesis using assms(1) running_frame [OF f(1,2,4,7)] by (simp add: spaced_def f)
qed

lemma spaced_external_any:
  assumes "spaced n x" "n \<le> 3" "add_external panic_lib rnd h tx x = Some (Inr (y, hash))"
  shows "spaced (Suc n) y"
proof (cases "fmlookup (bc_Blocks x) h")
  case None
  obtain p where "bc_poh x = Some p" using spaced_running [OF assms(1)] by (auto simp: running_def)
  with None assms(3) show ?thesis by (auto simp: add_external_def AddBlockExternal_def check_def must_def split: if_splits)
next
  case (Some parent)
  then show ?thesis by (rule spaced_external [OF assms(1,2) _ assms(3)])
qed

lemma panic_no_collision:
  assumes "\<forall>bd' s. NewFileBlockStore J ''data'' bd = (bd', Inr s) \<longrightarrow> file_GetTip s = None"
  shows "no_main_collision panic_lib J rnd clock bd sd"
  unfolding no_main_collision_def
proof (intro allI impI)
  fix x alice bob charlie
  assume "main_setup panic_lib J rnd clock bd sd = Some (Inr (x, alice, bob, charlie))"
  then have x: "spaced 0 x" using ends_result [OF main_setup_ends [OF assms]] spaced_begun by fastforce
  have one: "spaced 1 y" if "add_payment panic_lib r tx x = Some (Inr y)" for r tx y
    using spaced_payment [OF x _ that] by simp
  have two: "spaced 2 z" if "main_blocks panic_lib rnd alice bob charlie x = Some (Inr (y, nonces))"
    "main_before panic_lib y = Some (Inr (z, bf))" for y nonces z bf
    by (rule spaced_before [OF spaced_blocks [OF x that(1)] that(2)])
  have three: "spaced 3 u" if "spaced 2 z" "add_external panic_lib r h tx z = Some (Inr (u, hash))" for z r h tx u hash
    using spaced_external_any [OF that(1) _ that(2)] by (simp add: numeral_3_eq_3 numeral_2_eq_2)
  note blocks = spaced_tip [OF x] spaced_tip [OF one] spaced_child [OF two] spaced_child [OF three [OF two]]
  show "(\<forall>n1 tx1. pay panic_lib (rnd 3) alice (w_Address bob) 50 1 fmempty = Some (Inr (n1, tx1)) \<longrightarrow>
        fresh_block panic_lib [tx1] x \<and>
        (\<forall>y n2 tx2. add_payment panic_lib (rnd 4) tx1 x = Some (Inr y) \<longrightarrow>
          pay panic_lib (rnd 5) bob (w_Address charlie) 20 1 n1 = Some (Inr (n2, tx2)) \<longrightarrow> fresh_block panic_lib [tx2] y)) \<and>
      (\<forall>y nonces z bf n3 tx3. main_blocks panic_lib rnd alice bob charlie x = Some (Inr (y, nonces)) \<longrightarrow>
        main_before panic_lib y = Some (Inr (z, bf)) \<longrightarrow>
        pay panic_lib (rnd 7) charlie (w_Address alice) 10 1 nonces = Some (Inr (n3, tx3)) \<longrightarrow>
        fresh_child panic_lib (bf_Parent bf) [tx3] z \<and>
        (\<forall>u hash n4 tx4. add_external panic_lib (rnd 8) (bf_Parent bf) tx3 z = Some (Inr (u, hash)) \<longrightarrow>
          pay panic_lib (rnd 9) alice (w_Address bob) 5 1 n3 = Some (Inr (n4, tx4)) \<longrightarrow> fresh_child panic_lib hash [tx4] u))"
    by (intro conjI allI impI) (rule blocks; simp)+
qed

section \<open>The run\<close>

lemma register_ok:
  assumes "name \<noteq> []" "w_PublicKey w \<noteq> []" "\<not> stake \<le>s 0" "\<not> stake <s MinStake"
  shows "\<exists>y. register name stake w x = Some (Inr y)"
  using assms by (auto simp: register_def AddValidatorTo_def AddValidator_def check_def must_def Let_def split: option.split)

lemma panic_setup:
  "\<exists>r. main_setup panic_lib (one_block_json (genesis_block panic_lib 1)) id 0 empty_disk empty_disk = Some (Inr r)"
proof -
  let ?g = "genesis_block panic_lib (fresh_seed (cf_Chain main_config) (Some 0))" and ?J = "one_block_json (genesis_block panic_lib 1)"
  have g: "?g = genesis_block panic_lib 1" by (simp add: fresh_seed_def main_config_def DefaultConfig_def)
  have "json_block ?J ?g" "json_index ?J (index_of (memory_of [?g] empty_disk))"
    unfolding g by (simp_all add: json_block_def json_index_def one_block_json_def str_bytes_def byte_of_def)
  moreover have "file_ok ?J [] (memory_of [] empty_disk)" by (simp add: file_ok_def on_disk_def empty_disk_def get_or_def)
  moreover have "dk_script empty_disk = []" "dk_files empty_disk = fmempty" "cf_DataDir main_config \<noteq> []"
    by (simp_all add: empty_disk_def main_config_def DefaultConfig_def)
  ultimately obtain bd sd node where n: "NewNode panic_lib ?J main_config (Some 0) empty_disk empty_disk = Some (bd, sd, Inr node)"
    using first_start [of ?J panic_lib main_config "Some 0" empty_disk empty_disk] by blast
  let ?a = "wallet_of demo_pub demo_key" and ?b = "wallet_of other_pub other_key"
  have keys: "w_PublicKey ?a \<noteq> []" "w_PublicKey ?b \<noteq> []" by (simp_all add: wallet_of_def demo_pub_def other_pub_def hexEncode_Cons hex_byte_def)
  obtain x where x: "register ''Alice'' 100 ?a (nd_Chain node) = Some (Inr x)"
    using register_ok [of "''Alice''" ?a 100] keys by (auto simp: MinStake_def word_sle_eq word_sless_alt)
  obtain y where y: "register ''Bob'' 60 ?b x = Some (Inr y)"
    using register_ok [of "''Bob''" ?b 60] keys by (auto simp: MinStake_def word_sle_eq word_sless_alt)
  obtain z where z: "register ''Charlie'' 40 ?a y = Some (Inr z)"
    using register_ok [of "''Charlie''" ?a 40] keys by (auto simp: MinStake_def word_sle_eq word_sless_alt)
  show ?thesis
    using n x y z by (simp add: main_setup_def main_config_def and_then_def must_def panic_wallets Let_def)
qed

theorem main_panics_witness:
  "\<exists>xenium wallets p.
    main_setup panic_lib (one_block_json (genesis_block panic_lib 1)) id 0 empty_disk empty_disk = Some (Inr (xenium, wallets)) \<and>
    main_program panic_lib (one_block_json (genesis_block panic_lib 1)) (\<lambda>a b. ()) () (\<lambda>r. []) id 0 empty_disk empty_disk =
      Some (Inl (stake_summary ''Stake (initial)'' xenium, p))"
proof -
  let ?J = "one_block_json (genesis_block panic_lib 1)"
  have "file_ok ?J [] (memory_of [] empty_disk)" by (simp add: file_ok_def on_disk_def empty_disk_def get_or_def)
  then have "NewFileBlockStore ?J ''data'' empty_disk = (empty_disk, Inr (memory_of [] empty_disk))"
    using reload_file_ok by fastforce
  then have tip: "\<forall>bd' s. NewFileBlockStore ?J ''data'' empty_disk = (bd', Inr s) \<longrightarrow> file_GetTip s = None"
    by (simp add: file_GetTip_def memory_of_def)
  obtain xenium wallets where x: "main_setup panic_lib ?J id 0 empty_disk empty_disk = Some (Inr (xenium, wallets))"
    using panic_setup by auto
  have "\<exists>printed p. main_program panic_lib ?J (\<lambda>a b. ()) () (\<lambda>r. []) id 0 empty_disk empty_disk = Some (Inl (printed, p)) \<and>
      printed = (case main_setup panic_lib ?J id 0 empty_disk empty_disk of
        Some (Inr (xenium, wallets)) \<Rightarrow> stake_summary ''Stake (initial)'' xenium | _ \<Rightarrow> [])"
    by (rule main_panics [OF panic_no_collision [OF tip] tip]) (use panic_addresses in \<open>auto simp: panic_wallets\<close>)
  with x show ?thesis by (intro exI [of _ xenium] exI [of _ wallets]) simp
qed

end
