(* ===== verification/Logging.thy ===== *)
theory Logging
  imports Production
begin

text \<open>
  What a node logs: \<open>ports/logger.go\<close>, \<open>adapters/logger_std.go\<close> and the calls of the logger in
  \<open>core/blockchain.go\<close>.  The logger never changes a chain, so its messages are a function of the chain before
  the call that emits them; the lemmas tie them to what the call does to the chain.
\<close>

section \<open>Loggers\<close>

datatype log_level = Infof | Warnf | Errorf | Criticalf

type_synonym log_entry = "log_level \<times> string"

datatype Logger = StdLogger | nopLogger

definition level_tag :: "log_level \<Rightarrow> string" where
  "level_tag l = (case l of Infof \<Rightarrow> ''[INFO] '' | Warnf \<Rightarrow> ''[WARN] '' | Errorf \<Rightarrow> ''[ERROR] '' | Criticalf \<Rightarrow> ''[CRITICAL] '')"

definition log_output :: "Logger \<Rightarrow> log_entry \<Rightarrow> string" where
  \<comment> \<open>what a logger prints for a call with this level and formatted message\<close>
  "log_output l e = (case l of StdLogger \<Rightarrow> level_tag (fst e) @ snd e @ [char_of (10 :: nat)] | nopLogger \<Rightarrow> [])"

definition ensureLogger :: "Logger option \<Rightarrow> Logger" where
  "ensureLogger l = (case l of None \<Rightarrow> nopLogger | Some l \<Rightarrow> l)"

definition reorg_stats_line :: "('bs, 'ss) Blockchain \<Rightarrow> string" where
  \<comment> \<open>\<open>PrintReorgStats\<close>\<close>
  "reorg_stats_line bc =
    ''ReorgStats: INFO='' @ FormatUint (rm_Info (bc_ReorgStats bc)) @ '' WARN='' @ FormatUint (rm_Warn (bc_ReorgStats bc)) @
    '' ERROR='' @ FormatUint (rm_Error (bc_ReorgStats bc)) @ '' CRITICAL='' @ FormatUint (rm_Critical (bc_ReorgStats bc)) @
    [char_of (10 :: nat)]"

section \<open>Messages\<close>

definition reorg_message :: "nat \<Rightarrow> u64 \<Rightarrow> Block list \<Rightarrow> string" where
  "reorg_message depth divergeSlot newChain =
    ''Reorg detected depth='' @ dec depth @ '' (fromSlot='' @ FormatUint divergeSlot @ '' toSlot='' @
      FormatUint (b_Slot (last newChain)) @ '')''"

definition too_deep_message :: "nat \<Rightarrow> i64 \<Rightarrow> u64 \<Rightarrow> Block list \<Rightarrow> string" where
  "too_deep_message depth maxDepth divergeSlot newChain =
    ''Reorg rejected depth='' @ dec depth @ '' exceeds max='' @ Itoa maxDepth @ '' (fromSlot='' @ FormatUint divergeSlot @
      '' toSlot='' @ FormatUint (b_Slot (last newChain)) @ '')''"

definition too_light_message :: "u64 \<Rightarrow> u64 \<Rightarrow> i64 \<Rightarrow> string" where
  "too_light_message required actual percent =
    ''Reorg rejected: insufficient weight delta required='' @ FormatUint required @ '' actual='' @ FormatUint actual @
      '' minDeltaPct='' @ Itoa percent"

definition canonical_log :: "golib \<Rightarrow> string \<Rightarrow> ('bs, 'ss) Blockchain \<Rightarrow> log_entry list option" where
  \<comment> \<open>the messages of \<open>updateCanonical\<close>\<close>
  "canonical_log G tipHash bc =
    (if bc_CanonicalTip bc = [] then Some []
     else do {
       (bc, currentScore) \<leftarrow> scoreTip G (bc_CanonicalTip bc) bc;
       (bc, newScore) \<leftarrow> scoreTip G tipHash bc;
       if \<not> betterScore newScore currentScore then Some []
       else do {
         r \<leftarrow> chainFromTip (bc_Blocks bc) tipHash;
         case r of
           Inl e \<Rightarrow> Some []
         | Inr newChain \<Rightarrow>
           (let (reorgDepth, divergeSlot) = computeReorgDepthAndSlot (bc_Chain bc) newChain in
            if 0 < bc_FinalizedSlot bc \<and> divergeSlot \<le> bc_FinalizedSlot bc
            then Some [(Criticalf, ''Reorg attempt touching finalized slot='' @ FormatUint divergeSlot)]
            else if sint (cfg_MaxReorgDepth (bc_Config bc)) < int reorgDepth
            then Some [(Errorf, too_deep_message reorgDepth (cfg_MaxReorgDepth (bc_Config bc)) divergeSlot newChain)]
            else let (bc, ok) = weightDeltaSatisfied G (cs_CumulativeWeight currentScore) (cs_CumulativeWeight newScore) bc in
              if \<not> ok
              then let (bc, required, actual) = weightDeltaRequired G (cs_CumulativeWeight currentScore) (cs_CumulativeWeight newScore) bc
                in Some [(Errorf, too_light_message required actual (cfg_MinReorgWeightDeltaP (bc_Config bc)))]
              else if 0 < reorgDepth
              then Some [(if 1 < reorgDepth then Warnf else Infof, reorg_message reorgDepth divergeSlot newChain)]
              else Some [])
       }
     })"

definition equivocation_message :: "string \<Rightarrow> u64 \<Rightarrow> string \<Rightarrow> string \<Rightarrow> u64 \<Rightarrow> string" where
  "equivocation_message validator slot h1 h2 jailedUntil =
    ''Equivocation detected validator='' @ validator @ '' slot='' @ FormatUint slot @ '' block1='' @ h1 @ '' block2='' @ h2 @
      '' jailedUntil='' @ FormatUint jailedUntil"

definition equivocation_log :: "Block \<Rightarrow> ('bs, 'ss) Blockchain \<Rightarrow> log_entry list" where
  \<comment> \<open>the messages of \<open>registerSlotProducer\<close>\<close>
  "equivocation_log block bc =
    (case fmlookup (get_or fmempty (bc_SlotProducers bc) (b_Slot block)) (b_Validator block) of
      Some existing \<Rightarrow>
        (if existing \<noteq> b_Hash block
         then [(Errorf, equivocation_message (b_Validator block) (b_Slot block) existing (b_Hash block)
           (b_Slot block div SlotsPerEpoch + JailEpochs))]
         else [])
    | None \<Rightarrow> [])"

section \<open>The log and the chain\<close>

text \<open>\<open>counted log m\<close>: the metrics \<open>m\<close> after one more count for each message.\<close>

definition count_entry :: "log_level \<Rightarrow> ReorgMetrics \<Rightarrow> ReorgMetrics" where
  "count_entry l m = (case l of Infof \<Rightarrow> m\<lparr>rm_Info := rm_Info m + 1\<rparr> | Warnf \<Rightarrow> m\<lparr>rm_Warn := rm_Warn m + 1\<rparr>
     | Errorf \<Rightarrow> m\<lparr>rm_Error := rm_Error m + 1\<rparr> | Criticalf \<Rightarrow> m\<lparr>rm_Critical := rm_Critical m + 1\<rparr>)"

definition counted :: "log_entry list \<Rightarrow> ReorgMetrics \<Rightarrow> ReorgMetrics" where
  "counted log m = fold (count_entry \<circ> fst) log m"

lemma counted_simps [simp]: "counted [] m = m" "counted (e # log) m = counted log (count_entry (fst e) m)"
  by (simp_all add: counted_def)

text \<open>\<open>verdict bc new\<close>: what there is to say about a tip whose chain is \<open>new\<close>.\<close>

definition verdict :: "('bs, 'ss) Blockchain \<Rightarrow> Block list \<Rightarrow> log_entry list" where
  "verdict bc new =
    (let (depth, slot) = computeReorgDepthAndSlot (bc_Chain bc) new; old = chain_weight bc (bc_Chain bc); weight = chain_weight bc new in
     if \<not> betterScore (score_of bc new) (score_of bc (bc_Chain bc)) then []
     else if 0 < bc_FinalizedSlot bc \<and> slot \<le> bc_FinalizedSlot bc
     then [(Criticalf, ''Reorg attempt touching finalized slot='' @ FormatUint slot)]
     else if sint (cfg_MaxReorgDepth (bc_Config bc)) < int depth
     then [(Errorf, too_deep_message depth (cfg_MaxReorgDepth (bc_Config bc)) slot new)]
     else if \<not> delta_ok bc old weight
     then [(Errorf, too_light_message (min_delta bc) (if old < weight then weight - old else 0) (cfg_MinReorgWeightDeltaP (bc_Config bc)))]
     else if 1 < depth then [(Warnf, reorg_message depth slot new)]
     else if depth = 1 then [(Infof, reorg_message depth slot new)]
     else [])"

lemma weightDeltaRequired_view:
  "snd (weightDeltaRequired G old new bc) = (min_delta bc, if old < new then new - old else 0)"
proof -
  have "(if x = 0 then 1 else x) = max 1 x" for x :: u64
    by (auto simp: max_def linorder_not_le word_less_1)
  then show ?thesis
    using only_snapshots_frame(15) [OF ensureSnapshot_only(1) [of bc G "epochForSlot (chainTipSlot bc) bc"]]
    by (simp add: weightDeltaRequired_def activeStake_view min_delta_def Let_def)
qed

lemma weightDeltaRequired_frame [simp]:
  "bc_Config (fst (weightDeltaRequired G old new bc)) = bc_Config bc"
  "bc_ReorgStats (fst (weightDeltaRequired G old new bc)) = bc_ReorgStats bc"
  using only_snapshots_frame(15,16) [OF weightDeltaRequired_only [of bc G old new]] by simp_all

lemma canonical_log_run:
  assumes "canonical_ok bc" "rooted (bc_Blocks bc) tip new" "tip \<noteq> []"
  shows "canonical_log G tip bc = Some (verdict bc new)"
proof -
  let ?old = "chain_weight bc (bc_Chain bc)" and ?new = "chain_weight bc new"
  obtain bc1 bc2 bc3 where s: "scoreTip G (bc_CanonicalTip bc) bc = Some (bc1, score_of bc (bc_Chain bc))"
    "scoreTip G tip bc1 = Some (bc2, score_of bc new)" "chainFromTip (bc_Blocks bc) tip = Some (Inr new)"
    "weightDeltaSatisfied G ?old ?new bc2 = (bc3, delta_ok bc ?old ?new)" and o: "only_snapshots bc bc2" "only_snapshots bc bc3"
    using fork_choice [OF assms, where G = G] .
  obtain depth slot where d: "computeReorgDepthAndSlot (bc_Chain bc) new = (depth, slot)" by fastforce
  note f = only_snapshots_frame [OF o(1)] only_snapshots_frame [OF o(2)]
  have views: "min_delta bc3 = min_delta bc" by (simp add: min_delta_def only_snapshots_views [OF o(2)] f)
  define bc4 where "bc4 = fst (weightDeltaRequired G ?old ?new bc3)"
  have required: "weightDeltaRequired G ?old ?new bc3 = (bc4, min_delta bc, if ?old < ?new then ?new - ?old else 0)"
    using weightDeltaRequired_view [of G ?old ?new bc3] by (simp add: bc4_def views prod_eq_iff)
  have "bc_Config bc4 = bc_Config bc" by (simp add: bc4_def f)
  then show ?thesis
    using canonical_okD(2) [OF assms(1)] by (auto simp: canonical_log_def verdict_def score_weight s d f required Let_def)
qed

lemma ReorgStats_adopt: "bc_ReorgStats (adopt G tip c bc) = bc_ReorgStats bc"
  by (simp add: adopt_def updateFinality_def rebuildStateFromCanonical_def rebuildSlotMap_def Let_def split: sum.split)

lemma updateCanonical_counts:
  assumes "canonical_ok bc" "rooted (bc_Blocks bc) tip new" "tip \<noteq> []" "updateCanonical G tip bc = Some (bc', adopted)"
  shows "bc_ReorgStats bc' = counted (verdict bc new) (bc_ReorgStats bc)"
proof -
  obtain depth slot where d: "computeReorgDepthAndSlot (bc_Chain bc) new = (depth, slot)" by fastforce
  show ?thesis
    by (rule updateCanonical_branches [OF assms(1-3) d, of G])
      (use assms(4) in \<open>auto simp: verdict_def d count_entry_def count_reorg_def only_snapshots_frame ReorgStats_adopt Let_def split: if_splits\<close>)
qed

text \<open>
  C25: the log tells what the fork choice did.  For a stored tip, \<open>updateCanonical\<close> logs at most one message: a
  critical one when the tip would replace a final block, an error with both depths or both weights when the
  reorganisation is too deep or gains too little, a warning or an information when blocks of the canonical chain were
  replaced, and none when the tip is not better or only extends the chain.  The counters of \<open>ReorgStats\<close> grow by
  exactly the messages of their level, and the tip is adopted exactly when it is better and no error was logged.
\<close>

theorem reorg_log:
  assumes "canonical_ok bc" "fmlookup (bc_Blocks bc) tip = Some b"
  shows "\<exists>bc' adopted new. chainFromTip (bc_Blocks bc) tip = Some (Inr new) \<and> updateCanonical G tip bc = Some (bc', adopted) \<and>
    canonical_log G tip bc = Some (verdict bc new) \<and> length (verdict bc new) \<le> 1 \<and>
    bc_ReorgStats bc' = counted (verdict bc new) (bc_ReorgStats bc) \<and>
    (adopted \<longleftrightarrow> betterScore (score_of bc new) (score_of bc (bc_Chain bc)) \<and>
      (\<forall>e\<in>set (verdict bc new). fst e = Warnf \<or> fst e = Infof))"
proof -
  from tree_okD(2,4) [OF canonical_okD(1) [OF assms(1)] assms(2)] obtain new where
    new: "rooted (bc_Blocks bc) tip new" and tip: "tip \<noteq> []" by blast
  from updateCanonical_run [OF assms(1) new tip, of G] obtain bc' adopted where
    run: "updateCanonical G tip bc = Some (bc', adopted)" "adopted \<longleftrightarrow> adoptable bc new" by (auto split: if_splits)
  obtain depth slot where d: "computeReorgDepthAndSlot (bc_Chain bc) new = (depth, slot)" by fastforce
  have guard: "(bc_FinalizedSlot bc = 0 \<or> bc_FinalizedSlot bc < slot) \<longleftrightarrow> \<not> (0 < bc_FinalizedSlot bc \<and> slot \<le> bc_FinalizedSlot bc)"
    using word_neq_0_conv [of "bc_FinalizedSlot bc"] not_le [of slot "bc_FinalizedSlot bc"] by blast
  have "length (verdict bc new) \<le> 1" by (simp add: verdict_def d Let_def)
  moreover have "adoptable bc new \<longleftrightarrow> betterScore (score_of bc new) (score_of bc (bc_Chain bc)) \<and>
      (\<forall>e\<in>set (verdict bc new). fst e = Warnf \<or> fst e = Infof)"
    unfolding adoptable_def verdict_def d prod.case guard Let_def
    by (cases "0 < bc_FinalizedSlot bc \<and> slot \<le> bc_FinalizedSlot bc"; cases "delta_ok bc (chain_weight bc (bc_Chain bc)) (chain_weight bc new)") (simp_all only: if_True if_False, auto)
  ultimately show ?thesis
    using run chainFromTip_rooted [OF new tip] canonical_log_run [OF assms(1) new tip] updateCanonical_counts [OF assms(1) new tip run(1)]
    by (intro exI [of _ bc'] exI [of _ adopted] exI [of _ new]) simp
qed

theorem reorg_log_witness:
  "\<exists>bc' text. updateCanonical demo_lib ''j'' demo_bc = Some (bc', False) \<and> canonical_log demo_lib ''j'' demo_bc = Some [(Errorf, text)] \<and>
    rm_Error (bc_ReorgStats bc') = 1"
proof -
  let ?new = "[root_block, child_block ''h'' ''g'' 1 ''alice'', child_block ''j'' ''h'' 2 ''bob'']"
  have stored: "fmlookup (bc_Blocks demo_bc) ''j'' = Some (child_block ''j'' ''h'' 2 ''bob'')"
    by (simp add: demo_bc_def demo_blocks_def)
  have walk: "chainFromTip (bc_Blocks demo_bc) ''j'' = Some (Inr ?new)"
    by (rule chainFromTip_rooted) (simp_all add: demo_bc_def demo_rooted)
  have "\<exists>text. verdict demo_bc ?new = [(Errorf, text)]"
    by (simp add: verdict_def demo_fields demo_depth demo_weights delta_ok_def demo_views score_of_def betterScore_def word_sle_eq)
      (simp add: word_le_nat_alt)
  moreover have "rm_Error (bc_ReorgStats demo_bc) = 0" by (simp add: demo_bc_def)
  ultimately show ?thesis using reorg_log [OF demo_bc_ok stored, of demo_lib] walk by (auto simp: count_entry_def)
qed

text \<open>A logged equivocation names the proof that the call puts on record, and the epoch that its validator is jailed until.\<close>

lemma equivocation_logged:
  assumes "registerSlotProducer b bc = (bc', Some err)"
  shows "\<exists>p st s. bc_Equivocations bc' = bc_Equivocations bc @ [p] \<and> ep_Slot p = b_Slot b \<and> ep_Validator p = b_Validator b \<and>
      bc_Stats bc' = Some st \<and> fmlookup st (b_Validator b) = Some s \<and>
      equivocation_log b bc = [(Errorf, equivocation_message (ep_Validator p) (ep_Slot p) (ep_BlockA p) (ep_BlockB p) (vs_JailedUntilEpoch s))]"
  using assms by (auto simp: registerSlotProducer_def equivocation_log_def handleEquivocation_def ensureStats_def set_stats_def
      slash_percent_def Let_def split: option.splits if_splits)

lemma accepted_not_logged: "registerSlotProducer b bc = (bc', None) \<Longrightarrow> equivocation_log b bc = []"
  by (auto simp: registerSlotProducer_def equivocation_log_def Let_def split: option.splits if_splits)

end
