(* ===== verification/Spec2Isabelle.thy ===== *)
theory Spec2Isabelle
  imports Adding Penalties Verification Runs Scenario PanicRun Logging
begin

text \<open>
  Xenium, a single-node proof-of-stake chain in Go.  A node ticks a proof-of-history clock, elects a leader
  per slot from a frozen snapshot of the stakes, lets it produce a block against the ledger, keeps a tree
  of blocks with a canonical branch chosen by stake, punishes missed slots and equivocation, and stores
  blocks and snapshots in a directory.

  \<^bold>\<open>Theories and source files\<close>

  \<^item> \<open>Prelude\<close>: Go's integers as 64-bit words, errors as values, maps as finite maps, \<open>range\<close> loops over
    them, counting loops, and the orders behind the program's comparisons (locale \<open>keyed_order\<close>).
  \<^item> \<open>GoLib\<close>: hexadecimal and decimal text, P-256 point encoding, digests, and the program's own \<open>itoa\<close>.
    The record \<open>golib\<close> of \<open>Domain\<close> holds what is a parameter: SHA-256, ECDSA and its entropy, the random
    seed and \<open>sort.Slice\<close>.  \<open>ecdsa_correct\<close>, \<open>sort_slice_correct\<close> and \<open>ecdsa_truncates\<close> name what is
    assumed of them; \<open>demo_lib\<close> is an instance that satisfies all of it.
  \<^item> \<open>Domain\<close> (\<open>domain/*.go\<close>), \<open>Crypto\<close> (\<open>consensus/crypto.go\<close>), \<open>PoH\<close> (\<open>consensus/poh.go\<close>), \<open>PoS\<close>
    (\<open>consensus/pos.go\<close>), \<open>PoV\<close> (\<open>consensus/pov.go\<close>), \<open>Mempool\<close> (\<open>core/mempool.go\<close>), \<open>Ports\<close>
    (\<open>ports/storage.go\<close>, \<open>adapters/clock_simulated.go\<close>): one definition per type and function, under the
    source's name where Isabelle allows it.
  \<^item> \<open>core/blockchain.go\<close> is split by layer.  \<open>BlockTree\<close>: scores, walks along parents, the depth of a
    reorganisation.  \<open>Chain\<close>: the record \<open>Blockchain\<close>, epoch snapshots, fork choice, replay of the ledger,
    finality.  \<open>Production\<close>: creation, missed slots, equivocation, acceptance, \<open>AddBlock\<close> and
    \<open>AddBlockExternal\<close>.  \<open>Forks\<close>: cached scores, fork candidates, validator summaries.  \<open>Verification\<close>:
    \<open>VerifyChain\<close>.  \<open>Adding\<close>, \<open>External\<close> and \<open>Penalties\<close> hold the properties of \<open>Production\<close>.
  \<^item> \<open>Storage\<close> and \<open>Snapshots\<close> (\<open>adapters/storage_file.go\<close>, \<open>adapters/storage_memory.go\<close>): the stores, over
    a directory whose calls follow a script of outcomes: done, refused, or written in part.
    \<open>encoding/json\<close> is the parameter \<open>jsonlib\<close>; \<open>json_block\<close>, \<open>json_index\<close>, \<open>json_snapshot\<close> state its round
    trip for one value, \<open>demo_json\<close> is an instance.  \<open>line_fits\<close> is the limit of \<open>loadBlocks\<close>: a block's line has
    at most 65535 bytes.  \<open>SaveBlock\<close> does not check it, so properties of reading name it.
  \<^item> \<open>Recovery\<close> (\<open>core/recovery.go\<close>, \<open>app/*.go\<close>): \<open>RestoreFromStorage\<close>, \<open>NewNode\<close>.  \<open>Logging\<close>
    (\<open>ports/logger.go\<close>, \<open>adapters/logger_std.go\<close>, the calls of the logger in \<open>core/blockchain.go\<close>): the messages.
  \<^item> \<open>Runs\<close>: the node as a state machine.  \<open>node_step G c\<close> is the call \<open>c\<close> of an exported method that can change a
    chain, \<open>VerifyChain\<close> and \<open>SelectTxsForBlock\<close> included; only \<open>RestoreFromStorage\<close>, which \<open>NewNode\<close> calls before
    the node runs, is not a step.  A step has no condition of its own: the theorems say which calls they are about
    (\<open>has_room\<close>, \<open>makes_fresh\<close>).  \<open>Scenario\<close>: a concrete run to finality.
  \<^item> \<open>Command\<close> (\<open>cmd/xenium/main.go\<close>): \<open>main\<close>, as a run that ends with the text that it prints and the file that it
    writes, or in a panic with the text printed before it.  \<open>Demonstration\<close> follows it through both adding methods; \<open>PanicRun\<close> is a concrete run of it.

  \<^bold>\<open>State and effects\<close>

  A \<open>Blockchain\<close> is a record with the fields of the Go struct; every method takes it and returns it.  Pointers
  (\<open>*Validator\<close>, \<open>*ValidatorStats\<close>) are entries of the map that owns them, and a write through one is an
  update of that entry.  A store inside a chain is its state with its methods.  Reading a snapshot
  creates it, so methods that only look also return a chain; \<open>only_snapshots\<close> says that nothing else
  changed.  A Go \<open>error\<close> is a value: \<open>None\<close> is \<open>nil\<close>, a pair with an error is a sum.

  \<^bold>\<open>Loops and fuel\<close>

  Loops over lists and maps are folds.  Walks along parents and \<open>uint64\<close> loops with an inclusive bound may
  not end in Go, and are \<open>partial_function (option)\<close>, where \<open>None\<close> means that the call does not return; there
  is no fuel.  That they return is proved: for walks on every well-formed tree (\<open>tree_ok\<close>), for slot and
  height loops for every bound but \<open>2^64 - 1\<close>.  Where Go's \<open>range\<close> order is free, the model
  takes the order of the keys; the results do not depend on it, except for \<open>rebuildIndex\<close>, which has the
  order as a parameter.

  \<^bold>\<open>Collisions\<close>

  A block is filed under its hash, so a new block with the hash of a stored one would overwrite it.  Where a
  property excludes this, it does so for the very block that the call makes: \<open>draft_of\<close> is that block with its
  transactions, both roots and its hash, and \<open>fresh_block\<close> and \<open>fresh_child\<close> say that no block is stored under the
  hash.  They are met unless SHA-256 gives two different blocks the same digest; \<open>Scenario\<close> and \<open>PanicRun\<close> have runs that meet them.

  \<^bold>\<open>What the lemmas show\<close>

  \<^item> Running node: \<open>node_invariant\<close> and \<open>finality_for_ever\<close> over every sequence of calls; below them
    \<open>updateCanonical_decides\<close> (the exact condition for adopting a tip), \<open>finalized_blocks_stay\<close>,
    \<open>AddBlock_outcome\<close>, \<open>AddBlock_succeeds\<close>, \<open>AddBlock_returns\<close>, \<open>AddBlockExternal_outcome\<close>.  The invariant of \<open>Runs\<close>
    includes the registry: every validator is filed under its own name and has a public key.
  \<^item> \<open>reorg_log\<close>: the log and the counters of reorganisations say what the fork choice did.
  \<^item> \<open>main_panics\<close>: the command, from an empty directory, ends in a panic.
  \<^item> \<open>VerifyChain_exact\<close> (what a verified chain is, and who is blamed otherwise) and \<open>VerifyChain_extends\<close>.
  \<^item> Ledger: money and nonces (\<open>ApplyTransactions_money\<close>, \<open>_nonces\<close>, \<open>_error\<close>, \<open>_mints\<close>), the pool and its
    selection, the commitments of the roots.
  \<^item> Election: proportional to stake, and the two elections agree.  Penalties: exactly when and how much.
  \<^item> Storage: saved blocks survive a restart, every crash of a save, the snapshot directory as a map, restart
    of a node.  \<open>node_invariant\<close> gives the \<open>linked\<close> chain that \<open>restart_restores_chain\<close> asks for.

  Locales state the interfaces: \<open>keyed_order\<close> (comparisons), \<open>batch\<close> (a ledger that applies transactions),
  \<open>registry_op\<close> (penalties), \<open>stake_lottery\<close> (elections), \<open>hash_store\<close>, \<open>block_store\<close>, \<open>snapshot_store\<close>
  (storage); each is interpreted on the model's own definitions.

  \<^bold>\<open>Findings\<close>

  Some theorems show behaviour that the program hardly means: \<open>ApplyTransactions_mints\<close>,
  \<open>SlashValidatorPercent_wraps\<close>, \<open>small_leader_never_extends\<close>, \<open>StateRoot_ambiguous\<close>,
  \<open>block_signature_covers_half\<close>, \<open>VerifyPoH_diverges\<close>, \<open>fork_lost_on_restart\<close>, \<open>torn_snapshot\<close>,
  \<open>SaveBlock_crash\<close>, \<open>main_panics\<close>.

  \<^bold>\<open>Not modelled\<close>

  The \<open>float64\<close> quotient of a validator summary and its decimal text (parameters); in the text that \<open>main\<close> prints, the
  lines of the node's logger (\<open>Logging\<close> has the messages) and the panic's own; mutexes, as every call is one step; the
  system clock (one reading when a chain is created); panics of \<open>make\<close> for a huge range in \<open>GetRange\<close>; the interfaces
  \<open>Network\<close> and \<open>Signer\<close>, which nothing implements.  \<open>int\<close> is 64 bits wide.  Runs with a restart in between are not steps of \<open>Runs\<close>,
  since a restart sets the clock back.
\<close>

end
